(* ===== verification/Muduo_Prelude.thy ===== *)
theory Muduo_Prelude
  imports Main "HOL-Library.Word" "HOL-Library.Signed_Division"
begin

unbundle bit_operations_syntax

section \<open>Shared vocabulary of the development\<close>

text \<open>
  This theory holds what every component shares: the types of machine values, the faults a
  C++ operation can end in and the result type that carries them, the \<open>size_t\<close> arithmetic with
  its wrap-around written out, and the generic lemmas on lists and results that the component
  proofs use.
\<close>

subsection \<open>Collections\<close>

named_theorems res_simps \<open>rewriting of results: sequencing and assertions\<close>
named_theorems sz_simps \<open>size_t arithmetic that does not wrap\<close>

subsection \<open>Machine values\<close>

type_synonym byte = "8 word"
type_synonym i32 = "32 word"
type_synonym i64 = "64 word"

text \<open>The string that starts at a pointer, up to the terminating zero.\<close>

definition c_string :: "byte list \<Rightarrow> byte list" where
  "c_string = takeWhile (\<lambda>b. b \<noteq> 0)"

subsection \<open>Faults and results\<close>

text \<open>
  A C++ operation of the repository can end abnormally in the following ways.  An \<open>assert\<close> that
  does not hold is \<open>Assertion\<close>: the default build defines \<open>NDEBUG\<close>, which removes the checks
  and nothing else, so an operation that returns \<open>Inr\<close> here computes the same value in both
  builds.
\<close>

datatype fault =
    Assertion          \<comment> \<open>an \<open>assert\<close> fails\<close>
  | LengthError        \<comment> \<open>\<open>std::length_error\<close>: a container beyond its \<open>max_size\<close>\<close>
  | LogicError         \<comment> \<open>\<open>std::logic_error\<close>\<close>
  | BadAnyCast         \<comment> \<open>\<open>boost::bad_any_cast\<close>\<close>
  | Undefined          \<comment> \<open>undefined behaviour: a null or singular pointer or iterator is used\<close>
  | BadAlloc           \<comment> \<open>\<open>std::bad_alloc\<close>: no memory for \<open>new\<close>\<close>
  | Fatal              \<comment> \<open>\<open>LOG_FATAL\<close> or \<open>LOG_SYSFATAL\<close>: the process aborts\<close>

type_synonym 'a res = "fault + 'a"

fun bindR :: "'a res \<Rightarrow> ('a \<Rightarrow> 'b res) \<Rightarrow> 'b res" where
  "bindR (Inl e) f = Inl e"
| "bindR (Inr x) f = f x"

definition asserting :: "bool \<Rightarrow> 'a res \<Rightarrow> 'a res" where
  "asserting P k = (if P then k else Inl Assertion)"

lemma asserting_simps [simp]: "asserting True k = k" "asserting False k = Inl Assertion"
  by (simp_all add: asserting_def)

lemma asserting_eq_Inr [res_simps]: "asserting P k = Inr x \<longleftrightarrow> P \<and> k = Inr x"
  by (simp add: asserting_def)

lemma bindR_eq_Inr [res_simps]: "bindR m f = Inr y \<longleftrightarrow> (\<exists>x. m = Inr x \<and> f x = Inr y)"
  by (cases m) auto

lemma bindR_return [simp]: "bindR m Inr = m"
  by (cases m) simp_all

lemma bindR_assoc: "bindR (bindR m f) g = bindR m (\<lambda>x. bindR (f x) g)"
  by (cases m) auto

subsection \<open>\<open>size_t\<close>\<close>

text \<open>
  \<open>size_t\<close> is 64 bits wide and wraps around.  A value is a natural number below \<open>2 ^ 64\<close>; the
  two operations write the wrap-around out.  \<open>max_size\<close> is the bound that
  \<open>std::vector<char>::resize\<close> checks.
\<close>

definition sz_add :: "nat \<Rightarrow> nat \<Rightarrow> nat" where
  "sz_add a b = (a + b) mod 2 ^ 64"

definition sz_sub :: "nat \<Rightarrow> nat \<Rightarrow> nat" where
  "sz_sub a b = (a + (2 ^ 64 - b mod 2 ^ 64)) mod 2 ^ 64"

definition max_size :: nat where
  "max_size = 2 ^ 63 - 1"

lemma sz_add_exact [sz_simps]: "a + b < 2 ^ 64 \<Longrightarrow> sz_add a b = a + b"
  by (simp add: sz_add_def)

lemma sz_sub_exact [sz_simps]:
  assumes "b \<le> a" and "a < 2 ^ 64"
  shows "sz_sub a b = a - b"
proof -
  have "sz_sub a b = ((a - b) + 2 ^ 64) mod 2 ^ 64"
    using assms by (simp add: sz_sub_def)
  also have "\<dots> = (a - b) mod 2 ^ 64"
    by (rule mod_add_self2)
  finally show ?thesis
    using assms by simp
qed

lemma sz_add_less [simp]: "sz_add a b < 2 ^ 64"
  by (simp add: sz_add_def)

lemma max_size_less: "n \<le> max_size \<Longrightarrow> n < 2 ^ 63"
  by (simp add: max_size_def)

subsection \<open>Lists as memory\<close>

text \<open>
  \<open>std::copy\<close> and \<open>memcpy\<close> into a contiguous array: the bytes from \<open>i\<close> on are replaced.  The
  written range has to lie inside the array; outside it the code has undefined behaviour.
\<close>

definition write_at :: "nat \<Rightarrow> 'a list \<Rightarrow> 'a list \<Rightarrow> 'a list" where
  "write_at i xs mem = take i mem @ xs @ drop (i + length xs) mem"

definition slice_of :: "nat \<Rightarrow> nat \<Rightarrow> 'a list \<Rightarrow> 'a list" where
  "slice_of i j mem = take (j - i) (drop i mem)"

lemma length_write_at [simp]:
  "i + length xs \<le> length mem \<Longrightarrow> length (write_at i xs mem) = length mem"
  by (simp add: write_at_def)

lemma length_slice_of [simp]:
  "j \<le> length mem \<Longrightarrow> length (slice_of i j mem) = j - i"
  by (simp add: slice_of_def)

lemma slice_of_write_at_after:
  assumes "j \<le> i" and "i \<le> length mem"
  shows "slice_of k j (write_at i xs mem) = slice_of k j mem"
  using assms by (simp add: slice_of_def write_at_def take_drop min_def)

lemma slice_of_write_at_append:
  assumes "k \<le> i" and "i + length xs \<le> length mem"
  shows "slice_of k (i + length xs) (write_at i xs mem) = slice_of k i mem @ xs"
  using assms by (cases xs) (auto simp: slice_of_def write_at_def take_drop min_def)

lemma slice_of_write_at_prepend:
  assumes "i + length xs \<le> j" and "j \<le> length mem"
  shows "slice_of i j (write_at i xs mem) = xs @ slice_of (i + length xs) j mem"
  using assms by (simp add: slice_of_def write_at_def)

lemma slice_of_empty [simp]: "slice_of i i mem = []"
  by (simp add: slice_of_def)

lemma take_slice_of: "k \<le> j - i \<Longrightarrow> take k (slice_of i j mem) = slice_of i (i + k) mem"
  by (simp add: slice_of_def min_def)

lemma drop_slice_of: "drop k (slice_of i j mem) = slice_of (i + k) j mem"
  by (simp add: slice_of_def drop_take add.commute)

lemma slice_of_append_left: "j \<le> length mem \<Longrightarrow> slice_of i j (mem @ ys) = slice_of i j mem"
  by (simp add: slice_of_def)

end
