(* ===== verification/Endian.thy ===== *)
theory Endian
  imports Muduo_Prelude
begin

section \<open>Byte order: \<open>src/src/muduo/net/Endian.h\<close>\<close>

text \<open>
  Integers reach the wire through two steps of the code: a conversion between host and network
  byte order (\<open>Endian.h\<close>, over \<open>htobe64\<close> and its relatives) and a copy of the object
  representation (\<open>memcpy\<close>, \<open>std::copy\<close>).  \<open>mem_bytes\<close> is the object representation of an
  integer on the host of the build, which is little endian; \<open>of_mem_bytes\<close> reads it back.  The
  conversions swap the bytes.  What reaches the wire is therefore the big-endian encoding
  \<open>be_bytes\<close>, most significant byte first.
\<close>

subsection \<open>Object representation\<close>

definition mem_bytes :: "'a::len word \<Rightarrow> byte list" where
  "mem_bytes w = map (\<lambda>i. ucast (drop_bit (8 * i) w)) [0..<LENGTH('a) div 8]"

fun of_mem_bytes :: "byte list \<Rightarrow> 'a::len word" where
  "of_mem_bytes [] = 0"
| "of_mem_bytes (b # bs) = ucast b OR push_bit 8 (of_mem_bytes bs)"

definition be_bytes :: "'a::len word \<Rightarrow> byte list" where
  "be_bytes w = rev (mem_bytes w)"

definition of_be_bytes :: "byte list \<Rightarrow> 'a::len word" where
  "of_be_bytes bs = of_mem_bytes (rev bs)"

definition byte_swap :: "'a::len word \<Rightarrow> 'a word" where
  "byte_swap w = of_mem_bytes (rev (mem_bytes w))"

lemma length_mem_bytes [simp]: "length (mem_bytes (w :: 'a::len word)) = LENGTH('a) div 8"
  by (simp add: mem_bytes_def)

lemma length_be_bytes [simp]: "length (be_bytes (w :: 'a::len word)) = LENGTH('a) div 8"
  by (simp add: be_bytes_def)

lemma bit_of_mem_bytes:
  "bit (of_mem_bytes bs :: 'a::len word) n \<longleftrightarrow>
     n < LENGTH('a) \<and> n div 8 < length bs \<and> bit (bs ! (n div 8)) (n mod 8)"
proof (induction bs arbitrary: n)
  case Nil
  then show ?case by simp
next
  case (Cons b bs)
  show ?case
  proof (cases "n < 8")
    case True
    then show ?thesis by (simp add: bit_simps)
  next
    case False
    then obtain m where "n = m + 8"
      by (metis add.commute le_Suc_ex not_less)
    moreover have "(m + 8) div 8 = Suc (m div 8)"
      by simp
    ultimately show ?thesis
      by (auto simp: bit_simps Cons.IH dest: bit_imp_le_length)
  qed
qed

lemma of_mem_bytes_mem_bytes:
  fixes w :: "'a::len word"
  assumes "8 dvd LENGTH('a)"
  shows "of_mem_bytes (mem_bytes w) = w"
proof (rule bit_word_eqI)
  fix n assume n: "n < LENGTH('a)"
  with assms have "n div 8 < LENGTH('a) div 8"
    by (auto simp: dvd_def)
  with n show "bit (of_mem_bytes (mem_bytes w) :: 'a word) n = bit w n"
    by (simp add: bit_of_mem_bytes mem_bytes_def bit_simps)
qed

lemma mem_bytes_of_mem_bytes:
  assumes "8 * length bs = LENGTH('a)"
  shows "mem_bytes (of_mem_bytes bs :: 'a::len word) = bs"
proof (rule nth_equalityI)
  have len: "LENGTH('a) div 8 = length bs"
    by (simp add: assms [symmetric])
  then show "length (mem_bytes (of_mem_bytes bs :: 'a word)) = length bs"
    by simp
  fix i assume "i < length (mem_bytes (of_mem_bytes bs :: 'a word))"
  then have i: "i < length bs" using len by simp
  show "mem_bytes (of_mem_bytes bs :: 'a word) ! i = bs ! i"
  proof (rule bit_word_eqI)
    fix n assume n: "n < LENGTH(8)"
    then have d: "(8 * i + n) div 8 = i" "(8 * i + n) mod 8 = n" by simp_all
    have "8 * i + n < LENGTH('a)"
      using i n assms by simp
    then show "bit (mem_bytes (of_mem_bytes bs :: 'a word) ! i) n = bit (bs ! i) n"
      using i n len d by (simp add: mem_bytes_def bit_simps bit_of_mem_bytes)
  qed
qed

lemma of_be_bytes_be_bytes [simp]:
  "8 dvd LENGTH('a) \<Longrightarrow> of_be_bytes (be_bytes w) = (w :: 'a::len word)"
  by (simp add: of_be_bytes_def be_bytes_def of_mem_bytes_mem_bytes)

lemma be_bytes_of_be_bytes:
  "8 * length bs = LENGTH('a) \<Longrightarrow> be_bytes (of_be_bytes bs :: 'a::len word) = bs"
  by (simp add: of_be_bytes_def be_bytes_def mem_bytes_of_mem_bytes)

lemma mem_bytes_byte_swap:
  "8 dvd LENGTH('a) \<Longrightarrow> mem_bytes (byte_swap w) = be_bytes (w :: 'a::len word)"
  by (simp add: byte_swap_def be_bytes_def mem_bytes_of_mem_bytes)

lemma byte_swap_of_mem_bytes:
  "8 * length bs = LENGTH('a) \<Longrightarrow> byte_swap (of_mem_bytes bs :: 'a::len word) = of_be_bytes bs"
  by (simp add: byte_swap_def of_be_bytes_def mem_bytes_of_mem_bytes)

subsection \<open>The conversions of \<open>Endian.h\<close>\<close>

definition hostToNetwork64 :: "64 word \<Rightarrow> 64 word" where
  "hostToNetwork64 host64 = byte_swap host64"

definition hostToNetwork32 :: "32 word \<Rightarrow> 32 word" where
  "hostToNetwork32 host32 = byte_swap host32"

definition hostToNetwork16 :: "16 word \<Rightarrow> 16 word" where
  "hostToNetwork16 host16 = byte_swap host16"

definition networkToHost64 :: "64 word \<Rightarrow> 64 word" where
  "networkToHost64 net64 = byte_swap net64"

definition networkToHost32 :: "32 word \<Rightarrow> 32 word" where
  "networkToHost32 net32 = byte_swap net32"

definition networkToHost16 :: "16 word \<Rightarrow> 16 word" where
  "networkToHost16 net16 = byte_swap net16"

lemmas endian_defs = hostToNetwork64_def hostToNetwork32_def hostToNetwork16_def
  networkToHost64_def networkToHost32_def networkToHost16_def

lemma byte_swap_involution: "8 dvd LENGTH('a) \<Longrightarrow> byte_swap (byte_swap w) = (w :: 'a::len word)"
  by (simp add: byte_swap_def mem_bytes_of_mem_bytes of_mem_bytes_mem_bytes)

lemma networkToHost_hostToNetwork [simp]:
  "networkToHost64 (hostToNetwork64 x) = x"
  "networkToHost32 (hostToNetwork32 y) = y"
  "networkToHost16 (hostToNetwork16 z) = z"
  by (simp_all add: endian_defs byte_swap_involution)

end
