(* ===== verification/String_Piece.thy ===== *)
theory String_Piece
  imports Muduo_Prelude
begin

section \<open>String views: \<open>src/src/muduo/base/StringPiece.h\<close>\<close>

text \<open>
  A \<open>StringPiece\<close> is a pointer and a signed 32-bit length.  The model keeps, for the pointer,
  the bytes of the object from the pointer on (\<open>sp_mem\<close>), and the length as the integer the code
  holds.  An operation that would read past the object is \<open>Undefined\<close>.
\<close>

record string_piece =
  sp_mem :: "byte list"
  sp_length :: int

text \<open>\<open>static_cast<int>\<close> of a \<open>size_t\<close>: the low 32 bits, read as two's complement.\<close>

definition to_int32 :: "nat \<Rightarrow> int" where
  "to_int32 n = signed_take_bit 31 (int n)"

text \<open>The conversion of an \<open>int\<close> argument to a \<open>size_t\<close> parameter.\<close>

definition int_to_size :: "int \<Rightarrow> nat" where
  "int_to_size i = nat (i mod 2 ^ 64)"

definition piece_of_string :: "byte list \<Rightarrow> string_piece" where
  "piece_of_string s = \<lparr>sp_mem = s, sp_length = to_int32 (length s)\<rparr>"

definition piece_of_ptr :: "byte list \<Rightarrow> int \<Rightarrow> string_piece" where
  "piece_of_ptr offset len = \<lparr>sp_mem = offset, sp_length = len\<rparr>"

definition piece_ok :: "string_piece \<Rightarrow> bool" where
  "piece_ok p \<longleftrightarrow> 0 \<le> sp_length p \<and> sp_length p \<le> int (length (sp_mem p))"

definition piece_bytes :: "string_piece \<Rightarrow> byte list" where
  "piece_bytes p = take (nat (sp_length p)) (sp_mem p)"

subsection \<open>Reading\<close>

definition as_string :: "string_piece \<Rightarrow> byte list res" where
  "as_string p =
     (if int_to_size (sp_length p) \<le> max_size then
        if int_to_size (sp_length p) \<le> length (sp_mem p)
        then Inr (take (int_to_size (sp_length p)) (sp_mem p))
        else Inl Undefined
      else Inl LengthError)"

definition remove_prefix :: "int \<Rightarrow> string_piece \<Rightarrow> string_piece res" where
  "remove_prefix n p =
     (if 0 \<le> n \<and> n \<le> int (length (sp_mem p))
      then Inr (p\<lparr>sp_mem := drop (nat n) (sp_mem p), sp_length := sp_length p - n\<rparr>)
      else Inl Undefined)"

definition remove_suffix :: "int \<Rightarrow> string_piece \<Rightarrow> string_piece" where
  "remove_suffix n p = p\<lparr>sp_length := sp_length p - n\<rparr>"

text \<open>
  \<open>memcmp\<close> over the first \<open>n\<close> bytes of both objects: the difference of the first pair of bytes
  (read as \<open>unsigned char\<close>) that differ.  Both objects must have \<open>n\<close> bytes.
\<close>

fun memcmp_loop :: "byte list \<Rightarrow> byte list \<Rightarrow> int" where
  "memcmp_loop (x # xs) (y # ys) = (if x = y then memcmp_loop xs ys else uint x - uint y)"
| "memcmp_loop xs ys = 0"

definition memcmp :: "byte list \<Rightarrow> byte list \<Rightarrow> nat \<Rightarrow> int res" where
  "memcmp xs ys n =
     (if n \<le> length xs \<and> n \<le> length ys then Inr (memcmp_loop (take n xs) (take n ys))
      else Inl Undefined)"

definition piece_eq :: "string_piece \<Rightarrow> string_piece \<Rightarrow> bool res" where
  "piece_eq p x =
     (if sp_length p = sp_length x
      then bindR (memcmp (sp_mem p) (sp_mem x) (int_to_size (sp_length p))) (\<lambda>r. Inr (r = 0))
      else Inr False)"

definition piece_less :: "string_piece \<Rightarrow> string_piece \<Rightarrow> bool res" where
  "piece_less p x =
     bindR (memcmp (sp_mem p) (sp_mem x)
              (int_to_size (if sp_length p < sp_length x then sp_length p else sp_length x)))
       (\<lambda>r. Inr (r < 0 \<or> (r = 0 \<and> sp_length p < sp_length x)))"

definition piece_compare :: "string_piece \<Rightarrow> string_piece \<Rightarrow> int res" where
  "piece_compare p x =
     bindR (memcmp (sp_mem p) (sp_mem x)
              (int_to_size (if sp_length p < sp_length x then sp_length p else sp_length x)))
       (\<lambda>r. Inr (if r = 0
                 then if sp_length p < sp_length x then -1
                      else if sp_length p > sp_length x then 1 else r
                 else r))"

definition starts_with :: "string_piece \<Rightarrow> string_piece \<Rightarrow> bool res" where
  "starts_with p x =
     (if sp_length p \<ge> sp_length x
      then bindR (memcmp (sp_mem p) (sp_mem x) (int_to_size (sp_length x))) (\<lambda>r. Inr (r = 0))
      else Inr False)"

subsection \<open>What the comparisons compute\<close>

lemma to_int32_small [simp]: "n < 2 ^ 31 \<Longrightarrow> to_int32 n = int n"
  by (simp add: to_int32_def signed_take_bit_int_eq_self)

lemma int_to_size_nonneg [simp]: "0 \<le> i \<Longrightarrow> i < 2 ^ 64 \<Longrightarrow> int_to_size i = nat i"
  by (simp add: int_to_size_def)

lemma int_to_size_to_int32: "n < 2 ^ 31 \<Longrightarrow> int_to_size (to_int32 n) = n"
  by simp

text \<open>The order on byte strings that \<open>memcmp\<close> induces: lexicographic, bytes unsigned.\<close>

fun bytes_less :: "byte list \<Rightarrow> byte list \<Rightarrow> bool" where
  "bytes_less xs [] = False"
| "bytes_less [] (y # ys) = True"
| "bytes_less (x # xs) (y # ys) = (x < y \<or> x = y \<and> bytes_less xs ys)"

lemma bytes_less_irrefl: "\<not> bytes_less xs xs"
  by (induction xs) auto

lemma bytes_less_trans: "bytes_less xs ys \<Longrightarrow> bytes_less ys zs \<Longrightarrow> bytes_less xs zs"
proof (induction xs ys arbitrary: zs rule: bytes_less.induct)
  case (2 y ys)
  then show ?case by (cases zs) auto
next
  case (3 x xs y ys)
  then show ?case by (cases zs) (auto dest: order.strict_trans)
qed simp

lemma bytes_less_linear: "bytes_less xs ys \<or> xs = ys \<or> bytes_less ys xs"
proof (induction xs ys rule: bytes_less.induct)
  case (1 xs)
  then show ?case by (cases xs) auto
qed auto

lemma memcmp_loop_eq_0: "length xs = length ys \<Longrightarrow> memcmp_loop xs ys = 0 \<longleftrightarrow> xs = ys"
  by (induction xs ys rule: list_induct2) (auto simp: word_uint_eq_iff)

lemma memcmp_loop_refl [simp]: "memcmp_loop xs xs = 0"
  by (simp add: memcmp_loop_eq_0)

lemma memcmp_loop_less:
  "bytes_less xs ys \<longleftrightarrow>
     memcmp_loop (take (min (length xs) (length ys)) xs) (take (min (length xs) (length ys)) ys) < 0
     \<or> memcmp_loop (take (min (length xs) (length ys)) xs)
         (take (min (length xs) (length ys)) ys) = 0 \<and> length xs < length ys"
  by (induction xs ys rule: bytes_less.induct) (auto simp: word_less_def word_uint_eq_iff)

lemma memcmp_loop_greater:
  "length xs = length ys \<Longrightarrow> memcmp_loop xs ys > 0 \<longleftrightarrow> memcmp_loop ys xs < 0"
  by (induction xs ys rule: list_induct2) auto

lemma length_piece_bytes: "piece_ok p \<Longrightarrow> length (piece_bytes p) = nat (sp_length p)"
  by (auto simp: piece_ok_def piece_bytes_def)

text \<open>A view that lies in its object and is no longer than an \<open>int\<close> can count.\<close>

definition piece_fits :: "string_piece \<Rightarrow> bool" where
  "piece_fits p \<longleftrightarrow> piece_ok p \<and> sp_length p < 2 ^ 31"

lemma memcmp_pieces:
  assumes "piece_fits p" and "piece_fits x"
  shows "memcmp (sp_mem p) (sp_mem x)
           (int_to_size (if sp_length p < sp_length x then sp_length p else sp_length x)) =
         Inr (memcmp_loop
           (take (min (length (piece_bytes p)) (length (piece_bytes x))) (piece_bytes p))
           (take (min (length (piece_bytes p)) (length (piece_bytes x))) (piece_bytes x)))"
proof -
  let ?n = "min (length (piece_bytes p)) (length (piece_bytes x))"
  have lens: "length (piece_bytes p) = nat (sp_length p)" "length (piece_bytes x) = nat (sp_length x)"
    using assms by (simp_all add: piece_fits_def length_piece_bytes)
  have n: "int_to_size (if sp_length p < sp_length x then sp_length p else sp_length x) = ?n"
    using assms by (auto simp: lens piece_fits_def piece_ok_def min_def)
  have "?n \<le> length (sp_mem p)" "?n \<le> length (sp_mem x)"
    using assms by (auto simp: lens piece_fits_def piece_ok_def)
  moreover have "take ?n (piece_bytes p) = take ?n (sp_mem p)"
    and "take ?n (piece_bytes x) = take ?n (sp_mem x)"
    by (simp_all add: lens piece_bytes_def min.coboundedI1 min_def)
  ultimately show ?thesis
    by (simp add: n memcmp_def)
qed

lemma length_piece_bytes_less:
  "piece_fits p \<Longrightarrow> piece_fits x \<Longrightarrow>
     length (piece_bytes p) < length (piece_bytes x) \<longleftrightarrow> sp_length p < sp_length x"
  by (auto simp: piece_fits_def piece_ok_def length_piece_bytes)

lemma piece_less_iff:
  assumes "piece_fits p" and "piece_fits x"
  shows "piece_less p x = Inr (bytes_less (piece_bytes p) (piece_bytes x))"
  using assms
  by (simp add: piece_less_def memcmp_pieces memcmp_loop_less length_piece_bytes_less)

lemma piece_compare_sign:
  assumes "piece_fits p" and "piece_fits x"
  obtains r where "piece_compare p x = Inr r"
    and "r < 0 \<longleftrightarrow> bytes_less (piece_bytes p) (piece_bytes x)"
    and "r = 0 \<longleftrightarrow> piece_bytes p = piece_bytes x"
    and "r > 0 \<longleftrightarrow> bytes_less (piece_bytes x) (piece_bytes p)"
proof -
  let ?p = "piece_bytes p" and ?x = "piece_bytes x"
  let ?n = "min (length ?p) (length ?x)"
  let ?m = "memcmp_loop (take ?n ?p) (take ?n ?x)"
  define r where "r = (if ?m = 0 then if sp_length p < sp_length x then -1
    else if sp_length p > sp_length x then 1 else ?m else ?m)"
  have m: "?m = 0 \<longleftrightarrow> take ?n ?p = take ?n ?x"
    and m': "?m > 0 \<longleftrightarrow> memcmp_loop (take ?n ?x) (take ?n ?p) < 0"
    and m'': "memcmp_loop (take ?n ?x) (take ?n ?p) = 0 \<longleftrightarrow> take ?n ?x = take ?n ?p"
    by (simp_all add: memcmp_loop_eq_0 memcmp_loop_greater)
  have r: "piece_compare p x = Inr r"
    using assms by (simp add: piece_compare_def memcmp_pieces r_def)
  have lt: "r < 0 \<longleftrightarrow> bytes_less ?p ?x"
    using assms by (simp add: memcmp_loop_less length_piece_bytes_less r_def)
  have gt: "r > 0 \<longleftrightarrow> bytes_less ?x ?p"
    using assms m m' m''
    by (auto simp: memcmp_loop_less [of ?x ?p] length_piece_bytes_less min.commute r_def)
  have "r = 0 \<longleftrightarrow> \<not> r < 0 \<and> \<not> r > 0"
    by auto
  also have "\<dots> \<longleftrightarrow> ?p = ?x"
    unfolding lt gt using bytes_less_linear [of ?p ?x] bytes_less_irrefl by auto
  finally have eq: "r = 0 \<longleftrightarrow> ?p = ?x" .
  from that [OF r lt eq gt] show thesis .
qed

lemma piece_eq_iff:
  "piece_fits p \<Longrightarrow> piece_fits x \<Longrightarrow>
     piece_eq p x = Inr (piece_bytes p = piece_bytes x)"
  by (auto simp: piece_eq_def memcmp_def piece_bytes_def piece_fits_def piece_ok_def
      memcmp_loop_eq_0 dest: arg_cong [where f = length])

lemma starts_with_iff:
  "piece_fits p \<Longrightarrow> piece_fits x \<Longrightarrow>
     starts_with p x = Inr (take (length (piece_bytes x)) (piece_bytes p) = piece_bytes x
       \<and> length (piece_bytes x) \<le> length (piece_bytes p))"
  by (auto simp: starts_with_def memcmp_def piece_bytes_def piece_fits_def piece_ok_def
      memcmp_loop_eq_0 min_def)

lemma as_string_ok: "piece_fits p \<Longrightarrow> as_string p = Inr (piece_bytes p)"
  by (auto simp: as_string_def piece_bytes_def piece_fits_def piece_ok_def max_size_def)

subsection \<open>Properties\<close>

text \<open>The comparison operators of \<open>StringPiece\<close> agree with one another and with the
  lexicographic order of unsigned bytes: \<open>compare\<close> is negative, zero or positive exactly when the
  first view is smaller, equal or greater, \<open>operator<\<close> and \<open>operator==\<close> say the same, and
  \<open>starts_with\<close> tests for a prefix; none of them reads outside the two objects.\<close>

theorem piece_comparisons:
  assumes "piece_fits p" and "piece_fits x"
  shows "\<exists>r. piece_compare p x = Inr r \<and>
     piece_less p x = Inr (r < 0) \<and> piece_eq p x = Inr (r = 0) \<and> piece_less x p = Inr (r > 0) \<and>
     (r < 0 \<longleftrightarrow> bytes_less (piece_bytes p) (piece_bytes x)) \<and>
     (r = 0 \<longleftrightarrow> piece_bytes p = piece_bytes x) \<and>
     starts_with p x = Inr (\<exists>rest. piece_bytes p = piece_bytes x @ rest)"
proof -
  obtain r where r: "piece_compare p x = Inr r"
      "r < 0 \<longleftrightarrow> bytes_less (piece_bytes p) (piece_bytes x)"
      "r = 0 \<longleftrightarrow> piece_bytes p = piece_bytes x"
      "r > 0 \<longleftrightarrow> bytes_less (piece_bytes x) (piece_bytes p)"
    using piece_compare_sign [OF assms] .
  have "starts_with p x = Inr (\<exists>rest. piece_bytes p = piece_bytes x @ rest)"
    using assms by (auto simp: starts_with_iff) (metis append_take_drop_id)
  with r assms show ?thesis
    by (auto simp: piece_less_iff piece_eq_iff)
qed

theorem piece_comparisons_witness:
  "\<exists>r. piece_compare (piece_of_string [1, 200, 3]) (piece_of_string [1, 200]) = Inr r \<and> 0 < r \<and>
     starts_with (piece_of_string [1, 200, 3]) (piece_of_string [1, 200]) = Inr True"
  using piece_comparisons [of "piece_of_string [1, 200, 3]" "piece_of_string [1, 200]"]
  by (auto simp: piece_of_string_def piece_fits_def piece_ok_def piece_bytes_def to_int32_def)

end
