(* ===== verification/Queue_Contract.thy ===== *)
theory Queue_Contract
  imports Muduo_Prelude
begin

section \<open>The contract of a byte queue\<close>

text \<open>
  What the clients of \<open>muduo::net::Buffer\<close> rely on: bytes are put in at the back and taken out
  at the front, and a fault leaves nothing half done because no queue is returned.  The locale
  states the laws over an abstraction \<open>content\<close>; \<open>Net_Buffer\<close> interprets it on the model of the
  class.
\<close>

datatype queue_op =
    Put "byte list"
  | Get nat

text \<open>
  A sequence of operations on one queue: the bytes that came out, in order, and the final queue.
\<close>

fun run_queue ::
  "(byte list \<Rightarrow> 'q \<Rightarrow> 'q res) \<Rightarrow> (nat \<Rightarrow> 'q \<Rightarrow> (byte list \<times> 'q) res) \<Rightarrow>
     queue_op list \<Rightarrow> 'q \<Rightarrow> (byte list \<times> 'q) res" where
  "run_queue put get [] q = Inr ([], q)"
| "run_queue put get (Put xs # ops) q = bindR (put xs q) (run_queue put get ops)"
| "run_queue put get (Get n # ops) q =
     bindR (get n q) (\<lambda>(out, q').
     bindR (run_queue put get ops q') (\<lambda>(outs, q''). Inr (out @ outs, q'')))"

fun bytes_in :: "queue_op list \<Rightarrow> byte list" where
  "bytes_in [] = []"
| "bytes_in (Put xs # ops) = xs @ bytes_in ops"
| "bytes_in (Get n # ops) = bytes_in ops"

text \<open>A sequence never takes out more than is there, given how much is there at the start.\<close>

fun gets_covered :: "nat \<Rightarrow> queue_op list \<Rightarrow> bool" where
  "gets_covered have_n [] \<longleftrightarrow> True"
| "gets_covered have_n (Put xs # ops) \<longleftrightarrow> gets_covered (have_n + length xs) ops"
| "gets_covered have_n (Get n # ops) \<longleftrightarrow> n \<le> have_n \<and> gets_covered (have_n - n) ops"

locale byte_queue =
  fixes ok :: "'q \<Rightarrow> bool"
    and content :: "'q \<Rightarrow> byte list"
    and load :: "'q \<Rightarrow> nat"
    and put :: "byte list \<Rightarrow> 'q \<Rightarrow> 'q res"
    and get :: "nat \<Rightarrow> 'q \<Rightarrow> (byte list \<times> 'q) res"
    and largest :: nat
  assumes put_law: "ok q \<Longrightarrow> load q + length xs \<le> largest \<Longrightarrow>
      \<exists>q'. put xs q = Inr q' \<and> ok q' \<and> content q' = content q @ xs \<and>
        load q' \<le> load q + length xs"
    and get_law: "ok q \<Longrightarrow> n \<le> length (content q) \<Longrightarrow>
      \<exists>q'. get n q = Inr (take n (content q), q') \<and> ok q' \<and>
        content q' = drop n (content q) \<and> load q' \<le> load q"
    and get_fault: "ok q \<Longrightarrow> length (content q) < n \<Longrightarrow> get n q = Inl Assertion"
begin

lemma fifo:
  assumes "ok q" and "load q + length (bytes_in ops) \<le> largest"
    and "gets_covered (length (content q)) ops"
  shows "\<exists>out q'. run_queue put get ops q = Inr (out, q') \<and> ok q' \<and>
           out @ content q' = content q @ bytes_in ops"
  using assms
proof (induction ops arbitrary: q)
  case (Cons op ops)
  show ?case
  proof (cases op)
    case (Put xs)
    then obtain q1 where "put xs q = Inr q1" "ok q1" "content q1 = content q @ xs"
        "load q1 \<le> load q + length xs"
      using Cons.prems put_law [of q xs] by auto
    with Put Cons.IH [of q1] Cons.prems show ?thesis by auto
  next
    case (Get n)
    then obtain q1 where q1: "get n q = Inr (take n (content q), q1)" "ok q1"
        "content q1 = drop n (content q)" "load q1 \<le> load q"
      using Cons.prems get_law [of q n] by auto
    with Get Cons.IH [of q1] Cons.prems obtain out q' where
        "run_queue put get ops q1 = Inr (out, q')" "ok q'"
        "out @ content q' = drop n (content q) @ bytes_in ops"
      by auto
    with Get q1(1) show ?thesis
      by (intro exI [of _ "take n (content q) @ out"] exI [of _ q']) simp
  qed
qed simp

lemma overdraw:
  assumes "ok q" and "load q + length (bytes_in ops) \<le> largest"
    and "\<not> gets_covered (length (content q)) ops"
  shows "run_queue put get ops q = Inl Assertion"
  using assms
proof (induction ops arbitrary: q)
  case (Cons op ops)
  show ?case
  proof (cases op)
    case (Put xs)
    then obtain q1 where "put xs q = Inr q1" "ok q1" "content q1 = content q @ xs"
        "load q1 \<le> load q + length xs"
      using Cons.prems put_law [of q xs] by auto
    with Put Cons.IH [of q1] Cons.prems show ?thesis by simp
  next
    case (Get n)
    show ?thesis
    proof (cases "n \<le> length (content q)")
      case True
      then obtain q1 where q1: "get n q = Inr (take n (content q), q1)" "ok q1"
          "content q1 = drop n (content q)" "load q1 \<le> load q"
        using Cons.prems get_law [of q n] by auto
      with Get True Cons.IH [of q1] Cons.prems show ?thesis by simp
    next
      case False
      with Get get_fault [of q n] Cons.prems(1) show ?thesis by simp
    qed
  qed
qed simp

end

end
