(* ===== verification/Net_Buffer.thy ===== *)
theory Net_Buffer
  imports Endian String_Piece Queue_Contract
begin

section \<open>The network buffer: \<open>src/src/muduo/net/Buffer.h\<close> and \<open>Buffer.cc\<close>\<close>

text \<open>
  \<open>Buffer\<close> keeps a \<open>std::vector<char>\<close> and two indices into it.  The model has the vector's
  contents as a list of bytes and the indices as \<open>size_t\<close> values; a \<open>const char*\<close> into the
  vector is the index it points at.  Every operation of the class is a definition here, with its
  assertions, in the order of the header.  The abstraction \<open>readable\<close> is the content between the
  indices; the lemmas at the end show what each operation does to it.
\<close>

record net_buffer =
  buf_mem :: "byte list"
  readerIndex :: nat
  writerIndex :: nat

definition kCheapPrepend :: nat where
  "kCheapPrepend = 8"

definition kInitialSize :: nat where
  "kInitialSize = 1024"

definition kCRLF :: "byte list" where
  "kCRLF = [13, 10]"

subsection \<open>Sizes and pointers\<close>

definition readableBytes :: "net_buffer \<Rightarrow> nat" where
  "readableBytes b = sz_sub (writerIndex b) (readerIndex b)"

definition writableBytes :: "net_buffer \<Rightarrow> nat" where
  "writableBytes b = sz_sub (length (buf_mem b)) (writerIndex b)"

definition prependableBytes :: "net_buffer \<Rightarrow> nat" where
  "prependableBytes b = readerIndex b"

definition peek :: "net_buffer \<Rightarrow> nat" where
  "peek b = readerIndex b"

definition beginWrite :: "net_buffer \<Rightarrow> nat" where
  "beginWrite b = writerIndex b"

definition new_buffer :: "nat \<Rightarrow> net_buffer res" where
  "new_buffer initialSize =
     (let n = sz_add kCheapPrepend initialSize in
      if max_size < n then Inl LengthError
      else
        let b = \<lparr>buf_mem = replicate n 0, readerIndex = kCheapPrepend,
                 writerIndex = kCheapPrepend\<rparr> in
        asserting (readableBytes b = 0)
          (asserting (writableBytes b = initialSize)
            (asserting (prependableBytes b = kCheapPrepend) (Inr b))))"

definition swap_buffer :: "net_buffer \<Rightarrow> net_buffer \<Rightarrow> net_buffer \<times> net_buffer" where
  "swap_buffer b rhs =
     (\<lparr>buf_mem = buf_mem rhs, readerIndex = readerIndex rhs, writerIndex = writerIndex rhs\<rparr>,
      \<lparr>buf_mem = buf_mem b, readerIndex = readerIndex b, writerIndex = writerIndex b\<rparr>)"

subsection \<open>Searching\<close>

text \<open>\<open>std::search\<close>: the offset of the first occurrence, the length of the range if none.\<close>

fun std_search :: "'a list \<Rightarrow> 'a list \<Rightarrow> nat" where
  "std_search pat [] = 0"
| "std_search pat (x # xs) =
     (if take (length pat) (x # xs) = pat then 0 else Suc (std_search pat xs))"

text \<open>\<open>memchr\<close>: the offset of the first occurrence, \<open>NULL\<close> if none.\<close>

fun std_memchr :: "'a list \<Rightarrow> 'a \<Rightarrow> nat option" where
  "std_memchr [] c = None"
| "std_memchr (x # xs) c = (if x = c then Some 0 else map_option Suc (std_memchr xs c))"

definition findCRLF :: "net_buffer \<Rightarrow> nat option" where
  "findCRLF b =
     (let crlf = peek b + std_search kCRLF (slice_of (peek b) (beginWrite b) (buf_mem b)) in
      if crlf = beginWrite b then None else Some crlf)"

definition findCRLF_from :: "nat \<Rightarrow> net_buffer \<Rightarrow> nat option res" where
  "findCRLF_from start b =
     asserting (peek b \<le> start)
       (asserting (start \<le> beginWrite b)
         (let crlf = start + std_search kCRLF (slice_of start (beginWrite b) (buf_mem b)) in
          Inr (if crlf = beginWrite b then None else Some crlf)))"

definition findEOL :: "net_buffer \<Rightarrow> nat option" where
  "findEOL b =
     map_option (\<lambda>i. peek b + i)
       (std_memchr (slice_of (peek b) (peek b + readableBytes b) (buf_mem b)) 10)"

definition findEOL_from :: "nat \<Rightarrow> net_buffer \<Rightarrow> nat option res" where
  "findEOL_from start b =
     asserting (peek b \<le> start)
       (asserting (start \<le> beginWrite b)
         (Inr (map_option (\<lambda>i. start + i)
           (std_memchr (slice_of start (beginWrite b) (buf_mem b)) 10))))"

subsection \<open>Retrieving\<close>

definition retrieveAll :: "net_buffer \<Rightarrow> net_buffer" where
  "retrieveAll b = b\<lparr>readerIndex := kCheapPrepend, writerIndex := kCheapPrepend\<rparr>"

definition retrieve :: "nat \<Rightarrow> net_buffer \<Rightarrow> net_buffer res" where
  "retrieve len b =
     asserting (len \<le> readableBytes b)
       (if len < readableBytes b
        then Inr (b\<lparr>readerIndex := sz_add (readerIndex b) len\<rparr>)
        else Inr (retrieveAll b))"

definition retrieveUntil :: "nat \<Rightarrow> net_buffer \<Rightarrow> net_buffer res" where
  "retrieveUntil end_ptr b =
     asserting (peek b \<le> end_ptr)
       (asserting (end_ptr \<le> beginWrite b) (retrieve (end_ptr - peek b) b))"

definition retrieveInt64 :: "net_buffer \<Rightarrow> net_buffer res" where
  "retrieveInt64 b = retrieve 8 b"

definition retrieveInt32 :: "net_buffer \<Rightarrow> net_buffer res" where
  "retrieveInt32 b = retrieve 4 b"

definition retrieveInt16 :: "net_buffer \<Rightarrow> net_buffer res" where
  "retrieveInt16 b = retrieve 2 b"

definition retrieveInt8 :: "net_buffer \<Rightarrow> net_buffer res" where
  "retrieveInt8 b = retrieve 1 b"

definition retrieveAsString :: "nat \<Rightarrow> net_buffer \<Rightarrow> (byte list \<times> net_buffer) res" where
  "retrieveAsString len b =
     asserting (len \<le> readableBytes b)
       (let result = slice_of (peek b) (peek b + len) (buf_mem b) in
        bindR (retrieve len b) (\<lambda>b'. Inr (result, b')))"

definition retrieveAllAsString :: "net_buffer \<Rightarrow> (byte list \<times> net_buffer) res" where
  "retrieveAllAsString b = retrieveAsString (readableBytes b) b"

definition toStringPiece :: "net_buffer \<Rightarrow> string_piece" where
  "toStringPiece b = piece_of_ptr (drop (peek b) (buf_mem b)) (to_int32 (readableBytes b))"

subsection \<open>Appending\<close>

text \<open>\<open>std::vector<char>::resize\<close>: new elements are zero, a size over the limit throws.\<close>

definition vector_resize :: "nat \<Rightarrow> byte list \<Rightarrow> byte list res" where
  "vector_resize n mem =
     (if max_size < n then Inl LengthError
      else Inr (take n mem @ replicate (n - length mem) 0))"

definition makeSpace :: "nat \<Rightarrow> net_buffer \<Rightarrow> net_buffer res" where
  "makeSpace len b =
     (if sz_add (writableBytes b) (prependableBytes b) < sz_add len kCheapPrepend
      then bindR (vector_resize (sz_add (writerIndex b) len) (buf_mem b))
             (\<lambda>mem. Inr (b\<lparr>buf_mem := mem\<rparr>))
      else
        asserting (kCheapPrepend < readerIndex b)
          (let readable = readableBytes b;
               mem = write_at kCheapPrepend
                       (slice_of (readerIndex b) (writerIndex b) (buf_mem b)) (buf_mem b);
               b' = b\<lparr>buf_mem := mem, readerIndex := kCheapPrepend,
                      writerIndex := sz_add kCheapPrepend readable\<rparr> in
           asserting (readable = readableBytes b') (Inr b')))"

definition ensureWritableBytes :: "nat \<Rightarrow> net_buffer \<Rightarrow> net_buffer res" where
  "ensureWritableBytes len b =
     bindR (if writableBytes b < len then makeSpace len b else Inr b)
       (\<lambda>b'. asserting (len \<le> writableBytes b') (Inr b'))"

definition hasWritten :: "nat \<Rightarrow> net_buffer \<Rightarrow> net_buffer res" where
  "hasWritten len b =
     asserting (len \<le> writableBytes b)
       (Inr (b\<lparr>writerIndex := sz_add (writerIndex b) len\<rparr>))"

definition unwrite :: "nat \<Rightarrow> net_buffer \<Rightarrow> net_buffer res" where
  "unwrite len b =
     asserting (len \<le> readableBytes b)
       (Inr (b\<lparr>writerIndex := sz_sub (writerIndex b) len\<rparr>))"

text \<open>
  \<open>append(const char* data, size_t len)\<close>: \<open>data\<close> is the object the pointer points into, from the
  pointer on; copying more bytes than it has is undefined.
\<close>

definition append_mem :: "byte list \<Rightarrow> nat \<Rightarrow> net_buffer \<Rightarrow> net_buffer res" where
  "append_mem data len b =
     bindR (ensureWritableBytes len b) (\<lambda>b'.
       if length data < len then Inl Undefined
       else hasWritten len
              (b'\<lparr>buf_mem := write_at (beginWrite b') (take len data) (buf_mem b')\<rparr>))"

definition append_piece :: "string_piece \<Rightarrow> net_buffer \<Rightarrow> net_buffer res" where
  "append_piece str b = append_mem (sp_mem str) (int_to_size (sp_length str)) b"

definition append_bytes :: "byte list \<Rightarrow> net_buffer \<Rightarrow> net_buffer res" where
  "append_bytes data b = append_mem data (length data) b"

definition appendInt64 :: "64 word \<Rightarrow> net_buffer \<Rightarrow> net_buffer res" where
  "appendInt64 x b = append_mem (mem_bytes (hostToNetwork64 x)) 8 b"

definition appendInt32 :: "32 word \<Rightarrow> net_buffer \<Rightarrow> net_buffer res" where
  "appendInt32 x b = append_mem (mem_bytes (hostToNetwork32 x)) 4 b"

definition appendInt16 :: "16 word \<Rightarrow> net_buffer \<Rightarrow> net_buffer res" where
  "appendInt16 x b = append_mem (mem_bytes (hostToNetwork16 x)) 2 b"

definition appendInt8 :: "8 word \<Rightarrow> net_buffer \<Rightarrow> net_buffer res" where
  "appendInt8 x b = append_mem (mem_bytes x) 1 b"

subsection \<open>Reading integers\<close>

definition peekInt64 :: "net_buffer \<Rightarrow> 64 word res" where
  "peekInt64 b =
     asserting (8 \<le> readableBytes b)
       (Inr (networkToHost64 (of_mem_bytes (slice_of (peek b) (peek b + 8) (buf_mem b)))))"

definition peekInt32 :: "net_buffer \<Rightarrow> 32 word res" where
  "peekInt32 b =
     asserting (4 \<le> readableBytes b)
       (Inr (networkToHost32 (of_mem_bytes (slice_of (peek b) (peek b + 4) (buf_mem b)))))"

definition peekInt16 :: "net_buffer \<Rightarrow> 16 word res" where
  "peekInt16 b =
     asserting (2 \<le> readableBytes b)
       (Inr (networkToHost16 (of_mem_bytes (slice_of (peek b) (peek b + 2) (buf_mem b)))))"

definition peekInt8 :: "net_buffer \<Rightarrow> 8 word res" where
  "peekInt8 b = asserting (1 \<le> readableBytes b) (Inr (buf_mem b ! peek b))"

definition readInt64 :: "net_buffer \<Rightarrow> (64 word \<times> net_buffer) res" where
  "readInt64 b =
     bindR (peekInt64 b) (\<lambda>result. bindR (retrieveInt64 b) (\<lambda>b'. Inr (result, b')))"

definition readInt32 :: "net_buffer \<Rightarrow> (32 word \<times> net_buffer) res" where
  "readInt32 b =
     bindR (peekInt32 b) (\<lambda>result. bindR (retrieveInt32 b) (\<lambda>b'. Inr (result, b')))"

definition readInt16 :: "net_buffer \<Rightarrow> (16 word \<times> net_buffer) res" where
  "readInt16 b =
     bindR (peekInt16 b) (\<lambda>result. bindR (retrieveInt16 b) (\<lambda>b'. Inr (result, b')))"

definition readInt8 :: "net_buffer \<Rightarrow> (8 word \<times> net_buffer) res" where
  "readInt8 b =
     bindR (peekInt8 b) (\<lambda>result. bindR (retrieveInt8 b) (\<lambda>b'. Inr (result, b')))"

subsection \<open>Prepending\<close>

definition prepend :: "byte list \<Rightarrow> nat \<Rightarrow> net_buffer \<Rightarrow> net_buffer res" where
  "prepend data len b =
     asserting (len \<le> prependableBytes b)
       (let r = sz_sub (readerIndex b) len in
        if length data < len then Inl Undefined
        else Inr (b\<lparr>buf_mem := write_at r (take len data) (buf_mem b), readerIndex := r\<rparr>))"

definition prependInt64 :: "64 word \<Rightarrow> net_buffer \<Rightarrow> net_buffer res" where
  "prependInt64 x b = prepend (mem_bytes (hostToNetwork64 x)) 8 b"

definition prependInt32 :: "32 word \<Rightarrow> net_buffer \<Rightarrow> net_buffer res" where
  "prependInt32 x b = prepend (mem_bytes (hostToNetwork32 x)) 4 b"

definition prependInt16 :: "16 word \<Rightarrow> net_buffer \<Rightarrow> net_buffer res" where
  "prependInt16 x b = prepend (mem_bytes (hostToNetwork16 x)) 2 b"

definition prependInt8 :: "8 word \<Rightarrow> net_buffer \<Rightarrow> net_buffer res" where
  "prependInt8 x b = prepend (mem_bytes x) 1 b"

subsection \<open>Shrinking and reading from a file descriptor\<close>

definition shrink :: "nat \<Rightarrow> net_buffer \<Rightarrow> net_buffer res" where
  "shrink reserve b =
     bindR (new_buffer kInitialSize) (\<lambda>other.
     bindR (ensureWritableBytes (sz_add (readableBytes b) reserve) other) (\<lambda>other.
     bindR (append_piece (toStringPiece b) other) (\<lambda>other.
     Inr (fst (swap_buffer b other)))))"

text \<open>
  \<open>readFd\<close> calls \<open>readv(2)\<close> with the writable part of the vector and a stack buffer of 65536
  bytes.  The system call is the parameter \<open>readv\<close>: given the lengths of the areas it returns an
  \<open>errno\<close> or the bytes it stored, which fill the areas in order.
\<close>

type_synonym readv_call = "nat list \<Rightarrow> int + byte list"

definition extrabuf_size :: nat where
  "extrabuf_size = 65536"

definition readFd_areas :: "net_buffer \<Rightarrow> nat list" where
  "readFd_areas b =
     (let writable = writableBytes b in
      if writable < extrabuf_size then [writable, extrabuf_size] else [writable])"

definition readFd :: "readv_call \<Rightarrow> net_buffer \<Rightarrow> (int \<times> int option \<times> net_buffer) res" where
  "readFd readv b =
     (let writable = writableBytes b in
      case readv (readFd_areas b) of
        Inl err \<Rightarrow> Inr (-1, Some err, b)
      | Inr data \<Rightarrow>
          let n = length data;
              b1 = b\<lparr>buf_mem := write_at (beginWrite b) (take writable data) (buf_mem b)\<rparr> in
          if n \<le> writable
          then Inr (int n, None, b1\<lparr>writerIndex := sz_add (writerIndex b1) n\<rparr>)
          else
            bindR (append_mem (drop writable data) (n - writable)
                     (b1\<lparr>writerIndex := length (buf_mem b1)\<rparr>))
              (\<lambda>b2. Inr (int n, None, b2)))"

subsection \<open>Well-formed buffers and their content\<close>

definition buf_ok :: "net_buffer \<Rightarrow> bool" where
  "buf_ok b \<longleftrightarrow>
     readerIndex b \<le> writerIndex b \<and> writerIndex b \<le> length (buf_mem b) \<and>
     kCheapPrepend \<le> length (buf_mem b) \<and> length (buf_mem b) \<le> max_size"

definition readable :: "net_buffer \<Rightarrow> byte list" where
  "readable b = slice_of (readerIndex b) (writerIndex b) (buf_mem b)"

lemma buf_ok_sizes:
  assumes "buf_ok b"
  shows "readableBytes b = length (readable b)"
    and "readableBytes b = writerIndex b - readerIndex b"
    and "writableBytes b = length (buf_mem b) - writerIndex b"
    and "length (readable b) = writerIndex b - readerIndex b"
  using assms
  by (auto simp: buf_ok_def readable_def readableBytes_def writableBytes_def sz_simps
      max_size_def)

lemmas buffer_unfold = buf_ok_def readable_def peek_def beginWrite_def kCheapPrepend_def
  prependableBytes_def

subsection \<open>What the operations do to the content\<close>

lemma new_buffer_ok:
  assumes "kCheapPrepend + initialSize \<le> max_size"
  obtains b where "new_buffer initialSize = Inr b" and "buf_ok b" and "readable b = []"
    and "readerIndex b = kCheapPrepend" and "writableBytes b = initialSize"
proof -
  let ?b = "\<lparr>buf_mem = replicate (kCheapPrepend + initialSize) 0, readerIndex = kCheapPrepend,
              writerIndex = kCheapPrepend\<rparr>"
  have ok: "buf_ok ?b"
    using assms by (simp add: buffer_unfold)
  then have "writableBytes ?b = initialSize" and "readableBytes ?b = 0"
    by (simp_all add: buf_ok_sizes)
  moreover have "sz_add kCheapPrepend initialSize = kCheapPrepend + initialSize"
    using assms by (simp add: sz_add_exact max_size_def)
  ultimately have "new_buffer initialSize = Inr ?b"
    using assms by (simp add: new_buffer_def Let_def prependableBytes_def)
  with ok that [of ?b] show thesis
    using \<open>writableBytes ?b = initialSize\<close> by (simp add: readable_def)
qed

lemma retrieveAll_ok: "buf_ok b \<Longrightarrow> buf_ok (retrieveAll b) \<and> readable (retrieveAll b) = []"
  by (simp add: retrieveAll_def buffer_unfold)

lemma retrieve_ok:
  assumes "buf_ok b" and "len \<le> length (readable b)"
  obtains b' where "retrieve len b = Inr b'" and "buf_ok b'"
    and "readable b' = drop len (readable b)"
proof (cases "len < length (readable b)")
  case True
  let ?b = "b\<lparr>readerIndex := readerIndex b + len\<rparr>"
  have len: "len < writerIndex b - readerIndex b"
    using True assms by (simp add: buf_ok_sizes)
  then have "sz_add (readerIndex b) len = readerIndex b + len"
    using assms by (intro sz_add_exact) (auto simp: buf_ok_def max_size_def)
  then have "retrieve len b = Inr ?b"
    using True assms(1) by (simp add: retrieve_def buf_ok_sizes(1))
  moreover have "buf_ok ?b"
    using len assms by (simp add: buffer_unfold)
  moreover have "readable ?b = drop len (readable b)"
    by (simp add: readable_def drop_slice_of)
  ultimately show thesis by (rule that)
next
  case False
  with assms have "len = readableBytes b"
    by (simp add: buf_ok_sizes(1))
  then have "retrieve len b = Inr (retrieveAll b)"
    by (simp add: retrieve_def)
  then show thesis
    using that [of "retrieveAll b"] retrieveAll_ok [OF assms(1)] False by simp
qed

lemma retrieve_assert:
  "buf_ok b \<Longrightarrow> length (readable b) < len \<Longrightarrow> retrieve len b = Inl Assertion"
  by (simp add: retrieve_def buf_ok_sizes(1))

lemma retrieve_keeps_ok:
  assumes "buf_ok b" and "retrieve len b = Inr b'"
  shows "buf_ok b'"
proof (cases "len \<le> length (readable b)")
  case True
  then obtain b1 where "retrieve len b = Inr b1" and "buf_ok b1"
    using retrieve_ok [OF assms(1)] by blast
  with assms(2) show ?thesis by simp
next
  case False
  with assms retrieve_assert [OF assms(1)] show ?thesis by simp
qed

lemma retrieveUntil_ok:
  assumes "buf_ok b" and "readerIndex b \<le> end_ptr" and "end_ptr \<le> writerIndex b"
  obtains b' where "retrieveUntil end_ptr b = Inr b'" and "buf_ok b'"
    and "readable b' = drop (end_ptr - readerIndex b) (readable b)"
proof -
  have "end_ptr - readerIndex b \<le> length (readable b)"
    using assms by (simp add: buf_ok_sizes)
  then obtain b' where b': "retrieve (end_ptr - readerIndex b) b = Inr b'" "buf_ok b'"
      "readable b' = drop (end_ptr - readerIndex b) (readable b)"
    using retrieve_ok [OF assms(1)] by blast
  then have "retrieveUntil end_ptr b = Inr b'"
    using assms by (simp add: retrieveUntil_def peek_def beginWrite_def)
  with b'(2,3) show thesis by (intro that)
qed

lemma retrieveAsString_ok:
  assumes "buf_ok b" and "len \<le> length (readable b)"
  obtains b' where "retrieveAsString len b = Inr (take len (readable b), b')" and "buf_ok b'"
    and "readable b' = drop len (readable b)"
proof -
  have "len \<le> writerIndex b - readerIndex b"
    using assms by (simp add: buf_ok_sizes)
  then have "take len (readable b) = slice_of (readerIndex b) (readerIndex b + len) (buf_mem b)"
    by (simp add: readable_def take_slice_of)
  moreover obtain b' where b': "retrieve len b = Inr b'" "buf_ok b'"
      "readable b' = drop len (readable b)"
    using retrieve_ok [OF assms] .
  ultimately have "retrieveAsString len b = Inr (take len (readable b), b')"
    using assms by (simp add: retrieveAsString_def buf_ok_sizes(1) peek_def)
  with b'(2,3) show thesis by (intro that)
qed

lemma retrieveAllAsString_ok:
  assumes "buf_ok b"
  obtains b' where "retrieveAllAsString b = Inr (readable b, b')" and "buf_ok b'"
    and "readable b' = []"
proof -
  obtain b' where "retrieveAsString (length (readable b)) b = Inr (readable b, b')"
      and "buf_ok b'" and "readable b' = []"
    using retrieveAsString_ok [OF assms, of "length (readable b)"] by auto
  then show thesis
    using that assms by (simp add: retrieveAllAsString_def buf_ok_sizes(1))
qed

lemma makeSpace_cases:
  assumes "buf_ok b" and "len \<le> max_size" and "writableBytes b < len"
  shows "(\<exists>b'. makeSpace len b = Inr b' \<and> buf_ok b' \<and> readable b' = readable b \<and>
            len \<le> writableBytes b') \<or>
         makeSpace len b = Inl LengthError \<and> max_size < writerIndex b + len"
proof -
  have bounds: "readerIndex b \<le> writerIndex b" "writerIndex b \<le> length (buf_mem b)"
      "8 \<le> length (buf_mem b)" "length (buf_mem b) < 2 ^ 63" "len < 2 ^ 63"
    using assms by (auto simp: buffer_unfold max_size_def)
  have w: "writableBytes b = length (buf_mem b) - writerIndex b"
    using assms by (simp add: buf_ok_sizes)
  then have "writableBytes b + readerIndex b < 2 ^ 64" "len + 8 < 2 ^ 64"
      "writerIndex b + len < 2 ^ 64"
    using bounds by simp_all
  then have sums: "sz_add (writableBytes b) (readerIndex b) = writableBytes b + readerIndex b"
      "sz_add len 8 = len + 8" "sz_add (writerIndex b) len = writerIndex b + len"
    by (simp_all add: sz_add_exact )
  show ?thesis
  proof (cases "writableBytes b + readerIndex b < len + 8")
    case True
    let ?b = "b\<lparr>buf_mem := buf_mem b @ replicate (writerIndex b + len - length (buf_mem b)) 0\<rparr>"
    have grow: "length (buf_mem b) \<le> writerIndex b + len"
      using bounds assms(3) w by simp
    show ?thesis
    proof (cases "max_size < writerIndex b + len")
      case False
      then have "makeSpace len b = Inr ?b"
        using True grow by (simp add: makeSpace_def sums vector_resize_def buffer_unfold)
      moreover have ok: "buf_ok ?b"
        using False bounds grow by (simp add: buffer_unfold max_size_def)
      moreover have "readable ?b = readable b"
        using bounds by (simp add: readable_def slice_of_append_left)
      moreover have "len \<le> writableBytes ?b"
        using ok grow bounds by (simp add: buf_ok_sizes)
      ultimately show ?thesis by blast
    qed (use True in \<open>simp add: makeSpace_def sums vector_resize_def buffer_unfold\<close>)
  next
    case False
    let ?mem = "write_at 8 (readable b) (buf_mem b)"
    let ?n = "writerIndex b - readerIndex b"
    let ?b = "b\<lparr>buf_mem := ?mem, readerIndex := 8, writerIndex := 8 + ?n\<rparr>"
    have r: "8 < readerIndex b"
      using False assms(3) w by simp
    have len_mem: "length ?mem = length (buf_mem b)"
      using r bounds assms by (simp add: buf_ok_sizes)
    have "8 + ?n \<le> length (buf_mem b)"
      using r bounds by linarith
    then have ok: "buf_ok ?b"
      using r bounds len_mem by (simp add: buffer_unfold max_size_def)
    have content: "readable ?b = readable b"
      using slice_of_write_at_append [of 8 8 "readable b" "buf_mem b"] r bounds assms(1)
      by (simp add: readable_def buf_ok_sizes)
    have "sz_add 8 ?n = 8 + ?n"
      using bounds by (intro sz_add_exact) simp
    then have "makeSpace len b = Inr ?b"
      using False r ok content assms(1)
      by (simp add: makeSpace_def sums kCheapPrepend_def prependableBytes_def Let_def
          buf_ok_sizes(2) readable_def [symmetric])
    moreover have "len \<le> writableBytes ?b"
      using ok False r bounds w len_mem by (simp add: buf_ok_sizes)
    ultimately show ?thesis
      using ok content by blast
  qed
qed

lemma ensureWritableBytes_cases:
  assumes "buf_ok b" and "len \<le> max_size"
  shows "(\<exists>b'. ensureWritableBytes len b = Inr b' \<and> buf_ok b' \<and> readable b' = readable b \<and>
            len \<le> writableBytes b') \<or>
         ensureWritableBytes len b = Inl LengthError \<and> max_size < writerIndex b + len"
proof (cases "writableBytes b < len")
  case True
  from makeSpace_cases [OF assms True] True show ?thesis
    by (auto simp: ensureWritableBytes_def)
next
  case False
  with assms show ?thesis by (simp add: ensureWritableBytes_def)
qed

lemma hasWritten_readable:
  assumes "buf_ok b" and "length xs \<le> writableBytes b"
  defines "b1 \<equiv> b\<lparr>buf_mem := write_at (writerIndex b) xs (buf_mem b)\<rparr>"
  obtains b' where "hasWritten (length xs) b1 = Inr b'" and "buf_ok b'"
    and "readable b' = readable b @ xs"
proof -
  have fits: "writerIndex b + length xs \<le> length (buf_mem b)"
    using assms(1,2) by (auto simp: buf_ok_sizes(3) buf_ok_def)
  then have len: "length (write_at (writerIndex b) xs (buf_mem b)) = length (buf_mem b)"
    by simp
  let ?b = "b1\<lparr>writerIndex := writerIndex b + length xs\<rparr>"
  have ok1: "buf_ok b1" and "buf_ok ?b"
    using assms(1) fits len by (auto simp: b1_def buf_ok_def)
  moreover have "readable ?b = readable b @ xs"
    using slice_of_write_at_append fits assms(1) by (auto simp: b1_def readable_def buf_ok_def)
  moreover have "sz_add (writerIndex b) (length xs) = writerIndex b + length xs"
    using fits assms(1) by (intro sz_add_exact) (auto simp: buf_ok_def max_size_def)
  then have "hasWritten (length xs) b1 = Inr ?b"
    using assms(2) ok1 len assms(1) by (simp add: hasWritten_def buf_ok_sizes(3) b1_def)
  ultimately show thesis by (intro that)
qed

lemma append_mem_cases:
  assumes "buf_ok b" and "len \<le> length data" and "len \<le> max_size"
  shows "(\<exists>b'. append_mem data len b = Inr b' \<and> buf_ok b' \<and>
            readable b' = readable b @ take len data) \<or>
         append_mem data len b = Inl LengthError \<and> max_size < writerIndex b + len"
proof (cases "ensureWritableBytes len b")
  case (Inl e)
  with ensureWritableBytes_cases [OF assms(1,3)] show ?thesis
    by (auto simp: append_mem_def)
next
  case (Inr b1)
  with ensureWritableBytes_cases [OF assms(1,3)] have b1: "buf_ok b1"
      "readable b1 = readable b" "length (take len data) \<le> writableBytes b1"
    using assms(2) by auto
  obtain b' where "hasWritten (length (take len data))
        (b1\<lparr>buf_mem := write_at (writerIndex b1) (take len data) (buf_mem b1)\<rparr>) = Inr b'"
      and "buf_ok b'" and "readable b' = readable b1 @ take len data"
    using hasWritten_readable [OF b1(1,3)] .
  with Inr b1(2) assms(2) show ?thesis
    by (auto simp: append_mem_def beginWrite_def)
qed

lemma append_mem_ok:
  assumes "buf_ok b" and "len \<le> length data" and "writerIndex b + len \<le> max_size"
  obtains b' where "append_mem data len b = Inr b'" and "buf_ok b'"
    and "readable b' = readable b @ take len data"
  using append_mem_cases [OF assms(1,2)] assms(3) that by auto

lemma append_mem_content:
  assumes "buf_ok b" and "len \<le> length data" and "len \<le> max_size"
    and "append_mem data len b = Inr b'"
  shows "buf_ok b'" and "readable b' = readable b @ take len data"
  using append_mem_cases [OF assms(1-3)] assms(4) by auto

lemma unwrite_ok:
  assumes "buf_ok b" and "len \<le> length (readable b)"
  obtains b' where "unwrite len b = Inr b'" and "buf_ok b'"
    and "readable b' = take (length (readable b) - len) (readable b)"
proof -
  let ?b = "b\<lparr>writerIndex := writerIndex b - len\<rparr>"
  let ?k = "writerIndex b - readerIndex b - len"
  have len: "len \<le> writerIndex b - readerIndex b" and rw: "readerIndex b \<le> writerIndex b"
    using assms by (simp_all add: buf_ok_sizes buf_ok_def)
  then have "readerIndex b + ?k = writerIndex b - len"
    by linarith
  then have "readable ?b = take (length (readable b) - len) (readable b)"
    using take_slice_of [of ?k "writerIndex b" "readerIndex b" "buf_mem b"] assms(1)
    by (simp add: buf_ok_sizes(4)) (simp add: readable_def)
  moreover have "buf_ok ?b"
    using len assms by (auto simp: buf_ok_def)
  moreover have "sz_sub (writerIndex b) len = writerIndex b - len"
    using len assms(1) by (intro sz_sub_exact) (auto simp: buf_ok_def max_size_def)
  then have "unwrite len b = Inr ?b"
    using assms by (simp add: unwrite_def buf_ok_sizes(1))
  ultimately show thesis by (intro that)
qed

lemma prepend_ok:
  assumes "buf_ok b" and "length xs \<le> readerIndex b"
  obtains b' where "prepend xs (length xs) b = Inr b'" and "buf_ok b'"
    and "readable b' = xs @ readable b"
proof -
  let ?r = "readerIndex b - length xs"
  let ?b = "b\<lparr>buf_mem := write_at ?r xs (buf_mem b), readerIndex := ?r\<rparr>"
  have fits: "?r + length xs \<le> writerIndex b" "writerIndex b \<le> length (buf_mem b)"
      "?r + length xs = readerIndex b"
    using assms by (auto simp: buf_ok_def)
  then have "readable ?b = xs @ readable b"
    using slice_of_write_at_prepend [OF fits(1,2)] by (simp add: readable_def)
  moreover have "buf_ok ?b"
    using assms fits by (auto simp: buf_ok_def)
  moreover have "sz_sub (readerIndex b) (length xs) = ?r"
    using assms by (intro sz_sub_exact) (auto simp: buf_ok_def max_size_def)
  then have "prepend xs (length xs) b = Inr ?b"
    using assms by (simp add: prepend_def prependableBytes_def Let_def)
  ultimately show thesis by (intro that)
qed

subsection \<open>Integers on the wire\<close>

lemma peek_slice:
  assumes "buf_ok b" and "n \<le> length (readable b)"
  shows "slice_of (peek b) (peek b + n) (buf_mem b) = take n (readable b)"
proof -
  have "n \<le> writerIndex b - readerIndex b"
    using assms by (simp add: buf_ok_sizes)
  then show ?thesis
    by (simp add: readable_def peek_def take_slice_of)
qed

lemma appendInt_eq:
  "appendInt64 x = append_bytes (be_bytes x)" "appendInt32 y = append_bytes (be_bytes y)"
  "appendInt16 z = append_bytes (be_bytes z)" "appendInt8 v = append_bytes (be_bytes v)"
  by (simp_all add: fun_eq_iff appendInt64_def appendInt32_def appendInt16_def appendInt8_def
      append_bytes_def endian_defs mem_bytes_byte_swap)
    (simp add: be_bytes_def mem_bytes_def)

lemma prependInt_eq:
  "prependInt64 x = prepend (be_bytes x) 8" "prependInt32 y = prepend (be_bytes y) 4"
  "prependInt16 z = prepend (be_bytes z) 2" "prependInt8 v = prepend (be_bytes v) 1"
  by (simp_all add: fun_eq_iff prependInt64_def prependInt32_def prependInt16_def
      prependInt8_def endian_defs mem_bytes_byte_swap)
    (simp add: be_bytes_def mem_bytes_def)

lemma append_bytes_ok:
  assumes "buf_ok b" and "writerIndex b + length xs \<le> max_size"
  obtains b' where "append_bytes xs b = Inr b'" and "buf_ok b'" and "readable b' = readable b @ xs"
  using append_mem_ok [OF assms(1) order_refl assms(2)] that by (auto simp: append_bytes_def)

lemma append_bytes_content:
  assumes "buf_ok b" and "length xs \<le> max_size" and "append_bytes xs b = Inr b'"
  shows "buf_ok b'" and "readable b' = readable b @ xs"
  using append_mem_content [OF assms(1) order_refl assms(2)] assms(3)
  by (auto simp: append_bytes_def)

lemma peekInt64_eq:
  "buf_ok b \<Longrightarrow> peekInt64 b =
     (if 8 \<le> length (readable b) then Inr (of_be_bytes (take 8 (readable b))) else Inl Assertion)"
  by (simp add: peekInt64_def buf_ok_sizes(1) peek_slice endian_defs byte_swap_of_mem_bytes)

lemma peekInt32_eq:
  "buf_ok b \<Longrightarrow> peekInt32 b =
     (if 4 \<le> length (readable b) then Inr (of_be_bytes (take 4 (readable b))) else Inl Assertion)"
  by (simp add: peekInt32_def buf_ok_sizes(1) peek_slice endian_defs byte_swap_of_mem_bytes)

lemma peekInt16_eq:
  "buf_ok b \<Longrightarrow> peekInt16 b =
     (if 2 \<le> length (readable b) then Inr (of_be_bytes (take 2 (readable b))) else Inl Assertion)"
  using peek_slice [of b 2]
  by (simp add: peekInt16_def buf_ok_sizes(1) endian_defs byte_swap_of_mem_bytes)

lemma peekInt8_eq:
  "buf_ok b \<Longrightarrow> peekInt8 b =
     (if 1 \<le> length (readable b) then Inr (hd (readable b)) else Inl Assertion)"
  by (auto simp: peekInt8_def buf_ok_sizes(1) peek_def readable_def slice_of_def hd_drop_conv_nth
      hd_take buf_ok_def)

lemma readInt64_ok:
  assumes "buf_ok b" and "readable b = be_bytes x @ rest"
  obtains b' where "readInt64 b = Inr (x, b')" and "buf_ok b'" and "readable b' = rest"
proof -
  have "8 \<le> length (readable b)"
    using assms by simp
  then obtain b' where "retrieve 8 b = Inr b'" "buf_ok b'" "readable b' = drop 8 (readable b)"
    using retrieve_ok [OF assms(1)] by blast
  with assms that show thesis
    by (simp add: readInt64_def peekInt64_eq retrieveInt64_def)
qed

lemma readInt32_ok:
  assumes "buf_ok b" and "readable b = be_bytes x @ rest"
  obtains b' where "readInt32 b = Inr (x, b')" and "buf_ok b'" and "readable b' = rest"
proof -
  have "4 \<le> length (readable b)"
    using assms by simp
  then obtain b' where "retrieve 4 b = Inr b'" "buf_ok b'" "readable b' = drop 4 (readable b)"
    using retrieve_ok [OF assms(1)] by blast
  with assms that show thesis
    by (simp add: readInt32_def peekInt32_eq retrieveInt32_def)
qed

lemma readInt16_ok:
  assumes "buf_ok b" and "readable b = be_bytes x @ rest"
  obtains b' where "readInt16 b = Inr (x, b')" and "buf_ok b'" and "readable b' = rest"
proof -
  have "2 \<le> length (readable b)"
    using assms by simp
  then obtain b' where "retrieve 2 b = Inr b'" "buf_ok b'" "readable b' = drop 2 (readable b)"
    using retrieve_ok [OF assms(1)] by blast
  with assms that show thesis
    by (simp add: readInt16_def peekInt16_eq retrieveInt16_def)
qed

lemma readInt8_ok:
  assumes "buf_ok b" and "readable b = x # rest"
  obtains b' where "readInt8 b = Inr (x, b')" and "buf_ok b'" and "readable b' = rest"
proof -
  have "1 \<le> length (readable b)"
    using assms by simp
  then obtain b' where "retrieve 1 b = Inr b'" "buf_ok b'" "readable b' = drop 1 (readable b)"
    using retrieve_ok [OF assms(1)] by blast
  with assms that show thesis
    by (simp add: readInt8_def peekInt8_eq retrieveInt8_def)
qed

subsection \<open>Searching\<close>

lemma std_search_le: "std_search pat xs \<le> length xs"
  by (induction xs) auto

lemma std_search_found:
  "pat \<noteq> [] \<Longrightarrow> std_search pat xs < length xs \<Longrightarrow>
     take (length pat) (drop (std_search pat xs) xs) = pat"
  by (induction xs) (auto split: if_splits)

lemma std_search_first:
  "pat \<noteq> [] \<Longrightarrow> i < std_search pat xs \<Longrightarrow> take (length pat) (drop i xs) \<noteq> pat"
proof (induction xs arbitrary: i)
  case (Cons x xs)
  then show ?case by (cases i) (auto split: if_splits)
qed simp

lemma std_memchr_Some:
  "std_memchr xs c = Some i \<Longrightarrow> i < length xs \<and> xs ! i = c \<and> c \<notin> set (take i xs)"
  by (induction xs arbitrary: i) (auto split: if_splits)

lemma std_memchr_None: "std_memchr xs c = None \<longleftrightarrow> c \<notin> set xs"
  by (induction xs) auto

lemma findCRLF_eq:
  assumes "buf_ok b"
  shows "findCRLF b =
    (if std_search kCRLF (readable b) = length (readable b) then None
     else Some (readerIndex b + std_search kCRLF (readable b)))"
proof -
  have "writerIndex b = readerIndex b + length (readable b)"
    using assms by (simp add: buf_ok_sizes(4)) (simp add: buf_ok_def)
  then have "readerIndex b + k = writerIndex b \<longleftrightarrow> k = length (readable b)" for k
    by linarith
  then show ?thesis
    unfolding findCRLF_def peek_def beginWrite_def readable_def [symmetric] Let_def by simp
qed

lemma findEOL_eq:
  assumes "buf_ok b"
  shows "findEOL b = map_option (\<lambda>i. readerIndex b + i) (std_memchr (readable b) 10)"
proof -
  have "readerIndex b + readableBytes b = writerIndex b"
    using assms by (simp add: buf_ok_sizes(2)) (simp add: buf_ok_def)
  then show ?thesis
    by (simp add: findEOL_def peek_def readable_def)
qed

subsection \<open>Shrinking and filling\<close>

lemma append_mem_room:
  assumes "buf_ok b" and "len \<le> writableBytes b" and "len \<le> length data"
  shows "append_mem data len b =
    Inr (b\<lparr>buf_mem := write_at (writerIndex b) (take len data) (buf_mem b),
           writerIndex := writerIndex b + len\<rparr>)"
proof -
  let ?b = "b\<lparr>buf_mem := write_at (writerIndex b) (take len data) (buf_mem b)\<rparr>"
  have fits: "writerIndex b + len \<le> length (buf_mem b)"
    using assms by (auto simp: buf_ok_sizes(3) buf_ok_def)
  then have len: "length (buf_mem ?b) = length (buf_mem b)"
    using assms(3) by simp
  have "sz_add (writerIndex b) len = writerIndex b + len"
    using fits assms(1) by (intro sz_add_exact) (auto simp: buf_ok_def max_size_def)
  moreover have "writableBytes ?b = writableBytes b"
    using len by (simp add: writableBytes_def)
  ultimately show ?thesis
    using assms by (simp add: append_mem_def ensureWritableBytes_def hasWritten_def beginWrite_def)
qed

lemma readable_drop: "buf_ok b \<Longrightarrow> readable b = take (length (readable b)) (drop (readerIndex b) (buf_mem b))"
  by (simp add: buf_ok_sizes(4)) (simp add: readable_def slice_of_def)

lemma shrink_ok:
  assumes "buf_ok b" and "length (readable b) < 2 ^ 31"
    and "kCheapPrepend + length (readable b) + reserve \<le> max_size"
  obtains b' where "shrink reserve b = Inr b'" and "buf_ok b'" and "readable b' = readable b"
    and "reserve \<le> writableBytes b'"
proof -
  let ?n = "length (readable b)"
  have n: "sz_add (readableBytes b) reserve = ?n + reserve"
    using assms by (simp add: buf_ok_sizes(1) sz_add_exact max_size_def)
  obtain o1 where o1: "new_buffer kInitialSize = Inr o1" "buf_ok o1" "readable o1 = []"
      "readerIndex o1 = kCheapPrepend"
    using new_buffer_ok [of kInitialSize] by (auto simp: kCheapPrepend_def kInitialSize_def max_size_def)
  then have w1: "writerIndex o1 = kCheapPrepend"
    using buf_ok_sizes(4) [OF o1(2)] by (simp add: buf_ok_def)
  obtain o2 where o2: "ensureWritableBytes (?n + reserve) o1 = Inr o2" "buf_ok o2"
      "readable o2 = []" "?n + reserve \<le> writableBytes o2"
    using ensureWritableBytes_cases [OF o1(2), of "?n + reserve"] assms(3) o1 w1 by auto
  let ?data = "drop (readerIndex b) (buf_mem b)"
  have long: "?n \<le> length ?data" and room: "?n \<le> writableBytes o2"
    using assms(1) o2(4) by (auto simp: buf_ok_sizes(4) buf_ok_def)
  let ?o3 = "o2\<lparr>buf_mem := write_at (writerIndex o2) (take ?n ?data) (buf_mem o2),
                writerIndex := writerIndex o2 + ?n\<rparr>"
  have o3: "append_mem ?data ?n o2 = Inr ?o3"
    using append_mem_room [OF o2(2) room long] .
  then obtain "buf_ok ?o3" and "readable ?o3 = readable b"
    using append_mem_cases [OF o2(2) long] assms(3) o2(3) readable_drop [OF assms(1)] by auto
  moreover have "reserve \<le> writableBytes ?o3"
    using o2 \<open>buf_ok ?o3\<close> long room by (auto simp: buf_ok_sizes(3) write_at_def)
  moreover have "append_piece (toStringPiece b) o2 = Inr ?o3"
    using assms(1,2) o3
    by (simp add: append_piece_def toStringPiece_def piece_of_ptr_def peek_def buf_ok_sizes(1)
        int_to_size_to_int32)
  ultimately show thesis
    using that [of ?o3] o1 o2 n by (simp add: shrink_def swap_buffer_def)
qed

lemma readFd_content:
  assumes ok: "buf_ok b" and data: "readv (readFd_areas b) = Inr data"
    and bound: "length data \<le> sum_list (readFd_areas b)"
    and size: "length (buf_mem b) + extrabuf_size \<le> max_size"
  obtains b' where "readFd readv b = Inr (int (length data), None, b')" and "buf_ok b'"
    and "readable b' = readable b @ data"
proof (cases "length data \<le> writableBytes b")
  case True
  have "append_mem data (length data) b =
      Inr (b\<lparr>buf_mem := write_at (writerIndex b) data (buf_mem b),
             writerIndex := writerIndex b + length data\<rparr>)" (is "_ = Inr ?b")
    using append_mem_room [OF ok True] by simp
  moreover have "length data \<le> max_size"
    using True ok by (auto simp: buf_ok_sizes(3) buf_ok_def)
  ultimately have b': "buf_ok ?b" "readable ?b = readable b @ data"
    using append_mem_cases [OF ok order_refl, of data] by auto
  have "sz_add (writerIndex b) (length data) = writerIndex b + length data"
    using True ok by (intro sz_add_exact) (auto simp: buf_ok_sizes(3) buf_ok_def max_size_def)
  with True data have "readFd readv b = Inr (int (length data), None, ?b)"
    by (simp add: readFd_def Let_def beginWrite_def)
  with b' show thesis by (intro that)
next
  case False
  let ?w = "writableBytes b"
  let ?b1 = "b\<lparr>buf_mem := write_at (writerIndex b) (take ?w data) (buf_mem b)\<rparr>"
  let ?b2 = "?b1\<lparr>writerIndex := length (buf_mem ?b1)\<rparr>"
  have w: "writerIndex b + ?w = length (buf_mem b)"
    using ok by (auto simp: buf_ok_sizes(3) buf_ok_def)
  have "append_mem data ?w b = Inr (b\<lparr>buf_mem := write_at (writerIndex b) (take ?w data) (buf_mem b),
             writerIndex := writerIndex b + ?w\<rparr>)"
    using append_mem_room [OF ok order_refl] False by simp
  also have "b\<lparr>buf_mem := write_at (writerIndex b) (take ?w data) (buf_mem b),
             writerIndex := writerIndex b + ?w\<rparr> = ?b2"
    using w False by simp
  finally have b2: "buf_ok ?b2" "readable ?b2 = readable b @ take ?w data"
    using append_mem_cases [OF ok, of ?w data] False size w by (auto simp: extrabuf_size_def)
  have rest: "length data - ?w \<le> extrabuf_size" 
    using bound False by (auto simp: readFd_areas_def Let_def split: if_splits)
  have len2: "length (buf_mem ?b2) = length (buf_mem b)"
    using w False by simp
  then have "writerIndex ?b2 + (length data - ?w) \<le> max_size"
    using rest size by simp
  then obtain b' where "append_mem (drop ?w data) (length data - ?w) ?b2 = Inr b'" "buf_ok b'"
      "readable b' = readable ?b2 @ drop ?w data"
    using append_mem_ok [OF b2(1), of "length data - ?w" "drop ?w data"] by auto
  with False data b2(2) that show thesis
    by (simp add: readFd_def Let_def beginWrite_def)
qed

text \<open>
  What \<open>readv(2)\<close> promises: it never stores more bytes than the areas hold.
\<close>

definition readv_ok :: "readv_call \<Rightarrow> bool" where
  "readv_ok readv \<longleftrightarrow> (\<forall>areas data. readv areas = Inr data \<longrightarrow> length data \<le> sum_list areas)"

lemma readFd_keeps_ok:
  assumes ok: "buf_ok b" and "readv_ok readv" and result: "readFd readv b = Inr (n, e, b')"
  shows "buf_ok b'"
proof (cases "readv (readFd_areas b)")
  case (Inl err)
  with result ok show ?thesis by (simp add: readFd_def)
next
  case (Inr data)
  let ?w = "writableBytes b"
  let ?b = "b\<lparr>buf_mem := write_at (writerIndex b) (take ?w data) (buf_mem b)\<rparr>"
  have bound: "length data \<le> sum_list (readFd_areas b)"
    using assms(2) Inr by (simp add: readv_ok_def)
  have w: "writerIndex b + ?w = length (buf_mem b)" "length (buf_mem b) \<le> max_size"
    using ok by (auto simp: buf_ok_sizes(3) buf_ok_def)
  show ?thesis
  proof (cases "length data \<le> ?w")
    case True
    have "append_mem data (length data) b =
        Inr (?b\<lparr>writerIndex := writerIndex b + length data\<rparr>)"
      using append_mem_room [OF ok True] True by simp
    then have "buf_ok (?b\<lparr>writerIndex := writerIndex b + length data\<rparr>)"
      using append_mem_cases [OF ok order_refl, of data] True w by auto
    moreover have "sz_add (writerIndex b) (length data) = writerIndex b + length data"
      using True w by (intro sz_add_exact) (simp add: max_size_def)
    ultimately show ?thesis
      using result Inr True by (auto simp: readFd_def Let_def beginWrite_def)
  next
    case False
    let ?b2 = "?b\<lparr>writerIndex := length (buf_mem ?b)\<rparr>"
    have "append_mem data ?w b = Inr ?b2"
      using append_mem_room [OF ok order_refl, of data] False w by simp
    then have b2: "buf_ok ?b2"
      using append_mem_cases [OF ok, of ?w data] False w by auto
    have "length data - ?w \<le> max_size"
      using bound False
      by (auto simp: readFd_areas_def extrabuf_size_def max_size_def Let_def split: if_splits)
    then show ?thesis
      using append_mem_content(1) [OF b2, of "length data - ?w" "drop ?w data"] result Inr False
      by (auto simp: readFd_def Let_def beginWrite_def res_simps)
  qed
qed

subsection \<open>The buffer is a byte queue\<close>

text \<open>
  The load of a buffer is its write index, at least \<open>kCheapPrepend\<close>: what the vector has to hold
  apart from the bytes that are put next.
\<close>

definition buf_load :: "net_buffer \<Rightarrow> nat" where
  "buf_load b = max kCheapPrepend (writerIndex b)"

lemma sz_add_le: "sz_add a b \<le> a + b"
  by (simp add: sz_add_def)

lemma makeSpace_writer:
  assumes "buf_ok b" and "makeSpace len b = Inr b'"
  shows "writerIndex b' \<le> writerIndex b"
  using assms sz_add_le [of kCheapPrepend "readableBytes b"] buf_ok_sizes(2) [OF assms(1)]
  by (auto simp: makeSpace_def res_simps Let_def buf_ok_def split: if_splits)

lemma ensureWritableBytes_size:
  assumes "buf_ok b" and "ensureWritableBytes len b = Inr b'" and "writerIndex b + len \<le> max_size"
  shows "writerIndex b' \<le> writerIndex b" and "length (buf_mem b') \<le> max (length (buf_mem b)) (writerIndex b + len)"
proof -
  have "writerIndex b' \<le> writerIndex b \<and> length (buf_mem b') \<le> max (length (buf_mem b)) (writerIndex b + len)"
  proof (cases "writableBytes b < len")
    case True
    then have space: "makeSpace len b = Inr b'"
      using assms(2) by (auto simp: ensureWritableBytes_def res_simps)
    have "sz_add (writerIndex b) len = writerIndex b + len"
      using assms(3) by (intro sz_add_exact) (simp add: max_size_def)
    then show ?thesis
      using space makeSpace_writer [OF assms(1) space] assms(1) buf_ok_sizes(2) [OF assms(1)]
      by (auto simp: makeSpace_def vector_resize_def res_simps Let_def buf_ok_def write_at_def slice_of_def kCheapPrepend_def
          split: if_splits)
  next
    case False
    then show ?thesis
      using assms(2) by (simp add: ensureWritableBytes_def res_simps)
  qed
  then show "writerIndex b' \<le> writerIndex b" "length (buf_mem b') \<le> max (length (buf_mem b)) (writerIndex b + len)"
    by simp_all
qed

lemma append_mem_writer:
  assumes "buf_ok b" and "append_mem data len b = Inr b'"
  shows "writerIndex b' \<le> writerIndex b + len"
proof -
  obtain b1 where b1: "ensureWritableBytes len b = Inr b1" "writerIndex b' = sz_add (writerIndex b1) len"
    using assms(2) by (auto simp: append_mem_def hasWritten_def res_simps split: if_splits)
  then have "writerIndex b1 \<le> writerIndex b"
    using makeSpace_writer [OF assms(1)]
    by (auto simp: ensureWritableBytes_def res_simps split: if_splits)
  with b1(2) show ?thesis
    using sz_add_le [of "writerIndex b1" len] by simp
qed

lemma retrieveAsString_load:
  "retrieveAsString n b = Inr (out, b') \<Longrightarrow> buf_load b' \<le> buf_load b"
  by (auto simp: retrieveAsString_def retrieve_def retrieveAll_def res_simps Let_def buf_load_def
      split: if_splits)

interpretation bq: byte_queue buf_ok readable buf_load append_bytes retrieveAsString max_size
proof unfold_locales
  fix b and xs :: "byte list"
  assume ok: "buf_ok b" and "buf_load b + length xs \<le> max_size"
  then have fits: "writerIndex b + length xs \<le> max_size"
    by (simp add: buf_load_def)
  obtain b' where b': "append_bytes xs b = Inr b'" "buf_ok b'" "readable b' = readable b @ xs"
    using append_bytes_ok [OF ok fits] .
  moreover have "buf_load b' \<le> buf_load b + length xs"
    using append_mem_writer [OF ok] b'(1) by (fastforce simp: append_bytes_def buf_load_def)
  ultimately show "\<exists>q'. append_bytes xs b = Inr q' \<and> buf_ok q' \<and>
      readable q' = readable b @ xs \<and> buf_load q' \<le> buf_load b + length xs"
    by blast
next
  fix b n
  assume "buf_ok b" and "n \<le> length (readable b)"
  then show "\<exists>q'. retrieveAsString n b = Inr (take n (readable b), q') \<and> buf_ok q' \<and>
      readable q' = drop n (readable b) \<and> buf_load q' \<le> buf_load b"
    using retrieveAsString_ok [of b n] retrieveAsString_load by metis
next
  fix b n
  assume "buf_ok b" and "length (readable b) < n"
  then show "retrieveAsString n b = Inl Assertion"
    by (simp add: retrieveAsString_def buf_ok_sizes(1))
qed

subsection \<open>Properties\<close>

text \<open>C4: Bytes come out of a buffer in the order they went in, none lost, duplicated or altered,
  over any sequence of \<open>append\<close> and \<open>retrieveAsString\<close> calls that never asks for more than is
  there, whatever growing and moving of the storage happens in between; a sequence that does ask
  for more stops at the assertion of \<open>retrieveAsString\<close>.\<close>

theorem buffer_fifo:
  assumes "buf_ok b" and "buf_load b + length (bytes_in ops) \<le> max_size"
  shows "if gets_covered (length (readable b)) ops
    then \<exists>out b'. run_queue append_bytes retrieveAsString ops b = Inr (out, b') \<and> buf_ok b' \<and>
           out @ readable b' = readable b @ bytes_in ops
    else run_queue append_bytes retrieveAsString ops b = Inl Assertion"
  using bq.fifo [OF assms] bq.overdraw [OF assms] by simp

definition sample_buffer :: net_buffer where
  "sample_buffer = \<lparr>buf_mem = replicate 12 0, readerIndex = 8, writerIndex = 8\<rparr>"

lemma sample_facts [simp]:
  "buf_ok sample_buffer" "buf_load sample_buffer = 8" "readable sample_buffer = []"
  "8 \<le> max_size"
  by (simp_all add: sample_buffer_def buf_ok_def buf_load_def readable_def kCheapPrepend_def
      max_size_def)

lemmas sample_eval = sample_buffer_def buf_ok_def buf_load_def readable_def slice_of_def
  kCheapPrepend_def max_size_def

theorem buffer_fifo_witness:
  "\<exists>out b'. run_queue append_bytes retrieveAsString
      [Put [1, 2, 3], Get 2, Put [4, 5, 6], Get 3] sample_buffer = Inr (out, b') \<and> buf_ok b' \<and>
      out @ readable b' = [1, 2, 3, 4, 5, 6]"
  using buffer_fifo [of sample_buffer "[Put [1, 2, 3], Get 2, Put [4, 5, 6], Get 3]"]
  by (simp add: sample_eval)

text \<open>\<open>findCRLF\<close> returns the first position of a CR LF pair among the readable bytes, inside
  the readable range, and \<open>NULL\<close> exactly when there is none.\<close>

theorem findCRLF_first:
  assumes "buf_ok b"
  shows "case findCRLF b of
      None \<Rightarrow> \<forall>i. take 2 (drop i (readable b)) \<noteq> kCRLF
    | Some p \<Rightarrow> readerIndex b \<le> p \<and> p + 2 \<le> writerIndex b \<and>
        slice_of p (p + 2) (buf_mem b) = kCRLF \<and>
        (\<forall>i < p - readerIndex b. take 2 (drop i (readable b)) \<noteq> kCRLF)"
proof -
  let ?k = "std_search kCRLF (readable b)"
  have pat: "kCRLF \<noteq> []" "length kCRLF = 2"
    by (simp_all add: kCRLF_def)
  have first: "take 2 (drop i (readable b)) \<noteq> kCRLF" if "i < ?k" for i
    using std_search_first [OF pat(1) that] pat(2) by simp
  show ?thesis
  proof (cases "?k = length (readable b)")
    case True
    have "take 2 (drop i (readable b)) \<noteq> kCRLF" for i
      using first [of i] True pat by (cases "i < ?k") auto
    with True show ?thesis
      by (simp add: findCRLF_eq [OF assms])
  next
    case False
    then have "?k < length (readable b)"
      using std_search_le [of kCRLF "readable b"] by simp
    then have found: "take 2 (drop ?k (readable b)) = kCRLF"
      using std_search_found [OF pat(1)] pat(2) by simp
    then have "length (take 2 (drop ?k (readable b))) = 2"
      using pat(2) by simp
    then have fits: "?k + 2 \<le> writerIndex b - readerIndex b"
      using assms by (simp add: buf_ok_sizes(4))
    have "slice_of (readerIndex b + ?k) (readerIndex b + ?k + 2) (buf_mem b) =
        take 2 (drop ?k (readable b))"
      using fits unfolding readable_def drop_slice_of by (subst take_slice_of) simp_all
    with False found fits first assms show ?thesis
      by (auto simp: findCRLF_eq buf_ok_def)
  qed
qed

theorem findCRLF_first_witness:
  "findCRLF (sample_buffer\<lparr>buf_mem := replicate 8 0 @ [65, 13, 10, 13], writerIndex := 12\<rparr>)
     = Some 9 \<and> buf_ok (sample_buffer\<lparr>buf_mem := replicate 8 0 @ [65, 13, 10, 13], writerIndex := 12\<rparr>)"
  using findCRLF_first [of "sample_buffer\<lparr>buf_mem := replicate 8 0 @ [65, 13, 10, 13],
      writerIndex := 12\<rparr>"]
  by (simp add: sample_eval findCRLF_def peek_def beginWrite_def kCRLF_def)

text \<open>C13: Integers of all four widths that are appended are on the wire in network byte order and
  are read back unchanged, leaving the buffer empty.\<close>

theorem integers_roundtrip:
  assumes "buf_ok b" and "readable b = []" and "buf_load b + 15 \<le> max_size"
  shows "\<exists>b' r1 r2 r3 r4.
     bindR (appendInt64 x b) (\<lambda>b. bindR (appendInt32 y b) (\<lambda>b.
       bindR (appendInt16 z b) (appendInt8 v))) = Inr b' \<and>
     readable b' = be_bytes x @ be_bytes y @ be_bytes z @ be_bytes v \<and>
     readInt64 b' = Inr (x, r1) \<and> readInt32 r1 = Inr (y, r2) \<and>
     readInt16 r2 = Inr (z, r3) \<and> readInt8 r3 = Inr (v, r4) \<and> buf_ok r4 \<and> readable r4 = []"
proof -
  have v: "be_bytes v = [v]"
    by (simp add: be_bytes_def mem_bytes_def)
  obtain b1 where b1: "append_bytes (be_bytes x) b = Inr b1" "buf_ok b1"
      "readable b1 = be_bytes x" "buf_load b1 \<le> buf_load b + 8"
    using bq.put_law [OF assms(1), of "be_bytes x"] assms(2,3) by auto
  obtain b2 where b2: "append_bytes (be_bytes y) b1 = Inr b2" "buf_ok b2"
      "readable b2 = be_bytes x @ be_bytes y" "buf_load b2 \<le> buf_load b + 12"
    using bq.put_law [OF b1(2), of "be_bytes y"] assms(3) b1(3,4) by auto
  obtain b3 where b3: "append_bytes (be_bytes z) b2 = Inr b3" "buf_ok b3"
      "readable b3 = be_bytes x @ be_bytes y @ be_bytes z" "buf_load b3 \<le> buf_load b + 14"
    using bq.put_law [OF b2(2), of "be_bytes z"] assms(3) b2(3,4) by auto
  obtain b4 where b4: "append_bytes (be_bytes v) b3 = Inr b4" "buf_ok b4"
      "readable b4 = be_bytes x @ be_bytes y @ be_bytes z @ be_bytes v"
    using bq.put_law [OF b3(2), of "be_bytes v"] assms(3) b3(3,4) by auto
  obtain r1 where r1: "readInt64 b4 = Inr (x, r1)" "buf_ok r1"
      "readable r1 = be_bytes y @ be_bytes z @ be_bytes v"
    using readInt64_ok [OF b4(2,3)] .
  obtain r2 where r2: "readInt32 r1 = Inr (y, r2)" "buf_ok r2"
      "readable r2 = be_bytes z @ be_bytes v"
    using readInt32_ok [OF r1(2,3)] .
  obtain r3 where r3: "readInt16 r2 = Inr (z, r3)" "buf_ok r3" "readable r3 = [v]"
    using readInt16_ok [OF r2(2,3)] v by metis
  obtain r4 where r4: "readInt8 r3 = Inr (v, r4)" "buf_ok r4" "readable r4 = []"
    using readInt8_ok [OF r3(2,3)] .
  from b1 b2 b3 b4 r1(1) r2(1) r3(1) r4 show ?thesis
    by (simp add: appendInt_eq)
qed

lemma sample_wire:
  "be_bytes (-2 :: 64 word) @ be_bytes (70000 :: 32 word) @ be_bytes (258 :: 16 word) @
     be_bytes (7 :: 8 word) =
   [255, 255, 255, 255, 255, 255, 255, 254, 0, 1, 17, 112, 1, 2, 7]"
  by code_simp

theorem integers_roundtrip_witness:
  "\<exists>b' r1 r2 r3 r4.
     bindR (appendInt64 (-2) sample_buffer) (\<lambda>b. bindR (appendInt32 70000 b) (\<lambda>b.
       bindR (appendInt16 258 b) (appendInt8 7))) = Inr b' \<and>
     readable b' = [255, 255, 255, 255, 255, 255, 255, 254, 0, 1, 17, 112, 1, 2, 7] \<and>
     readInt64 b' = Inr (-2, r1) \<and> readInt32 r1 = Inr (70000, r2) \<and>
     readInt16 r2 = Inr (258, r3) \<and> readInt8 r3 = Inr (7, r4) \<and> buf_ok r4 \<and> readable r4 = []"
  using integers_roundtrip [of sample_buffer "-2" 70000 258 7]
  unfolding sample_wire by (simp add: max_size_def)

text \<open>C12: \<open>readFd\<close> appends to the readable bytes exactly the bytes \<open>readv\<close> delivered, through the
  vector and the stack buffer alike, and returns their number; a failed call changes nothing and
  reports the error.  One call never reads more than 128k - 1 bytes when the vector has less than
  64k to write to.\<close>

theorem readFd_appends:
  assumes "buf_ok b" and "length (buf_mem b) + extrabuf_size \<le> max_size"
    and "\<And>data. readv (readFd_areas b) = Inr data \<Longrightarrow> length data \<le> sum_list (readFd_areas b)"
  shows "case readv (readFd_areas b) of
      Inl err \<Rightarrow> readFd readv b = Inr (-1, Some err, b)
    | Inr data \<Rightarrow> \<exists>b'. readFd readv b = Inr (int (length data), None, b') \<and> buf_ok b' \<and>
        readable b' = readable b @ data \<and>
        (writableBytes b < extrabuf_size \<longrightarrow> length data \<le> 128 * 1024 - 1)"
proof (cases "readv (readFd_areas b)")
  case (Inl err)
  then show ?thesis by (simp add: readFd_def)
next
  case (Inr data)
  obtain b' where "readFd readv b = Inr (int (length data), None, b')" "buf_ok b'"
      "readable b' = readable b @ data"
    using readFd_content [where readv = readv, OF assms(1) Inr assms(3) [OF Inr] assms(2)] .
  with Inr assms(3) [OF Inr] show ?thesis
    by (auto simp: readFd_areas_def Let_def extrabuf_size_def)
qed

theorem readFd_appends_witness:
  "\<exists>b'. readFd (\<lambda>areas. Inr [1, 2, 3, 4, 5, 6]) sample_buffer = Inr (6, None, b') \<and> buf_ok b' \<and>
     readable b' = [1, 2, 3, 4, 5, 6]"
  using readFd_appends [of sample_buffer "\<lambda>areas. Inr [1, 2, 3, 4, 5, 6]"]
  by (simp add: sample_eval readFd_areas_def extrabuf_size_def Let_def)

text \<open>\<open>shrink\<close> keeps the readable bytes and leaves the room that was asked for, as long as the
  content is smaller than 2 GiB.\<close>

theorem shrink_keeps:
  assumes "buf_ok b" and "length (readable b) < 2 ^ 31"
    and "kCheapPrepend + length (readable b) + reserve \<le> max_size"
  shows "\<exists>b'. shrink reserve b = Inr b' \<and> buf_ok b' \<and> readable b' = readable b \<and>
           reserve \<le> writableBytes b'"
  using shrink_ok [OF assms] by metis

theorem shrink_keeps_witness:
  "\<exists>b'. shrink 2000 (sample_buffer\<lparr>writerIndex := 10\<rparr>) = Inr b' \<and> buf_ok b' \<and>
     readable b' = replicate 2 0 \<and> 2000 \<le> writableBytes b'"
  using shrink_keeps [of "sample_buffer\<lparr>writerIndex := 10\<rparr>" 2000]
  by (simp add: sample_eval)

text \<open>\<open>prepend\<close> puts its bytes in front of the readable ones when they fit into the
  prependable area and fails its assertion otherwise; a new buffer always has room for an
  eight-byte header.\<close>

theorem prepend_fronts:
  assumes "buf_ok b"
  shows "if length xs \<le> prependableBytes b
    then \<exists>b'. prepend xs (length xs) b = Inr b' \<and> buf_ok b' \<and> readable b' = xs @ readable b
    else prepend xs (length xs) b = Inl Assertion"
  using prepend_ok [OF assms, of xs] by (auto simp: prependableBytes_def prepend_def)

theorem prepend_fronts_witness:
  "\<exists>b'. prepend [1, 2] (length [1, 2 :: byte]) sample_buffer = Inr b' \<and> buf_ok b' \<and> readable b' = [1, 2]"
  using prepend_fronts [of sample_buffer "[1, 2]"]
  by (simp add: sample_eval prependableBytes_def)

end
