(* ===== verification/Channel.thy ===== *)
theory Channel
  imports Muduo_Prelude
begin

section \<open>Channels: \<open>src/src/muduo/net/Channel.h\<close> and \<open>Channel.cc\<close>\<close>

text \<open>
  A channel holds the events one file descriptor is polled for, the events the last poll
  reported, and the callbacks.  The operations that change the interest set are functions on the
  channel; the call \<open>loop_->updateChannel(this)\<close> with which \<open>Channel::update\<close> ends is made by the
  user of these functions (the pollers and the connection), who has the loop at hand.  Dispatching
  is the list of callbacks that \<open>handleEvent\<close> invokes, in order.
\<close>

subsection \<open>The constants of \<open>poll(2)\<close>\<close>

definition POLLIN :: i32 where "POLLIN = 1"
definition POLLPRI :: i32 where "POLLPRI = 2"
definition POLLOUT :: i32 where "POLLOUT = 4"
definition POLLERR :: i32 where "POLLERR = 8"
definition POLLHUP :: i32 where "POLLHUP = 16"
definition POLLNVAL :: i32 where "POLLNVAL = 32"
definition POLLRDHUP :: i32 where "POLLRDHUP = 0x2000"

lemmas poll_flags = POLLIN_def POLLPRI_def POLLOUT_def POLLERR_def POLLHUP_def POLLNVAL_def
  POLLRDHUP_def

definition kNoneEvent :: i32 where
  "kNoneEvent = 0"

definition kReadEvent :: i32 where
  "kReadEvent = POLLIN OR POLLPRI"

definition kWriteEvent :: i32 where
  "kWriteEvent = POLLOUT"

lemmas event_consts = kNoneEvent_def kReadEvent_def kWriteEvent_def

subsection \<open>The class\<close>

datatype chan_callback = CloseCallback | ErrorCallback | ReadCallback | WriteCallback

record channel =
  ch_fd :: int
  ch_events :: i32
  ch_revents :: i32
  ch_index :: int
  ch_logHup :: bool
  ch_tied :: bool
  ch_eventHandling :: bool
  ch_addedToLoop :: bool
  ch_callbacks :: "chan_callback list"

definition new_channel :: "int \<Rightarrow> channel" where
  "new_channel fd = \<lparr>ch_fd = fd, ch_events = 0, ch_revents = 0, ch_index = -1, ch_logHup = True,
     ch_tied = False, ch_eventHandling = False, ch_addedToLoop = False, ch_callbacks = []\<rparr>"

definition destroy_channel :: "bool \<Rightarrow> bool \<Rightarrow> channel \<Rightarrow> unit res" where
  "destroy_channel inLoopThread loopHasChannel ch =
     asserting (\<not> ch_eventHandling ch) (asserting (\<not> ch_addedToLoop ch)
       (if inLoopThread then asserting (\<not> loopHasChannel) (Inr ()) else Inr ()))"

definition setCallback :: "chan_callback \<Rightarrow> channel \<Rightarrow> channel" where
  "setCallback cb ch = ch\<lparr>ch_callbacks := List.insert cb (ch_callbacks ch)\<rparr>"

definition tie :: "channel \<Rightarrow> channel" where
  "tie ch = ch\<lparr>ch_tied := True\<rparr>"

definition set_revents :: "i32 \<Rightarrow> channel \<Rightarrow> channel" where
  "set_revents revt ch = ch\<lparr>ch_revents := revt\<rparr>"

definition set_index :: "int \<Rightarrow> channel \<Rightarrow> channel" where
  "set_index idx ch = ch\<lparr>ch_index := idx\<rparr>"

definition doNotLogHup :: "channel \<Rightarrow> channel" where
  "doNotLogHup ch = ch\<lparr>ch_logHup := False\<rparr>"

definition isNoneEvent :: "channel \<Rightarrow> bool" where
  "isNoneEvent ch \<longleftrightarrow> ch_events ch = kNoneEvent"

definition isWriting :: "channel \<Rightarrow> bool" where
  "isWriting ch \<longleftrightarrow> ch_events ch AND kWriteEvent \<noteq> 0"

definition isReading :: "channel \<Rightarrow> bool" where
  "isReading ch \<longleftrightarrow> ch_events ch AND kReadEvent \<noteq> 0"

text \<open>\<open>Channel::update\<close> up to the call of \<open>loop_->updateChannel\<close>.\<close>

definition channel_update :: "channel \<Rightarrow> channel" where
  "channel_update ch = ch\<lparr>ch_addedToLoop := True\<rparr>"

definition enableReading :: "channel \<Rightarrow> channel" where
  "enableReading ch = channel_update (ch\<lparr>ch_events := ch_events ch OR kReadEvent\<rparr>)"

definition disableReading :: "channel \<Rightarrow> channel" where
  "disableReading ch = channel_update (ch\<lparr>ch_events := ch_events ch AND NOT kReadEvent\<rparr>)"

definition enableWriting :: "channel \<Rightarrow> channel" where
  "enableWriting ch = channel_update (ch\<lparr>ch_events := ch_events ch OR kWriteEvent\<rparr>)"

definition disableWriting :: "channel \<Rightarrow> channel" where
  "disableWriting ch = channel_update (ch\<lparr>ch_events := ch_events ch AND NOT kWriteEvent\<rparr>)"

definition disableAll :: "channel \<Rightarrow> channel" where
  "disableAll ch = channel_update (ch\<lparr>ch_events := kNoneEvent\<rparr>)"

text \<open>\<open>Channel::remove\<close> up to the call of \<open>loop_->removeChannel\<close>.\<close>

definition channel_remove :: "channel \<Rightarrow> channel res" where
  "channel_remove ch = asserting (isNoneEvent ch) (Inr (ch\<lparr>ch_addedToLoop := False\<rparr>))"

lemmas channel_ops = channel_update_def enableReading_def disableReading_def enableWriting_def
  disableWriting_def disableAll_def

subsection \<open>Dispatching\<close>

definition has_flag :: "i32 \<Rightarrow> i32 \<Rightarrow> bool" where
  "has_flag revents flags \<longleftrightarrow> revents AND flags \<noteq> 0"

definition invoke :: "chan_callback \<Rightarrow> channel \<Rightarrow> chan_callback list" where
  "invoke cb ch = (if cb \<in> set (ch_callbacks ch) then [cb] else [])"

definition handleEventWithGuard :: "channel \<Rightarrow> chan_callback list" where
  "handleEventWithGuard ch =
     (let revents = ch_revents ch in
      (if has_flag revents POLLHUP \<and> \<not> has_flag revents POLLIN
       then invoke CloseCallback ch else []) @
      (if has_flag revents (POLLERR OR POLLNVAL) then invoke ErrorCallback ch else []) @
      (if has_flag revents (POLLIN OR POLLPRI OR POLLRDHUP) then invoke ReadCallback ch else []) @
      (if has_flag revents POLLOUT then invoke WriteCallback ch else []))"

text \<open>\<open>alive\<close>: the weak pointer of a tied channel can still be locked.\<close>

definition handleEvent :: "bool \<Rightarrow> channel \<Rightarrow> chan_callback list" where
  "handleEvent alive ch =
     (if ch_tied ch then if alive then handleEventWithGuard ch else [] else handleEventWithGuard ch)"

definition flag_name :: "i32 \<Rightarrow> i32 \<Rightarrow> string \<Rightarrow> string" where
  "flag_name ev flags name = (if has_flag ev flags then name else [])"

text \<open>\<open>Channel::eventsToString\<close>; \<open>fd_text\<close> is the descriptor as \<open>std::ostream\<close> prints it.\<close>

definition eventsToString :: "string \<Rightarrow> i32 \<Rightarrow> string" where
  "eventsToString fd_text ev =
     fd_text @ '': '' @ flag_name ev POLLIN ''IN '' @ flag_name ev POLLPRI ''PRI '' @
     flag_name ev POLLOUT ''OUT '' @ flag_name ev POLLHUP ''HUP '' @
     flag_name ev POLLRDHUP ''RDHUP '' @ flag_name ev POLLERR ''ERR '' @
     flag_name ev POLLNVAL ''NVAL ''"

subsection \<open>The interest set\<close>

lemma or_and_absorb: "(e OR m) AND m = (m :: 'a::len word)"
  by (rule bit_word_eqI) (auto simp: bit_simps)

lemma and_not_and: "(e AND NOT m) AND m = (0 :: 'a::len word)"
  by (rule bit_word_eqI) (auto simp: bit_simps)

lemma disjoint_bits: "m AND k = (0 :: 'a::len word) \<Longrightarrow> bit m n \<Longrightarrow> \<not> bit k n"
  by (metis bit_0_eq bit_and_iff bot_apply bot_bool_def)

lemma or_and_disjoint: "m AND k = 0 \<Longrightarrow> (e OR m) AND k = e AND (k :: 'a::len word)"
  by (rule bit_word_eqI) (auto simp: bit_simps dest: disjoint_bits)

lemma and_not_and_disjoint: "m AND k = 0 \<Longrightarrow> (e AND NOT m) AND k = e AND (k :: 'a::len word)"
  by (rule bit_word_eqI) (auto simp: bit_simps dest: disjoint_bits)

lemma event_disjoint: "kReadEvent AND kWriteEvent = 0" "kWriteEvent AND kReadEvent = 0"
  by (simp_all add: event_consts poll_flags)

lemma event_nonzero: "kReadEvent \<noteq> 0" "kWriteEvent \<noteq> 0"
  by (simp_all add: event_consts poll_flags)

text \<open>
  The two tests see exactly what the enabling and disabling operations did, and reading and
  writing do not interfere.
\<close>

lemma isWriting_ops [simp]:
  "isWriting (enableWriting ch)" "\<not> isWriting (disableWriting ch)" "\<not> isWriting (disableAll ch)"
  "isWriting (enableReading ch) = isWriting ch" "isWriting (disableReading ch) = isWriting ch"
  by (simp_all add: isWriting_def channel_ops or_and_absorb and_not_and or_and_disjoint
      and_not_and_disjoint event_disjoint event_nonzero kNoneEvent_def)

lemma isReading_ops [simp]:
  "isReading (enableReading ch)" "\<not> isReading (disableReading ch)" "\<not> isReading (disableAll ch)"
  "isReading (enableWriting ch) = isReading ch" "isReading (disableWriting ch) = isReading ch"
  by (simp_all add: isReading_def channel_ops or_and_absorb and_not_and or_and_disjoint
      and_not_and_disjoint event_disjoint event_nonzero kNoneEvent_def)

lemma isNoneEvent_ops [simp]:
  "isNoneEvent (disableAll ch)" "\<not> isNoneEvent (enableReading ch)" "\<not> isNoneEvent (enableWriting ch)"
  using isReading_ops(1) [of ch] isWriting_ops(1) [of ch]
  by (auto simp: isNoneEvent_def disableAll_def channel_update_def isReading_def isWriting_def
      kNoneEvent_def)

lemma new_channel_idle [simp]:
  "isNoneEvent (new_channel fd)" "\<not> isWriting (new_channel fd)" "\<not> isReading (new_channel fd)"
  by (simp_all add: new_channel_def isNoneEvent_def isWriting_def isReading_def kNoneEvent_def)

lemma tie_ops [simp]:
  "isWriting (tie ch) = isWriting ch" "isReading (tie ch) = isReading ch"
  "isNoneEvent (tie ch) = isNoneEvent ch"
  by (simp_all add: tie_def isNoneEvent_def isWriting_def isReading_def)

text \<open>The interest set only ever has the flags of the two events, so it fits into 16 bits.\<close>

definition channel_ok :: "channel \<Rightarrow> bool" where
  "channel_ok ch \<longleftrightarrow> ch_events ch AND NOT (kReadEvent OR kWriteEvent) = 0"

lemma or_not_subset: "e AND NOT m = 0 \<Longrightarrow> f AND NOT m = 0 \<Longrightarrow> (e OR f) AND NOT m = (0 :: 'a::len word)"
  by (simp add: bit.conj_disj_distrib2)

lemma and_not_subset: "e AND NOT m = 0 \<Longrightarrow> (e AND f) AND NOT m = (0 :: 'a::len word)"
  by (metis and.assoc and.commute and_zero_eq)

lemma channel_ok_ops:
  assumes "channel_ok ch"
  shows "channel_ok (enableReading ch)" "channel_ok (disableReading ch)"
    "channel_ok (enableWriting ch)" "channel_ok (disableWriting ch)" "channel_ok (disableAll ch)"
    "channel_ok (tie ch)" "channel_ok (set_index i ch)" "channel_ok (set_revents r ch)"
proof -
  have "kReadEvent AND NOT (kReadEvent OR kWriteEvent) = 0"
    "kWriteEvent AND NOT (kReadEvent OR kWriteEvent) = 0"
    by (simp_all add: event_consts poll_flags del: bit.de_Morgan_disj)
  with assms show "channel_ok (enableReading ch)" "channel_ok (disableReading ch)"
    "channel_ok (enableWriting ch)" "channel_ok (disableWriting ch)" "channel_ok (disableAll ch)"
    "channel_ok (tie ch)" "channel_ok (set_index i ch)" "channel_ok (set_revents r ch)"
    by (simp_all add: channel_ok_def channel_ops tie_def set_index_def set_revents_def kNoneEvent_def
        or_not_subset and_not_subset del: bit.de_Morgan_disj)
qed

lemma new_channel_ok [simp]: "channel_ok (new_channel fd)"
  by (simp add: channel_ok_def new_channel_def)

subsection \<open>Properties\<close>

text \<open>Which callbacks a poll result leads to, and in which order: close comes first and only
  for a hang-up without readable data, then error, read and write, each at most once; a tied
  channel whose owner is gone dispatches nothing.\<close>

theorem handleEvent_dispatch:
  assumes "set (ch_callbacks ch) = {CloseCallback, ErrorCallback, ReadCallback, WriteCallback}"
  shows "handleEvent alive ch =
    (if ch_tied ch \<and> \<not> alive then []
     else filter (\<lambda>cb. case cb of
         CloseCallback \<Rightarrow> bit (ch_revents ch) 4 \<and> \<not> bit (ch_revents ch) 0
       | ErrorCallback \<Rightarrow> bit (ch_revents ch) 3 \<or> bit (ch_revents ch) 5
       | ReadCallback \<Rightarrow> bit (ch_revents ch) 0 \<or> bit (ch_revents ch) 1 \<or> bit (ch_revents ch) 13
       | WriteCallback \<Rightarrow> bit (ch_revents ch) 2)
       [CloseCallback, ErrorCallback, ReadCallback, WriteCallback])"
proof -
  have two: "has_flag r (a OR b) \<longleftrightarrow> has_flag r a \<or> has_flag r b" for r a b
    by (auto simp: has_flag_def bit.conj_disj_distrib or_eq_0_iff)
  have flag: "has_flag r (push_bit n 1) \<longleftrightarrow> bit r n" if "n < 32" for r n
    using that by (auto simp: has_flag_def bit_iff_and_push_bit_not_eq_0)
  have flags: "has_flag r POLLIN \<longleftrightarrow> bit r 0" "has_flag r POLLPRI \<longleftrightarrow> bit r 1"
    "has_flag r POLLOUT \<longleftrightarrow> bit r 2" "has_flag r POLLERR \<longleftrightarrow> bit r 3" "has_flag r POLLHUP \<longleftrightarrow> bit r 4"
    "has_flag r POLLNVAL \<longleftrightarrow> bit r 5" "has_flag r POLLRDHUP \<longleftrightarrow> bit r 13" for r
    using flag [of 0 r] flag [of 1 r] flag [of 2 r] flag [of 3 r] flag [of 4 r] flag [of 5 r]
      flag [of 13 r] by (simp_all add: poll_flags)
  show ?thesis
    using assms by (simp add: handleEvent_def handleEventWithGuard_def two flags invoke_def Let_def)
qed

theorem handleEvent_dispatch_witness:
  "handleEvent True ((new_channel 5)\<lparr>ch_revents := 17,
     ch_callbacks := [CloseCallback, ErrorCallback, ReadCallback, WriteCallback]\<rparr>) = [ReadCallback]"
  using handleEvent_dispatch [of "(new_channel 5)\<lparr>ch_revents := 17,
     ch_callbacks := [CloseCallback, ErrorCallback, ReadCallback, WriteCallback]\<rparr>" True]
  by (simp add: new_channel_def bit_numeral_rec(1) bit_numeral_rec(2))

end
