(* ===== verification/Poller_Contract.thy ===== *)
theory Poller_Contract
  imports Channel
begin

section \<open>Pollers: the base class \<open>src/src/muduo/net/Poller.h\<close> and its contract\<close>

text \<open>
  \<open>Poller\<close> keeps the map from descriptors to channels; the channels themselves are objects of the
  heap \<open>po_heap\<close>, addressed by a pointer (a natural number), because the pollers store their
  bookkeeping in the channel's \<open>index_\<close>.  The two implementations extend the record.  What the
  users of a poller rely on is the locale \<open>poller_contract\<close>; both implementations interpret it.
\<close>

record poller =
  po_heap :: "nat \<Rightarrow> channel"
  po_channels :: "int \<rightharpoonup> nat"

definition hasChannel :: "nat \<Rightarrow> 'a poller_scheme \<Rightarrow> bool" where
  "hasChannel c p \<longleftrightarrow> po_channels p (ch_fd (po_heap p c)) = Some c"

definition on_channel :: "nat \<Rightarrow> (channel \<Rightarrow> channel) \<Rightarrow> 'a poller_scheme \<Rightarrow> 'a poller_scheme" where
  "on_channel c f p = p\<lparr>po_heap := (po_heap p)(c := f (po_heap p c))\<rparr>"

text \<open>The operations of \<open>Channel\<close> that change the interest set.\<close>

datatype chan_op = EnableReading | DisableReading | EnableWriting | DisableWriting | DisableAll

fun apply_op :: "chan_op \<Rightarrow> channel \<Rightarrow> channel" where
  "apply_op EnableReading = enableReading"
| "apply_op DisableReading = disableReading"
| "apply_op EnableWriting = enableWriting"
| "apply_op DisableWriting = disableWriting"
| "apply_op DisableAll = disableAll"

fun run_ops :: "(chan_op \<Rightarrow> nat \<Rightarrow> 'w \<Rightarrow> 'w res) \<Rightarrow> (nat \<times> chan_op) list \<Rightarrow> 'w \<Rightarrow> 'w res" where
  "run_ops update [] w = Inr w"
| "run_ops update ((c, op) # ops) w = bindR (update op c w) (run_ops update ops)"

lemma apply_op_fields [simp]:
  "ch_fd (apply_op op ch) = ch_fd ch" "ch_index (apply_op op ch) = ch_index ch"
  by (cases op; simp add: channel_ops)+

lemma apply_op_ok [simp]: "channel_ok ch \<Longrightarrow> channel_ok (apply_op op ch)"
  by (cases op) (simp_all add: channel_ok_ops)

lemma apply_DisableAll_events [simp]: "ch_events (disableAll ch) = 0"
  by (simp add: channel_ops kNoneEvent_def)

text \<open>A channel that may be handed to the poller: known to it, or new with its descriptor free.\<close>

definition may_use :: "channel \<Rightarrow> (int \<rightharpoonup> nat) \<Rightarrow> nat \<Rightarrow> bool" where
  "may_use ch channels c \<longleftrightarrow> 0 \<le> ch_fd ch \<and> channel_ok ch \<and>
     (channels (ch_fd ch) = Some c \<or> channels (ch_fd ch) = None \<and> ch_index ch = -1)"

text \<open>Two states of a channel that differ in the poller's bookkeeping at most.\<close>

definition same_but_index :: "channel \<Rightarrow> channel \<Rightarrow> bool" where
  "same_but_index ch ch' \<longleftrightarrow> ch\<lparr>ch_index := 0\<rparr> = ch'\<lparr>ch_index := 0\<rparr>"

lemma same_but_index_fields:
  "same_but_index ch ch' \<Longrightarrow> ch_fd ch = ch_fd ch' \<and> ch_events ch = ch_events ch'"
  by (cases ch; cases ch') (simp add: same_but_index_def)

lemma same_but_index_ok: "same_but_index ch ch' \<Longrightarrow> channel_ok ch = channel_ok ch'"
  by (simp add: channel_ok_def same_but_index_fields)

lemma same_but_index_set_index [simp]:
  "same_but_index (set_index i ch) ch" "same_but_index ch ch"
  by (simp_all add: same_but_index_def set_index_def)

locale poller_contract =
  fixes ok :: "'w \<Rightarrow> bool"
    and chan :: "'w \<Rightarrow> nat \<Rightarrow> channel"
    and known :: "'w \<Rightarrow> int \<rightharpoonup> nat"
    and watched :: "'w \<Rightarrow> int \<rightharpoonup> i32"
    and update :: "chan_op \<Rightarrow> nat \<Rightarrow> 'w \<Rightarrow> 'w res"
    and remove :: "nat \<Rightarrow> 'w \<Rightarrow> 'w res"
  assumes sync: "ok w \<Longrightarrow> known w fd = Some c \<Longrightarrow> ch_events (chan w c) \<noteq> 0 \<Longrightarrow>
      watched w fd = Some (ch_events (chan w c))"
    and known_fd: "ok w \<Longrightarrow> known w fd = Some c \<Longrightarrow> ch_fd (chan w c) = fd"
    and update_law: "ok w \<Longrightarrow> may_use (chan w c) (known w) c \<Longrightarrow>
      \<exists>w'. update op c w = Inr w' \<and> ok w' \<and> known w' = (known w)(ch_fd (chan w c) \<mapsto> c) \<and>
        same_but_index (chan w' c) (apply_op op (chan w c)) \<and> (\<forall>d. d \<noteq> c \<longrightarrow> chan w' d = chan w d) \<and>
        (ch_events (chan w' c) = 0 \<longrightarrow> watched w (ch_fd (chan w c)) \<noteq> None \<longrightarrow>
           watched w' (ch_fd (chan w c)) = None) \<and>
        (\<forall>fd. fd \<noteq> ch_fd (chan w c) \<longrightarrow> watched w' fd = watched w fd)"
    and remove_law: "ok w \<Longrightarrow> known w (ch_fd (chan w c)) = Some c \<Longrightarrow> isNoneEvent (chan w c) \<Longrightarrow>
      watched w (ch_fd (chan w c)) = None \<Longrightarrow>
      \<exists>w'. remove c w = Inr w' \<and> ok w' \<and> known w' = (known w)(ch_fd (chan w c) := None) \<and>
        (\<forall>d. d \<noteq> c \<longrightarrow> same_but_index (chan w' d) (chan w d)) \<and> watched w' = watched w"
begin

text \<open>
  Any sequence of interest changes on channels with distinct descriptors goes through without a
  failed assertion or a fatal error, and afterwards the poller watches each of them for exactly
  the events it asked for.
\<close>

lemma run_ok:
  assumes "ok w" and "inj_on (\<lambda>c. ch_fd (chan w c)) C" and "\<forall>c\<in>C. may_use (chan w c) (known w) c"
    and "fst ` set ops \<subseteq> C"
  shows "\<exists>w'. run_ops update ops w = Inr w' \<and> ok w' \<and> (\<forall>c\<in>C. ch_fd (chan w' c) = ch_fd (chan w c)) \<and>
    (\<forall>c\<in>C. may_use (chan w' c) (known w') c) \<and>
    (\<forall>c. c \<in> fst ` set ops \<or> known w (ch_fd (chan w c)) = Some c \<longrightarrow>
         known w' (ch_fd (chan w c)) = Some c \<or> c \<notin> C)"
  using assms
proof (induction ops arbitrary: w)
  case (Cons x ops)
  obtain c op where x: "x = (c, op)" by (cases x)
  then have c: "c \<in> C" using Cons.prems(4) by simp
  then obtain w1 where w1: "update op c w = Inr w1" "ok w1"
      "known w1 = (known w)(ch_fd (chan w c) \<mapsto> c)"
      "same_but_index (chan w1 c) (apply_op op (chan w c))" "\<forall>d. d \<noteq> c \<longrightarrow> chan w1 d = chan w d"
    using update_law [of w c op] Cons.prems by blast
  have fds: "ch_fd (chan w1 d) = ch_fd (chan w d)" for d
    using same_but_index_fields [OF w1(4)] w1(5) by (cases "d = c") auto
  have use: "\<forall>d\<in>C. may_use (chan w1 d) (known w1) d"
  proof
    fix d assume d: "d \<in> C"
    show "may_use (chan w1 d) (known w1) d"
    proof (cases "d = c")
      case True
      with w1 c Cons.prems(3) show ?thesis
        by (auto simp: may_use_def fds same_but_index_ok [OF w1(4)])
    next
      case False
      then have "ch_fd (chan w d) \<noteq> ch_fd (chan w c)"
        using inj_onD [OF Cons.prems(2)] c d by metis
      with False w1(3,5) d Cons.prems(3) show ?thesis
        by (auto simp: may_use_def)
    qed
  qed
  have inj: "inj_on (\<lambda>c. ch_fd (chan w1 c)) C"
    using Cons.prems(2) by (simp add: fds)
  obtain w' where w': "run_ops update ops w1 = Inr w'" "ok w'"
      "\<forall>c\<in>C. ch_fd (chan w' c) = ch_fd (chan w c)" "\<forall>c\<in>C. may_use (chan w' c) (known w') c"
      "\<forall>d. d \<in> fst ` set ops \<or> known w1 (ch_fd (chan w d)) = Some d \<longrightarrow>
         known w' (ch_fd (chan w d)) = Some d \<or> d \<notin> C"
    using Cons.IH [OF w1(2) inj use] Cons.prems(4) by (auto simp: fds)
  have "known w' (ch_fd (chan w d)) = Some d \<or> d \<notin> C"
    if "d \<in> fst ` set (x # ops) \<or> known w (ch_fd (chan w d)) = Some d" for d
  proof (cases "d \<in> C")
    case True
    then have "known w1 (ch_fd (chan w d)) = Some d" if "d = c \<or> known w (ch_fd (chan w d)) = Some d"
      using that w1(3) inj_onD [OF Cons.prems(2)] c by (cases "d = c") auto
    with w'(5) that x show ?thesis by auto
  qed simp
  with x w1(1) w' show ?case by auto
qed auto

lemma run_watches:
  assumes "ok w" and "inj_on (\<lambda>c. ch_fd (chan w c)) C" and "\<forall>c\<in>C. may_use (chan w c) (known w) c"
    and "fst ` set ops \<subseteq> C"
  shows "\<exists>w'. run_ops update ops w = Inr w' \<and> ok w' \<and>
    (\<forall>c \<in> fst ` set ops. ch_events (chan w' c) \<noteq> 0 \<longrightarrow>
       watched w' (ch_fd (chan w c)) = Some (ch_events (chan w' c)))"
proof -
  obtain w' where w': "run_ops update ops w = Inr w'" "ok w'"
      "\<forall>c. c \<in> fst ` set ops \<or> known w (ch_fd (chan w c)) = Some c \<longrightarrow>
         known w' (ch_fd (chan w c)) = Some c \<or> c \<notin> C"
    using run_ok [OF assms] by blast
  moreover have "watched w' (ch_fd (chan w c)) = Some (ch_events (chan w' c))"
    if "c \<in> fst ` set ops" "ch_events (chan w' c) \<noteq> 0" for c
    using sync [OF w'(2) _ that(2)] w'(3) that(1) assms(4) by blast
  ultimately show ?thesis by blast
qed

text \<open>Disabling and removing a watched channel always works and leaves no trace of it.\<close>

lemma retire:
  assumes "ok w" and "known w fd = Some c" and "channel_ok (chan w c)" and "0 \<le> fd"
    and "watched w fd \<noteq> None"
  shows "\<exists>w' w''. update DisableAll c w = Inr w' \<and> remove c w' = Inr w'' \<and> ok w'' \<and>
    known w'' = (known w)(fd := None) \<and> watched w'' fd = None \<and>
    (\<forall>g. g \<noteq> fd \<longrightarrow> watched w'' g = watched w g)"
proof -
  have fd: "ch_fd (chan w c) = fd"
    using known_fd assms(1,2) .
  then have "may_use (chan w c) (known w) c"
    using assms by (simp add: may_use_def)
  from update_law [OF assms(1) this, of DisableAll]
  obtain w1 where w1: "update DisableAll c w = Inr w1" "ok w1" "known w1 = (known w)(fd \<mapsto> c)"
      "same_but_index (chan w1 c) (disableAll (chan w c))"
      "ch_events (chan w1 c) = 0 \<longrightarrow> watched w fd \<noteq> None \<longrightarrow> watched w1 fd = None"
      "\<forall>g. g \<noteq> fd \<longrightarrow> watched w1 g = watched w g"
    using fd by auto
  then have ev: "ch_events (chan w1 c) = 0" and fd1: "ch_fd (chan w1 c) = fd"
    using same_but_index_fields [OF w1(4)] known_fd [of w1 fd c] by auto
  with w1 assms(5) have "watched w1 (ch_fd (chan w1 c)) = None"
      "known w1 (ch_fd (chan w1 c)) = Some c" "isNoneEvent (chan w1 c)"
    by (auto simp: isNoneEvent_def kNoneEvent_def)
  from remove_law [OF w1(2) this(2,3,1)] obtain w2 where "remove c w1 = Inr w2" "ok w2"
      "known w2 = (known w)(fd := None)" "watched w2 = watched w1"
    using fd1 w1(3) by auto
  with w1 fd1 ev assms(5) show ?thesis by auto
qed

end

end
