(* ===== verification/EPoll_Poller.thy ===== *)
theory EPoll_Poller
  imports Poller_Contract
begin

section \<open>\<open>epoll\<close>: \<open>src/src/muduo/net/poller/EPollPoller.cc\<close>\<close>

text \<open>
  The kernel's side of \<open>epoll\<close> is not part of the repository: its state is the type parameter
  \<open>'k\<close>, \<open>epoll_ctl\<close> and \<open>epoll_wait\<close> are parameters of the definitions that call them.  What
  \<open>epoll_ctl(2)\<close> documents about the interest list is the locale \<open>epoll_kernel\<close>.  Under it the
  poller keeps the contract of \<open>Poller_Contract\<close>.
\<close>

datatype epoll_op = EPOLL_CTL_ADD | EPOLL_CTL_MOD | EPOLL_CTL_DEL

type_synonym 'k epoll_ctl_call = "'k \<Rightarrow> epoll_op \<Rightarrow> int \<Rightarrow> i32 \<Rightarrow> nat \<Rightarrow> int \<times> 'k"
type_synonym 'k epoll_wait_call = "'k \<Rightarrow> nat \<Rightarrow> int \<Rightarrow> int + (i32 \<times> nat) list"

definition kNew :: int where "kNew = -1"
definition kAdded :: int where "kAdded = 1"
definition kDeleted :: int where "kDeleted = 2"

lemmas epoll_index = kNew_def kAdded_def kDeleted_def

record 'k epoll_poller = poller +
  ep_events_size :: nat
  ep_kernel :: 'k

definition kInitEventListSize :: nat where
  "kInitEventListSize = 16"

text \<open>The constructor; \<open>epollfd\<close> is what \<open>epoll_create1\<close> returned.\<close>

definition new_epoll_poller :: "int \<Rightarrow> (nat \<Rightarrow> channel) \<Rightarrow> 'k \<Rightarrow> 'k epoll_poller res" where
  "new_epoll_poller epollfd heap k =
     (if epollfd < 0 then Inl Fatal
      else Inr \<lparr>po_heap = heap, po_channels = Map.empty, ep_events_size = kInitEventListSize,
                ep_kernel = k\<rparr>)"

definition epoll_update ::
  "'k epoll_ctl_call \<Rightarrow> epoll_op \<Rightarrow> nat \<Rightarrow> 'k epoll_poller \<Rightarrow> 'k epoll_poller res" where
  "epoll_update epoll_ctl operation c p =
     (let ch = po_heap p c;
          (r, k) = epoll_ctl (ep_kernel p) operation (ch_fd ch) (ch_events ch) c;
          p' = p\<lparr>ep_kernel := k\<rparr> in
      if r < 0 then if operation = EPOLL_CTL_DEL then Inr p' else Inl Fatal
      else Inr p')"

definition epoll_updateChannel ::
  "'k epoll_ctl_call \<Rightarrow> nat \<Rightarrow> 'k epoll_poller \<Rightarrow> 'k epoll_poller res" where
  "epoll_updateChannel epoll_ctl c p =
     (let ch = po_heap p c; index = ch_index ch; fd = ch_fd ch in
      if index = kNew \<or> index = kDeleted then
        bindR (if index = kNew
               then asserting (po_channels p fd = None)
                      (Inr (p\<lparr>po_channels := (po_channels p)(fd \<mapsto> c)\<rparr>))
               else asserting (po_channels p fd \<noteq> None)
                      (asserting (po_channels p fd = Some c) (Inr p)))
          (\<lambda>p. epoll_update epoll_ctl EPOLL_CTL_ADD c (on_channel c (set_index kAdded) p))
      else
        asserting (po_channels p fd \<noteq> None)
          (asserting (po_channels p fd = Some c)
            (asserting (index = kAdded)
              (if isNoneEvent ch
               then bindR (epoll_update epoll_ctl EPOLL_CTL_DEL c p)
                      (\<lambda>p. Inr (on_channel c (set_index kDeleted) p))
               else epoll_update epoll_ctl EPOLL_CTL_MOD c p))))"

definition epoll_removeChannel ::
  "'k epoll_ctl_call \<Rightarrow> nat \<Rightarrow> 'k epoll_poller \<Rightarrow> 'k epoll_poller res" where
  "epoll_removeChannel epoll_ctl c p =
     (let ch = po_heap p c; fd = ch_fd ch; index = ch_index ch in
      asserting (po_channels p fd \<noteq> None)
        (asserting (po_channels p fd = Some c)
          (asserting (isNoneEvent ch)
            (asserting (index = kAdded \<or> index = kDeleted)
              (let p = p\<lparr>po_channels := (po_channels p)(fd := None)\<rparr> in
               bindR (if index = kAdded then epoll_update epoll_ctl EPOLL_CTL_DEL c p else Inr p)
                 (\<lambda>p. Inr (on_channel c (set_index kNew) p)))))))"

text \<open>
  One turn of the loop of \<open>fillActiveChannels\<close> per reported event: the channel is taken from the
  event's data pointer.
\<close>

fun epoll_fill_loop ::
  "(i32 \<times> nat) list \<Rightarrow> 'k epoll_poller \<Rightarrow> (nat list \<times> 'k epoll_poller) res" where
  "epoll_fill_loop [] p = Inr ([], p)"
| "epoll_fill_loop ((ev, c) # evs) p =
     asserting (po_channels p (ch_fd (po_heap p c)) \<noteq> None)
       (asserting (po_channels p (ch_fd (po_heap p c)) = Some c)
         (bindR (epoll_fill_loop evs (on_channel c (set_revents ev) p))
           (\<lambda>(active, p). Inr (c # active, p))))"

definition epoll_fillActiveChannels ::
  "(i32 \<times> nat) list \<Rightarrow> 'k epoll_poller \<Rightarrow> (nat list \<times> 'k epoll_poller) res" where
  "epoll_fillActiveChannels evs p =
     asserting (length evs \<le> ep_events_size p) (epoll_fill_loop evs p)"

definition epoll_poll ::
  "'k epoll_wait_call \<Rightarrow> int \<Rightarrow> 'k epoll_poller \<Rightarrow> (nat list \<times> 'k epoll_poller) res" where
  "epoll_poll epoll_wait timeoutMs p =
     (case epoll_wait (ep_kernel p) (ep_events_size p) timeoutMs of
        Inl savedErrno \<Rightarrow> Inr ([], p)
      | Inr evs \<Rightarrow>
          if evs = [] then Inr ([], p)
          else
            bindR (epoll_fillActiveChannels evs p)
              (\<lambda>(active, p). Inr (active,
                 if length evs = ep_events_size p
                 then p\<lparr>ep_events_size := ep_events_size p * 2\<rparr> else p)))"

fun operationToString :: "epoll_op \<Rightarrow> string" where
  "operationToString EPOLL_CTL_ADD = ''ADD''"
| "operationToString EPOLL_CTL_DEL = ''DEL''"
| "operationToString EPOLL_CTL_MOD = ''MOD''"

text \<open>The operations of \<open>Channel\<close> together with the poller's part of them.\<close>

definition epoll_channel_op ::
  "'k epoll_ctl_call \<Rightarrow> chan_op \<Rightarrow> nat \<Rightarrow> 'k epoll_poller \<Rightarrow> 'k epoll_poller res" where
  "epoll_channel_op epoll_ctl op c p =
     epoll_updateChannel epoll_ctl c (on_channel c (apply_op op) p)"

definition epoll_channel_remove ::
  "'k epoll_ctl_call \<Rightarrow> nat \<Rightarrow> 'k epoll_poller \<Rightarrow> 'k epoll_poller res" where
  "epoll_channel_remove epoll_ctl c p =
     bindR (channel_remove (po_heap p c))
       (\<lambda>ch. epoll_removeChannel epoll_ctl c (on_channel c (\<lambda>_. ch) p))"

subsection \<open>The interest list of the kernel\<close>

text \<open>
  \<open>interest k fd\<close> is the entry of a descriptor in the interest list.  A descriptor can be added
  once, changed and deleted while it is there; these calls succeed and touch no other entry.
\<close>

locale epoll_kernel =
  fixes epoll_ctl :: "'k epoll_ctl_call"
    and interest :: "'k \<Rightarrow> int \<rightharpoonup> i32 \<times> nat"
  assumes ctl_add: "interest k fd = None \<Longrightarrow>
      \<exists>k'. epoll_ctl k EPOLL_CTL_ADD fd ev c = (0, k') \<and> interest k' = (interest k)(fd \<mapsto> (ev, c))"
    and ctl_mod: "interest k fd \<noteq> None \<Longrightarrow>
      \<exists>k'. epoll_ctl k EPOLL_CTL_MOD fd ev c = (0, k') \<and> interest k' = (interest k)(fd \<mapsto> (ev, c))"
    and ctl_del: "interest k fd \<noteq> None \<Longrightarrow>
      \<exists>k'. epoll_ctl k EPOLL_CTL_DEL fd ev c = (0, k') \<and> interest k' = (interest k)(fd := None)"

text \<open>
  The bookkeeping for one descriptor agrees with the kernel: a known channel is in the interest
  list with its current events when its index is \<open>kAdded\<close>, and has no events and no entry when it
  is \<open>kDeleted\<close>; an unknown descriptor has no entry.
\<close>

definition epoll_entry :: "('k \<Rightarrow> int \<rightharpoonup> i32 \<times> nat) \<Rightarrow> 'k epoll_poller \<Rightarrow> int \<Rightarrow> bool" where
  "epoll_entry interest p fd =
     (case po_channels p fd of
        None \<Rightarrow> interest (ep_kernel p) fd = None
      | Some c \<Rightarrow> ch_fd (po_heap p c) = fd \<and>
          (if ch_index (po_heap p c) = kAdded
           then interest (ep_kernel p) fd = Some (ch_events (po_heap p c), c)
           else ch_index (po_heap p c) = kDeleted \<and> interest (ep_kernel p) fd = None \<and>
             ch_events (po_heap p c) = 0))"

definition epoll_ok :: "('k \<Rightarrow> int \<rightharpoonup> i32 \<times> nat) \<Rightarrow> 'k epoll_poller \<Rightarrow> bool" where
  "epoll_ok interest p \<longleftrightarrow> (\<forall>fd. epoll_entry interest p fd)"

definition epoll_watched :: "('k \<Rightarrow> int \<rightharpoonup> i32 \<times> nat) \<Rightarrow> 'k epoll_poller \<Rightarrow> int \<rightharpoonup> i32" where
  "epoll_watched interest p fd = map_option fst (interest (ep_kernel p) fd)"

lemma epoll_ok_fd: "epoll_ok interest p \<Longrightarrow> po_channels p fd = Some c \<Longrightarrow> ch_fd (po_heap p c) = fd"
  unfolding epoll_ok_def epoll_entry_def by (drule spec [of _ fd]) simp

text \<open>An operation on one channel only has to restore the entry of its descriptor.\<close>

lemma epoll_ok_frame:
  assumes "epoll_ok interest p" and "epoll_entry interest p' fd" and "ch_fd (po_heap p c) = fd"
    and "\<And>d. d \<noteq> c \<Longrightarrow> po_heap p' d = po_heap p d"
    and "\<And>g. g \<noteq> fd \<Longrightarrow> po_channels p' g = po_channels p g"
    and "\<And>g. g \<noteq> fd \<Longrightarrow> interest (ep_kernel p') g = interest (ep_kernel p) g"
  shows "epoll_ok interest p'"
  unfolding epoll_ok_def
proof
  fix g
  show "epoll_entry interest p' g"
  proof (cases "g = fd")
    case False
    have "d \<noteq> c" if "po_channels p g = Some d" for d
      using epoll_ok_fd [OF assms(1) that] assms(3) False by auto
    moreover have "epoll_entry interest p g"
      using assms(1) by (simp add: epoll_ok_def)
    ultimately show ?thesis
      using assms(4-6) False by (auto simp: epoll_entry_def split: option.splits)
  qed (simp add: assms(2))
qed

lemma epoll_ok_cases:
  assumes "epoll_ok interest p" and "po_channels p fd = Some c"
  obtains "ch_fd (po_heap p c) = fd" "ch_index (po_heap p c) = kAdded"
      "interest (ep_kernel p) fd = Some (ch_events (po_heap p c), c)"
  | "ch_fd (po_heap p c) = fd" "ch_index (po_heap p c) = kDeleted"
      "interest (ep_kernel p) fd = None" "ch_events (po_heap p c) = 0"
proof -
  have "epoll_entry interest p fd"
    using assms(1) by (simp add: epoll_ok_def)
  with assms(2) that show thesis
    by (simp add: epoll_entry_def split: if_splits)
qed

lemmas epoll_state = on_channel_def set_index_def

context epoll_kernel
begin

lemma update_calls:
  "interest (ep_kernel p) (ch_fd (po_heap p c)) = None \<Longrightarrow>
     \<exists>k. epoll_update epoll_ctl EPOLL_CTL_ADD c p = Inr (p\<lparr>ep_kernel := k\<rparr>) \<and>
       interest k = (interest (ep_kernel p))(ch_fd (po_heap p c) \<mapsto> (ch_events (po_heap p c), c))"
  "interest (ep_kernel p) (ch_fd (po_heap p c)) \<noteq> None \<Longrightarrow>
     \<exists>k. epoll_update epoll_ctl EPOLL_CTL_MOD c p = Inr (p\<lparr>ep_kernel := k\<rparr>) \<and>
       interest k = (interest (ep_kernel p))(ch_fd (po_heap p c) \<mapsto> (ch_events (po_heap p c), c))"
  "interest (ep_kernel p) (ch_fd (po_heap p c)) \<noteq> None \<Longrightarrow>
     \<exists>k. epoll_update epoll_ctl EPOLL_CTL_DEL c p = Inr (p\<lparr>ep_kernel := k\<rparr>) \<and>
       interest k = (interest (ep_kernel p))(ch_fd (po_heap p c) := None)"
  using ctl_add [of "ep_kernel p" "ch_fd (po_heap p c)" "ch_events (po_heap p c)" c]
    ctl_mod [of "ep_kernel p" "ch_fd (po_heap p c)" "ch_events (po_heap p c)" c]
    ctl_del [of "ep_kernel p" "ch_fd (po_heap p c)" "ch_events (po_heap p c)" c]
  by (auto simp: epoll_update_def Let_def)

text \<open>Where a channel that may be used stands: not registered, taken out of the kernel, or in it.\<close>

lemma epoll_use_cases:
  fixes p :: "'k epoll_poller"
  assumes ok: "epoll_ok interest p" and use: "may_use (po_heap p c) (po_channels p) c"
  defines "fd \<equiv> ch_fd (po_heap p c)"
  obtains (absent) "po_channels p fd = None \<and> ch_index (po_heap p c) = kNew \<or>
      po_channels p fd = Some c \<and> ch_index (po_heap p c) = kDeleted" and "interest (ep_kernel p) fd = None"
    | (added) "po_channels p fd = Some c" and "ch_index (po_heap p c) = kAdded"
      and "interest (ep_kernel p) fd = Some (ch_events (po_heap p c), c)"
proof (cases "po_channels p fd = None")
  case True
  moreover have "epoll_entry interest p fd"
    using ok by (simp add: epoll_ok_def)
  ultimately show ?thesis
    using use absent by (simp add: may_use_def fd_def [symmetric] kNew_def epoll_entry_def)
next
  case False
  then have "po_channels p fd = Some c"
    using use by (auto simp: may_use_def fd_def)
  then show ?thesis
    using epoll_ok_cases [OF ok] added absent by metis
qed

lemma epoll_op_absent:
  fixes op :: chan_op and c :: nat and p :: "'k epoll_poller"
  defines "fd \<equiv> ch_fd (po_heap p c)" and "ch \<equiv> apply_op op (po_heap p c)"
  assumes absent: "po_channels p fd = None \<and> ch_index (po_heap p c) = kNew \<or>
      po_channels p fd = Some c \<and> ch_index (po_heap p c) = kDeleted" and none: "interest (ep_kernel p) fd = None"
  shows "\<exists>p'. epoll_channel_op epoll_ctl op c p = Inr p' \<and> epoll_entry interest p' fd \<and>
    po_channels p' = (po_channels p)(fd \<mapsto> c) \<and> po_heap p' = (po_heap p)(c := set_index kAdded ch) \<and>
    interest (ep_kernel p') = (interest (ep_kernel p))(fd \<mapsto> (ch_events ch, c))"
proof -
  let ?p = "on_channel c (apply_op op) p"
  let ?add = "on_channel c (set_index kAdded) (?p\<lparr>po_channels := (po_channels p)(fd \<mapsto> c)\<rparr>)"
  have heap: "po_heap ?add = (po_heap p)(c := set_index kAdded ch)" "po_heap ?p = (po_heap p)(c := ch)"
      "ep_kernel ?add = ep_kernel p"
    by (simp_all add: on_channel_def ch_def)
  have ch: "ch_fd ch = fd" "ch_index ch = ch_index (po_heap p c)"
    by (simp_all add: ch_def fd_def)
  obtain k where k: "epoll_update epoll_ctl EPOLL_CTL_ADD c ?add = Inr (?add\<lparr>ep_kernel := k\<rparr>)"
      "interest k = (interest (ep_kernel p))(fd \<mapsto> (ch_events ch, c))"
    using update_calls(1) [of ?add c] ch none by (auto simp: heap set_index_def)
  have "(po_channels p)(fd \<mapsto> c) = po_channels p" if "po_channels p fd = Some c"
    using that by auto
  with k absent have "epoll_channel_op epoll_ctl op c p = Inr (?add\<lparr>ep_kernel := k\<rparr>)"
    using ch by (auto simp: epoll_channel_op_def epoll_updateChannel_def heap Let_def epoll_index)
      (simp_all add: on_channel_def)
  with k(2) ch show ?thesis
    by (auto simp: epoll_entry_def epoll_state ch_def)
qed

lemma epoll_op_added:
  fixes op :: chan_op and c :: nat and p :: "'k epoll_poller"
  defines "fd \<equiv> ch_fd (po_heap p c)" and "ch \<equiv> apply_op op (po_heap p c)"
  assumes added: "po_channels p fd = Some c" "ch_index (po_heap p c) = kAdded"
      "interest (ep_kernel p) fd = Some (ch_events (po_heap p c), c)"
  shows "\<exists>p' i. epoll_channel_op epoll_ctl op c p = Inr p' \<and> epoll_entry interest p' fd \<and>
    po_channels p' = po_channels p \<and> po_heap p' = (po_heap p)(c := set_index i ch) \<and>
    interest (ep_kernel p') = (interest (ep_kernel p))(fd := if ch_events ch = 0 then None else Some (ch_events ch, c))"
proof -
  let ?p = "on_channel c (apply_op op) p"
  have heap: "po_heap ?p = (po_heap p)(c := ch)" "ep_kernel ?p = ep_kernel p"
    by (simp_all add: on_channel_def ch_def)
  have ch: "ch_fd ch = fd" "ch_index ch = ch_index (po_heap p c)"
    by (simp_all add: ch_def fd_def)
  show ?thesis
  proof (cases "ch_events ch = 0")
    case True
    obtain k where k: "epoll_update epoll_ctl EPOLL_CTL_DEL c ?p = Inr (?p\<lparr>ep_kernel := k\<rparr>)"
        "interest k = (interest (ep_kernel p))(fd := None)"
      using update_calls(3) [of ?p c] added ch by (auto simp: heap)
    with True added ch have "epoll_channel_op epoll_ctl op c p =
        Inr (on_channel c (set_index kDeleted) (?p\<lparr>ep_kernel := k\<rparr>))"
      by (simp add: epoll_channel_op_def epoll_updateChannel_def heap Let_def
          epoll_index isNoneEvent_def kNoneEvent_def) (simp add: on_channel_def)
    with k(2) added ch True show ?thesis
      by (auto simp: epoll_entry_def epoll_index epoll_state ch_def)
  next
    case False
    obtain k where k: "epoll_update epoll_ctl EPOLL_CTL_MOD c ?p = Inr (?p\<lparr>ep_kernel := k\<rparr>)"
        "interest k = (interest (ep_kernel p))(fd \<mapsto> (ch_events ch, c))"
      using update_calls(2) [of ?p c] added ch by (auto simp: heap)
    with False added ch have "epoll_channel_op epoll_ctl op c p = Inr (?p\<lparr>ep_kernel := k\<rparr>)"
      by (simp add: epoll_channel_op_def epoll_updateChannel_def heap Let_def
          epoll_index isNoneEvent_def kNoneEvent_def) (simp add: on_channel_def)
    moreover have "set_index kAdded ch = ch"
      using added(2) ch(2) by (simp add: set_index_def)
    ultimately show ?thesis
      using k(2) added ch False
      by (intro exI [of _ "?p\<lparr>ep_kernel := k\<rparr>"] exI [of _ kAdded]) (auto simp: epoll_entry_def on_channel_def ch_def)
  qed
qed

lemma epoll_op_law:
  fixes op :: chan_op and c :: nat and p :: "'k epoll_poller"
  assumes ok: "epoll_ok interest p" and use: "may_use (po_heap p c) (po_channels p) c"
  defines "fd \<equiv> ch_fd (po_heap p c)" and "ch \<equiv> apply_op op (po_heap p c)"
  shows "\<exists>p'. epoll_channel_op epoll_ctl op c p = Inr p' \<and> epoll_entry interest p' fd \<and>
    po_channels p' = (po_channels p)(fd \<mapsto> c) \<and> (\<exists>i. po_heap p' = (po_heap p)(c := set_index i ch)) \<and>
    (ch_events ch = 0 \<longrightarrow> interest (ep_kernel p) fd \<noteq> None \<longrightarrow> interest (ep_kernel p') fd = None) \<and>
    (\<forall>g. g \<noteq> fd \<longrightarrow> interest (ep_kernel p') g = interest (ep_kernel p) g)"
  using ok use
proof (cases rule: epoll_use_cases)
  case absent
  then show ?thesis
    using epoll_op_absent [OF absent, of op] unfolding fd_def ch_def by fastforce
next
  case added
  then have "(po_channels p)(fd \<mapsto> c) = po_channels p"
    by (auto simp: fd_def)
  then show ?thesis
    using epoll_op_added [OF added, of op] unfolding fd_def ch_def by fastforce
qed

lemma epoll_remove_law:
  assumes ok: "epoll_ok interest p" and known: "po_channels p (ch_fd (po_heap p c)) = Some c"
    and none: "isNoneEvent (po_heap p c)"
  defines "fd \<equiv> ch_fd (po_heap p c)"
  shows "\<exists>p'. epoll_channel_remove epoll_ctl c p = Inr p' \<and> epoll_entry interest p' fd \<and>
    po_channels p' = (po_channels p)(fd := None) \<and>
    po_heap p' = (po_heap p)(c := set_index kNew ((po_heap p c)\<lparr>ch_addedToLoop := False\<rparr>)) \<and>
    interest (ep_kernel p') = (interest (ep_kernel p))(fd := None)"
proof -
  let ?ch = "(po_heap p c)\<lparr>ch_addedToLoop := False\<rparr>"
  let ?p = "(on_channel c (\<lambda>_. ?ch) p)\<lparr>po_channels := (po_channels p)(fd := None)\<rparr>"
  have heap: "po_heap ?p = (po_heap p)(c := ?ch)" "ep_kernel ?p = ep_kernel p"
    by (simp_all add: on_channel_def)
  have known': "po_channels p fd = Some c"
    using known by (simp add: fd_def)
  show ?thesis
  proof (cases rule: epoll_ok_cases [OF ok known'])
    case 1
    then obtain k where k: "epoll_update epoll_ctl EPOLL_CTL_DEL c ?p = Inr (?p\<lparr>ep_kernel := k\<rparr>)"
        "interest k = (interest (ep_kernel p))(fd := None)"
      using update_calls(3) [of ?p c] by (auto simp: heap)
    with 1 known' none have "epoll_channel_remove epoll_ctl c p =
        Inr (on_channel c (set_index kNew) (?p\<lparr>ep_kernel := k\<rparr>))"
      by (simp add: epoll_channel_remove_def channel_remove_def epoll_removeChannel_def
          Let_def epoll_index isNoneEvent_def) (simp add: on_channel_def isNoneEvent_def)
    with k(2) show ?thesis
      by (simp add: epoll_entry_def on_channel_def)
  next
    case 2
    with known' none have "epoll_channel_remove epoll_ctl c p = Inr (on_channel c (set_index kNew) ?p)"
      by (simp add: epoll_channel_remove_def channel_remove_def epoll_removeChannel_def
          Let_def epoll_index isNoneEvent_def) (simp add: on_channel_def isNoneEvent_def)
    with 2 show ?thesis
      by (simp add: epoll_entry_def on_channel_def fun_upd_idem)
  qed
qed

end

text \<open>Over any kernel that behaves as documented, the \<open>epoll\<close> poller keeps the contract.\<close>

sublocale epoll_kernel \<subseteq> ep: poller_contract "epoll_ok interest" po_heap po_channels
    "epoll_watched interest" "epoll_channel_op epoll_ctl" "epoll_channel_remove epoll_ctl"
proof
  fix p :: "'k epoll_poller" and fd c
  assume "epoll_ok interest p" and "po_channels p fd = Some c" and "ch_events (po_heap p c) \<noteq> 0"
  then show "epoll_watched interest p fd = Some (ch_events (po_heap p c))"
    using epoll_ok_cases [of interest p fd c] by (auto simp: epoll_watched_def)
next
  fix p :: "'k epoll_poller" and fd c
  assume "epoll_ok interest p" and "po_channels p fd = Some c"
  then show "ch_fd (po_heap p c) = fd" by (rule epoll_ok_fd)
next
  fix p :: "'k epoll_poller" and c op
  let ?fd = "ch_fd (po_heap p c)"
  assume ok: "epoll_ok interest p" and use: "may_use (po_heap p c) (po_channels p) c"
  obtain p' i where p': "epoll_channel_op epoll_ctl op c p = Inr p'" "epoll_entry interest p' ?fd"
      "po_channels p' = (po_channels p)(?fd \<mapsto> c)"
      "po_heap p' = (po_heap p)(c := set_index i (apply_op op (po_heap p c)))"
      "ch_events (apply_op op (po_heap p c)) = 0 \<longrightarrow> interest (ep_kernel p) ?fd \<noteq> None \<longrightarrow>
         interest (ep_kernel p') ?fd = None"
      "\<forall>g. g \<noteq> ?fd \<longrightarrow> interest (ep_kernel p') g = interest (ep_kernel p) g"
    using epoll_op_law [OF ok use, of op] by blast
  then have "epoll_ok interest p'"
    by (intro epoll_ok_frame [OF ok p'(2) refl]) auto
  with p' show "\<exists>p'. epoll_channel_op epoll_ctl op c p = Inr p' \<and> epoll_ok interest p' \<and>
      po_channels p' = (po_channels p)(?fd \<mapsto> c) \<and>
      same_but_index (po_heap p' c) (apply_op op (po_heap p c)) \<and>
      (\<forall>d. d \<noteq> c \<longrightarrow> po_heap p' d = po_heap p d) \<and>
      (ch_events (po_heap p' c) = 0 \<longrightarrow> epoll_watched interest p ?fd \<noteq> None \<longrightarrow>
         epoll_watched interest p' ?fd = None) \<and>
      (\<forall>fd. fd \<noteq> ?fd \<longrightarrow> epoll_watched interest p' fd = epoll_watched interest p fd)"
    by (intro exI [of _ p']) (simp add: epoll_watched_def set_index_def same_but_index_def)
next
  fix p :: "'k epoll_poller" and c
  let ?fd = "ch_fd (po_heap p c)"
  assume ok: "epoll_ok interest p" and known: "po_channels p ?fd = Some c"
    and none: "isNoneEvent (po_heap p c)" and "epoll_watched interest p ?fd = None"
  then have out: "interest (ep_kernel p) ?fd = None"
    by (simp add: epoll_watched_def)
  obtain p' where p': "epoll_channel_remove epoll_ctl c p = Inr p'" "epoll_entry interest p' ?fd"
      "po_channels p' = (po_channels p)(?fd := None)"
      "po_heap p' = (po_heap p)(c := set_index kNew ((po_heap p c)\<lparr>ch_addedToLoop := False\<rparr>))"
      "interest (ep_kernel p') = (interest (ep_kernel p))(?fd := None)"
    using epoll_remove_law [OF ok known none] by blast
  then have "epoll_ok interest p'"
    by (intro epoll_ok_frame [OF ok p'(2) refl]) auto
  with p' out show "\<exists>p'. epoll_channel_remove epoll_ctl c p = Inr p' \<and> epoll_ok interest p' \<and>
      po_channels p' = (po_channels p)(?fd := None) \<and>
      (\<forall>d. d \<noteq> c \<longrightarrow> same_but_index (po_heap p' d) (po_heap p d)) \<and>
      epoll_watched interest p' = epoll_watched interest p"
    by (intro exI [of _ p']) (auto simp: epoll_watched_def fun_eq_iff)
qed

context epoll_kernel
begin

lemmas interest_changes = ep.run_watches
lemmas retirement = ep.retire

end

subsection \<open>A kernel\<close>

text \<open>
  The interest list as a table, with the error returns of \<open>epoll_ctl(2)\<close>: a kernel that meets the
  documented behaviour, for evaluating the definitions.
\<close>

fun table_epoll_ctl :: "(int \<rightharpoonup> i32 \<times> nat) epoll_ctl_call" where
  "table_epoll_ctl k EPOLL_CTL_ADD fd ev c = (if k fd = None then (0, k(fd \<mapsto> (ev, c))) else (-1, k))"
| "table_epoll_ctl k EPOLL_CTL_MOD fd ev c = (if k fd = None then (-1, k) else (0, k(fd \<mapsto> (ev, c))))"
| "table_epoll_ctl k EPOLL_CTL_DEL fd ev c = (if k fd = None then (-1, k) else (0, k(fd := None)))"

interpretation tk: epoll_kernel table_epoll_ctl "\<lambda>k. k"
  by unfold_locales auto

subsection \<open>Polling\<close>

lemma epoll_ok_set_revents:
  "epoll_ok interest p \<Longrightarrow> epoll_ok interest (on_channel c (set_revents ev) p)"
  unfolding epoll_ok_def epoll_entry_def
  by (erule all_forward) (auto simp: on_channel_def set_revents_def split: option.splits if_splits)

lemma epoll_fill_loop_ok:
  assumes "epoll_ok interest p" and "\<forall>(ev, c) \<in> set evs. hasChannel c p" and "distinct (map snd evs)"
  shows "\<exists>p'. epoll_fill_loop evs p = Inr (map snd evs, p') \<and> epoll_ok interest p' \<and>
    ep_events_size p' = ep_events_size p \<and> ep_kernel p' = ep_kernel p \<and>
    po_channels p' = po_channels p \<and>
    (\<forall>(ev, c) \<in> set evs. po_heap p' c = set_revents ev (po_heap p c)) \<and>
    (\<forall>c. c \<notin> snd ` set evs \<longrightarrow> po_heap p' c = po_heap p c)"
  using assms
proof (induction evs arbitrary: p)
  case (Cons x evs)
  obtain ev c where x: "x = (ev, c)" by (cases x)
  let ?p = "on_channel c (set_revents ev) p"
  have has: "\<forall>(ev, c) \<in> set evs. hasChannel c ?p"
    using Cons.prems(2) by (fastforce simp: hasChannel_def on_channel_def set_revents_def)
  have "distinct (map snd evs)" and c: "c \<notin> snd ` set evs"
    using Cons.prems(3) x by auto
  then obtain p' where p': "epoll_fill_loop evs ?p = Inr (map snd evs, p')" "epoll_ok interest p'"
      "ep_events_size p' = ep_events_size p" "ep_kernel p' = ep_kernel p"
      "po_channels p' = po_channels p"
      "\<forall>(ev, c) \<in> set evs. po_heap p' c = set_revents ev (po_heap ?p c)"
      "\<forall>d. d \<notin> snd ` set evs \<longrightarrow> po_heap p' d = po_heap ?p d"
    using Cons.IH [OF epoll_ok_set_revents [OF Cons.prems(1)] has] by (auto simp: on_channel_def)
  moreover have "po_heap p' d = set_revents e (po_heap p d)" if "(e, d) \<in> set evs" for e d
  proof -
    have "d \<noteq> c"
      using c that by force
    then show ?thesis
      using p'(6) that by (auto simp: on_channel_def)
  qed
  moreover have "po_channels p (ch_fd (po_heap p c)) = Some c"
    using Cons.prems(2) x by (simp add: hasChannel_def)
  ultimately show ?case
    using c x by (auto simp: on_channel_def)
qed simp

subsection \<open>Properties\<close>

text \<open>C9: Over any kernel whose \<open>epoll_ctl\<close> behaves as documented, every sequence of interest
  changes on channels with distinct descriptors passes all assertions and system calls of the
  \<open>epoll\<close> poller, and afterwards the kernel watches every channel that has events for exactly
  those events.\<close>

theorem epoll_watches:
  assumes "epoll_kernel epoll_ctl interest" and "epoll_ok interest p"
    and "inj_on (\<lambda>c. ch_fd (po_heap p c)) C" and "\<forall>c\<in>C. may_use (po_heap p c) (po_channels p) c"
    and "fst ` set ops \<subseteq> C"
  shows "\<exists>p'. run_ops (epoll_channel_op epoll_ctl) ops p = Inr p' \<and> epoll_ok interest p' \<and>
    (\<forall>c \<in> fst ` set ops. ch_events (po_heap p' c) \<noteq> 0 \<longrightarrow>
       epoll_watched interest p' (ch_fd (po_heap p c)) = Some (ch_events (po_heap p' c)))"
  using epoll_kernel.interest_changes [OF assms] .

definition sample_epoll :: "(int \<rightharpoonup> i32 \<times> nat) epoll_poller" where
  "sample_epoll = \<lparr>po_heap = (\<lambda>c. new_channel (int c)), po_channels = Map.empty,
     ep_events_size = kInitEventListSize, ep_kernel = Map.empty\<rparr>"

lemma sample_epoll_ok: "epoll_ok (\<lambda>k. k) sample_epoll"
  by (simp add: sample_epoll_def epoll_ok_def epoll_entry_def)

theorem epoll_watches_witness:
  "\<exists>p'. run_ops (epoll_channel_op table_epoll_ctl)
       [(3, EnableReading), (4, EnableReading), (3, EnableWriting), (4, DisableAll)] sample_epoll = Inr p' \<and>
     (ch_events (po_heap p' 3) \<noteq> 0 \<longrightarrow> epoll_watched (\<lambda>k. k) p' 3 = Some (ch_events (po_heap p' 3)))"
  using epoll_watches [of table_epoll_ctl "\<lambda>k. k" sample_epoll "{3, 4}"
      "[(3, EnableReading), (4, EnableReading), (3, EnableWriting), (4, DisableAll)]"]
    tk.epoll_kernel_axioms sample_epoll_ok
  by (simp add: sample_epoll_def may_use_def new_channel_def channel_ok_def) auto

text \<open>When a watched channel is disabled and removed, which is how every owner takes leave of
  the loop, both steps succeed, the descriptor is unknown to the poller and to the kernel
  afterwards, and nothing changes for the others.\<close>

theorem epoll_retire:
  assumes "epoll_kernel epoll_ctl interest" and "epoll_ok interest p"
    and "po_channels p fd = Some c" and "channel_ok (po_heap p c)" and "0 \<le> fd"
    and "epoll_watched interest p fd \<noteq> None"
  shows "\<exists>p' p''. epoll_channel_op epoll_ctl DisableAll c p = Inr p' \<and>
    epoll_channel_remove epoll_ctl c p' = Inr p'' \<and> epoll_ok interest p'' \<and>
    po_channels p'' = (po_channels p)(fd := None) \<and> epoll_watched interest p'' fd = None \<and>
    (\<forall>g. g \<noteq> fd \<longrightarrow> epoll_watched interest p'' g = epoll_watched interest p g)"
  using epoll_kernel.retirement [OF assms] .

definition sample_epoll2 :: "(int \<rightharpoonup> i32 \<times> nat) epoll_poller" where
  "sample_epoll2 = sample_epoll\<lparr>po_heap := (\<lambda>c. set_index kAdded (enableReading (new_channel (int c)))),
     po_channels := [7 \<mapsto> 7], ep_kernel := [7 \<mapsto> (kReadEvent, 7)]\<rparr>"

lemma sample_epoll2_facts:
  "epoll_ok (\<lambda>k. k) sample_epoll2" "po_channels sample_epoll2 7 = Some 7"
  "channel_ok (po_heap sample_epoll2 7)" "epoll_watched (\<lambda>k. k) sample_epoll2 7 \<noteq> None"
  by (auto simp: sample_epoll2_def sample_epoll_def epoll_ok_def epoll_entry_def epoll_watched_def
      channel_ops new_channel_def set_index_def channel_ok_def event_consts poll_flags
      split: if_splits)

theorem epoll_retire_witness:
  "\<exists>p' p''. epoll_channel_op table_epoll_ctl DisableAll 7 sample_epoll2 = Inr p' \<and>
     epoll_channel_remove table_epoll_ctl 7 p' = Inr p'' \<and> epoll_watched (\<lambda>k. k) p'' 7 = None"
  using epoll_retire [OF tk.epoll_kernel_axioms sample_epoll2_facts(1,2,3) _ sample_epoll2_facts(4)]
  by auto

text \<open>A poll returns exactly the channels the kernel reported, in its order, each with its
  reported events stored; the event array doubles exactly when it was full.\<close>

theorem epoll_poll_active:
  assumes "epoll_ok interest p" and "epoll_wait (ep_kernel p) (ep_events_size p) timeoutMs = Inr evs"
    and "length evs \<le> ep_events_size p" and "distinct (map snd evs)"
    and "\<forall>(ev, c) \<in> set evs. \<exists>e. interest (ep_kernel p) (ch_fd (po_heap p c)) = Some (e, c)"
    and "evs \<noteq> []"
  shows "\<exists>p'. epoll_poll epoll_wait timeoutMs p = Inr (map snd evs, p') \<and> epoll_ok interest p' \<and>
    (\<forall>(ev, c) \<in> set evs. po_heap p' c = set_revents ev (po_heap p c)) \<and>
    ep_events_size p' = (if length evs = ep_events_size p then 2 else 1) * ep_events_size p"
proof -
  have "\<forall>(ev, c) \<in> set evs. hasChannel c p"
  proof clarify
    fix ev c assume "(ev, c) \<in> set evs"
    then obtain e where e: "interest (ep_kernel p) (ch_fd (po_heap p c)) = Some (e, c)"
      using assms(5) by blast
    have "epoll_entry interest p (ch_fd (po_heap p c))"
      using assms(1) by (simp add: epoll_ok_def)
    with e show "hasChannel c p"
      by (auto simp: epoll_entry_def hasChannel_def split: option.splits if_splits)
  qed
  from epoll_fill_loop_ok [OF assms(1) this assms(4)] obtain p' where
      p': "epoll_fill_loop evs p = Inr (map snd evs, p')" "epoll_ok interest p'"
      "ep_events_size p' = ep_events_size p"
      "\<forall>(ev, c) \<in> set evs. po_heap p' c = set_revents ev (po_heap p c)"
    by blast
  have grown: "epoll_ok interest (p'\<lparr>ep_events_size := n\<rparr>)" for n
    using p'(2) unfolding epoll_ok_def epoll_entry_def
    by - (erule all_forward, auto split: option.splits if_splits)
  show ?thesis
    using assms p' grown by (auto simp: epoll_poll_def epoll_fillActiveChannels_def)
qed

theorem epoll_poll_active_witness:
  "\<exists>p'. epoll_poll (\<lambda>k n t. Inr [(1, 7)]) 10000 sample_epoll2 = Inr ([7], p') \<and>
     ch_revents (po_heap p' 7) = 1"
  using epoll_poll_active [of "\<lambda>k. k" sample_epoll2 "\<lambda>k n t. Inr [(1, 7)]" 10000 "[(1, 7)]"]
    sample_epoll2_facts(1)
  by (simp add: sample_epoll2_def sample_epoll_def set_index_def new_channel_def channel_ops
      kInitEventListSize_def set_revents_def) auto

end
