(* ===== verification/Poll_Poller.thy ===== *)
theory Poll_Poller
  imports Poller_Contract
begin

section \<open>\<open>poll\<close>: \<open>src/src/muduo/net/poller/PollPoller.cc\<close>\<close>

text \<open>
  This poller keeps an array of \<open>struct pollfd\<close>; a channel's index is its position there.  A
  channel without events stays in the array with its descriptor replaced by \<open>-fd-1\<close>, which
  \<open>poll(2)\<close> ignores, and removal swaps the last entry into the hole.  The system call is a
  parameter.
\<close>

record pollfd =
  pf_fd :: int
  pf_events :: "16 word"
  pf_revents :: "16 word"

record poll_poller = poller +
  pollfds :: "pollfd list"

text \<open>\<open>poll(2)\<close>: an error, or the number of ready entries and the \<open>revents\<close> of all entries.\<close>

type_synonym poll_call = "pollfd list \<Rightarrow> int \<Rightarrow> int + nat \<times> 16 word list"


definition poll_updateChannel :: "nat \<Rightarrow> poll_poller \<Rightarrow> poll_poller res" where
  "poll_updateChannel c p =
     (let ch = po_heap p c; fd = ch_fd ch; n = length (pollfds p) in
      if ch_index ch < 0 then
        asserting (po_channels p fd = None)
          (let pfd = \<lparr>pf_fd = fd, pf_events = ucast (ch_events ch), pf_revents = 0\<rparr>;
               p = p\<lparr>pollfds := pollfds p @ [pfd]\<rparr>;
               idx = int (length (pollfds p)) - 1;
               p = on_channel c (set_index idx) p in
           Inr (p\<lparr>po_channels := (po_channels p)(fd \<mapsto> c)\<rparr>))
      else
        asserting (po_channels p fd \<noteq> None)
          (asserting (po_channels p fd = Some c)
            (let idx = ch_index ch in
             asserting (0 \<le> idx \<and> idx < int n)
               (let pfd = pollfds p ! nat idx in
                asserting (pf_fd pfd = fd \<or> pf_fd pfd = - fd - 1)
                  (let pfd = \<lparr>pf_fd = if isNoneEvent ch then - fd - 1 else fd,
                              pf_events = ucast (ch_events ch), pf_revents = 0\<rparr> in
                   Inr (p\<lparr>pollfds := (pollfds p)[nat idx := pfd]\<rparr>))))))"

text \<open>\<open>iter_swap\<close> of two positions of the array.\<close>

definition swap_at :: "nat \<Rightarrow> nat \<Rightarrow> 'a list \<Rightarrow> 'a list" where
  "swap_at i j xs = xs[i := xs ! j, j := xs ! i]"

definition poll_removeChannel :: "nat \<Rightarrow> poll_poller \<Rightarrow> poll_poller res" where
  "poll_removeChannel c p =
     (let ch = po_heap p c; fd = ch_fd ch; idx = ch_index ch; n = length (pollfds p) in
      asserting (po_channels p fd \<noteq> None)
       (asserting (po_channels p fd = Some c)
        (asserting (isNoneEvent ch)
         (asserting (0 \<le> idx \<and> idx < int n)
          (let pfd = pollfds p ! nat idx in
           asserting (pf_fd pfd = - fd - 1 \<and> pf_events pfd = ucast (ch_events ch))
            (let p = p\<lparr>po_channels := (po_channels p)(fd := None)\<rparr> in
             if nat idx = n - 1 then Inr (p\<lparr>pollfds := butlast (pollfds p)\<rparr>)
             else
               let back = pf_fd (last (pollfds p));
                   fds = swap_at (nat idx) (n - 1) (pollfds p);
                   channelAtEnd = if back < 0 then - back - 1 else back in
               case po_channels p channelAtEnd of
                 None \<Rightarrow> Inl Undefined
               | Some d \<Rightarrow>
                   Inr ((on_channel d (set_index idx) p)\<lparr>pollfds := butlast fds\<rparr>)))))))"

fun poll_fillActiveChannels ::
  "nat \<Rightarrow> pollfd list \<Rightarrow> poll_poller \<Rightarrow> (nat list \<times> poll_poller) res" where
  "poll_fillActiveChannels numEvents [] p = Inr ([], p)"
| "poll_fillActiveChannels numEvents (pfd # pfds) p =
     (if numEvents = 0 then Inr ([], p)
      else if 0 <s pf_revents pfd then
        case po_channels p (pf_fd pfd) of
          None \<Rightarrow> Inl Assertion
        | Some c \<Rightarrow>
            asserting (ch_fd (po_heap p c) = pf_fd pfd)
              (bindR (poll_fillActiveChannels (numEvents - 1) pfds
                        (on_channel c (set_revents (scast (pf_revents pfd))) p))
                (\<lambda>(active, p). Inr (c # active, p)))
      else poll_fillActiveChannels numEvents pfds p)"

definition poll_poll :: "poll_call \<Rightarrow> int \<Rightarrow> poll_poller \<Rightarrow> (nat list \<times> poll_poller) res" where
  "poll_poll poll timeoutMs p =
     (case poll (pollfds p) timeoutMs of
        Inl savedErrno \<Rightarrow> Inr ([], p)
      | Inr (numEvents, revents) \<Rightarrow>
          let p = p\<lparr>pollfds := map2 (\<lambda>pfd r. pfd\<lparr>pf_revents := r\<rparr>) (pollfds p) revents\<rparr> in
          if 0 < numEvents then poll_fillActiveChannels numEvents (pollfds p) p
          else Inr ([], p))"

definition poll_channel_op :: "chan_op \<Rightarrow> nat \<Rightarrow> poll_poller \<Rightarrow> poll_poller res" where
  "poll_channel_op op c p = poll_updateChannel c (on_channel c (apply_op op) p)"

definition poll_channel_remove :: "nat \<Rightarrow> poll_poller \<Rightarrow> poll_poller res" where
  "poll_channel_remove c p =
     bindR (channel_remove (po_heap p c))
       (\<lambda>ch. poll_removeChannel c (on_channel c (\<lambda>_. ch) p))"

subsection \<open>The invariant of the array\<close>

definition real_fd :: "int \<Rightarrow> int" where
  "real_fd f = (if f < 0 then - f - 1 else f)"

definition poll_slot :: "poll_poller \<Rightarrow> int \<Rightarrow> nat \<Rightarrow> bool" where
  "poll_slot p fd c \<longleftrightarrow>
     (let ch = po_heap p c; pfd = pollfds p ! nat (ch_index ch) in
      0 \<le> fd \<and> ch_fd ch = fd \<and> channel_ok ch \<and> 0 \<le> ch_index ch \<and>
      nat (ch_index ch) < length (pollfds p) \<and>
      pf_events pfd = ucast (ch_events ch) \<and>
      (pf_fd pfd = fd \<or> pf_fd pfd = - fd - 1 \<and> ch_events ch = 0))"

definition poll_ok :: "poll_poller \<Rightarrow> bool" where
  "poll_ok p \<longleftrightarrow>
     (\<forall>fd c. po_channels p fd = Some c \<longrightarrow> poll_slot p fd c) \<and>
     (\<forall>i < length (pollfds p). \<exists>c. po_channels p (real_fd (pf_fd (pollfds p ! i))) = Some c \<and>
        ch_index (po_heap p c) = int i)"

definition poll_watched :: "poll_poller \<Rightarrow> int \<rightharpoonup> i32" where
  "poll_watched p fd =
     (if fd < 0 then None
      else map_option (\<lambda>pfd. ucast (pf_events pfd)) (find (\<lambda>pfd. pf_fd pfd = fd) (pollfds p)))"

lemma real_fd_simps [simp]: "0 \<le> fd \<Longrightarrow> real_fd fd = fd" "0 \<le> fd \<Longrightarrow> real_fd (- fd - 1) = fd"
  by (simp_all add: real_fd_def)

lemma poll_ok_known:
  assumes "poll_ok p" and "po_channels p fd = Some c"
  defines "i \<equiv> nat (ch_index (po_heap p c))"
  shows "0 \<le> fd" "ch_fd (po_heap p c) = fd" "channel_ok (po_heap p c)"
    "0 \<le> ch_index (po_heap p c)" "i < length (pollfds p)"
    "pf_events (pollfds p ! i) = ucast (ch_events (po_heap p c))"
    "real_fd (pf_fd (pollfds p ! i)) = fd"
    "pf_fd (pollfds p ! i) = fd \<or> pf_fd (pollfds p ! i) = - fd - 1 \<and> ch_events (po_heap p c) = 0"
proof -
  have "poll_slot p fd c"
    using assms(1,2) by (simp add: poll_ok_def)
  then show "0 \<le> fd" "ch_fd (po_heap p c) = fd" "channel_ok (po_heap p c)"
    "0 \<le> ch_index (po_heap p c)" "i < length (pollfds p)"
    "pf_events (pollfds p ! i) = ucast (ch_events (po_heap p c))"
    "real_fd (pf_fd (pollfds p ! i)) = fd"
    "pf_fd (pollfds p ! i) = fd \<or> pf_fd (pollfds p ! i) = - fd - 1 \<and> ch_events (po_heap p c) = 0"
    by (auto simp: poll_slot_def i_def Let_def)
qed

lemma poll_ok_slot:
  assumes "poll_ok p" and "i < length (pollfds p)"
  obtains c where "po_channels p (real_fd (pf_fd (pollfds p ! i))) = Some c"
    and "ch_index (po_heap p c) = int i"
  using assms by (auto simp: poll_ok_def)

lemma events_low_bits: "channel_ok ch \<Longrightarrow> bit (ch_events ch) n \<Longrightarrow> n < 3"
proof (rule ccontr)
  assume ok: "channel_ok ch" and bit: "bit (ch_events ch) n" and n: "\<not> n < 3"
  have "kReadEvent OR kWriteEvent = (mask 3 :: i32)"
    by (simp add: event_consts poll_flags mask_eq_exp_minus_1)
  with ok have "\<not> bit (ch_events ch AND NOT (mask 3)) n"
    by (simp add: channel_ok_def)
  with bit n show False
    by (auto simp: bit_simps dest: bit_imp_le_length)
qed

lemma ucast_events: "channel_ok ch \<Longrightarrow> ucast (ucast (ch_events ch) :: 16 word) = ch_events ch"
  by (rule bit_word_eqI) (auto simp: bit_simps dest: events_low_bits)

text \<open>The entry of a known channel is the only one for its descriptor.\<close>

lemma poll_watched_known:
  assumes "poll_ok p" and "po_channels p fd = Some c"
  shows "poll_watched p fd =
    (if pf_fd (pollfds p ! nat (ch_index (po_heap p c))) = fd
     then Some (ch_events (po_heap p c)) else None)"
proof -
  let ?i = "nat (ch_index (po_heap p c))"
  note known = poll_ok_known [OF assms]
  have only: "i = ?i" if i: "i < length (pollfds p)" "pf_fd (pollfds p ! i) = fd" for i
  proof -
    obtain d where "po_channels p (real_fd fd) = Some d" "ch_index (po_heap p d) = int i"
      using poll_ok_slot [OF assms(1) i(1)] i(2) by blast
    then show ?thesis
      using assms(2) known(1) by simp
  qed
  show ?thesis
  proof (cases "pf_fd (pollfds p ! ?i) = fd")
    case True
    have "\<not> (j < ?i \<and> pf_fd (pollfds p ! j) = fd)" for j
      using only [of j] known(5) by linarith
    with True have "find (\<lambda>pfd. pf_fd pfd = fd) (pollfds p) = Some (pollfds p ! ?i)"
      using known(5) by (auto simp: find_Some_iff)
    with True known(1,3,6) show ?thesis
      by (simp add: poll_watched_def ucast_events)
  next
    case False
    then have "find (\<lambda>pfd. pf_fd pfd = fd) (pollfds p) = None"
      using only unfolding find_None_iff in_set_conv_nth by blast
    with False known(1) show ?thesis
      by (simp add: poll_watched_def)
  qed
qed

lemma poll_watched_unknown:
  assumes "poll_ok p" and "po_channels p fd = None"
  shows "poll_watched p fd = None"
proof (cases "fd < 0")
  case False
  have "pf_fd pfd \<noteq> fd" if pfd: "pfd \<in> set (pollfds p)" for pfd
  proof -
    obtain i where "i < length (pollfds p)" "pollfds p ! i = pfd"
      using pfd by (auto simp: in_set_conv_nth)
    then obtain d where "po_channels p (real_fd (pf_fd pfd)) = Some d"
      using poll_ok_slot [OF assms(1)] by blast
    with assms(2) False show ?thesis
      by auto
  qed
  then have "find (\<lambda>pfd. pf_fd pfd = fd) (pollfds p) = None"
    by (auto simp: find_None_iff)
  then show ?thesis by (simp add: poll_watched_def)
qed (simp add: poll_watched_def)

text \<open>What is watched is determined by the entries of the known channels.\<close>

lemma poll_watched_frame:
  assumes "poll_ok p" and "poll_ok p'" and "po_channels p' fd = po_channels p fd"
    and "\<And>c. po_channels p fd = Some c \<Longrightarrow>
      pf_fd (pollfds p' ! nat (ch_index (po_heap p' c))) =
        pf_fd (pollfds p ! nat (ch_index (po_heap p c))) \<and>
      ch_events (po_heap p' c) = ch_events (po_heap p c)"
  shows "poll_watched p' fd = poll_watched p fd"
proof (cases "po_channels p fd")
  case None
  with assms show ?thesis by (simp add: poll_watched_unknown)
next
  case (Some c)
  with assms poll_watched_known [OF assms(1) Some] poll_watched_known [OF assms(2), of fd c]
  show ?thesis by simp
qed

subsection \<open>Adding and changing\<close>

lemma poll_op_new:
  fixes op :: chan_op and c :: nat and p :: poll_poller
  assumes ok: "poll_ok p" and free: "po_channels p fd = None" "ch_index (po_heap p c) = -1"
    and ch: "ch_fd (po_heap p c) = fd" "0 \<le> fd" "channel_ok (po_heap p c)"
  defines "ch' \<equiv> set_index (int (length (pollfds p))) (apply_op op (po_heap p c))"
  defines "p' \<equiv> p\<lparr>po_heap := (po_heap p)(c := ch'), po_channels := (po_channels p)(fd \<mapsto> c),
    pollfds := pollfds p @ [\<lparr>pf_fd = fd, pf_events = ucast (ch_events ch'), pf_revents = 0\<rparr>]\<rparr>"
  shows "poll_channel_op op c p = Inr p'" and "poll_ok p'"
proof -
  show "poll_channel_op op c p = Inr p'"
    using free ch by (simp add: poll_channel_op_def poll_updateChannel_def on_channel_def Let_def
        p'_def ch'_def set_index_def)
  have not_c: "d \<noteq> c" if "po_channels p g = Some d" for g d
    using poll_ok_known(4) [OF ok that] free(2) by auto
  have "poll_slot p' g d" if "po_channels p' g = Some d" for g d
  proof (cases "g = fd")
    case True
    with that ch show ?thesis
      by (simp add: p'_def ch'_def poll_slot_def Let_def set_index_def nth_append channel_ok_def)
        (use ch(3) apply_op_ok in \<open>auto simp: channel_ok_def\<close>)
  next
    case False
    with that have "po_channels p g = Some d"
      by (simp add: p'_def)
    with poll_ok_known [OF ok this] not_c show ?thesis
      by (auto simp: p'_def poll_slot_def Let_def nth_append)
  qed
  moreover have "\<exists>d. po_channels p' (real_fd (pf_fd (pollfds p' ! i))) = Some d \<and>
      ch_index (po_heap p' d) = int i" if "i < length (pollfds p')" for i
  proof (cases "i < length (pollfds p)")
    case True
    then obtain d where "po_channels p (real_fd (pf_fd (pollfds p ! i))) = Some d"
        "ch_index (po_heap p d) = int i"
      using poll_ok_slot [OF ok] by blast
    with True free not_c show ?thesis
      by (auto simp: p'_def nth_append)
  next
    case False
    with that have "i = length (pollfds p)"
      by (simp add: p'_def)
    with ch(2) show ?thesis
      by (simp add: p'_def ch'_def set_index_def)
  qed
  ultimately show "poll_ok p'"
    by (simp add: poll_ok_def)
qed

lemma poll_op_known:
  fixes op :: chan_op and c :: nat and p :: poll_poller
  assumes ok: "poll_ok p" and known: "po_channels p fd = Some c"
  defines "ch' \<equiv> apply_op op (po_heap p c)" and "i \<equiv> nat (ch_index (po_heap p c))"
  defines "p' \<equiv> p\<lparr>po_heap := (po_heap p)(c := ch'),
    pollfds := (pollfds p)[i := \<lparr>pf_fd = if isNoneEvent ch' then - fd - 1 else fd,
                                pf_events = ucast (ch_events ch'), pf_revents = 0\<rparr>]\<rparr>"
  shows "poll_channel_op op c p = Inr p'" and "poll_ok p'"
proof -
  note c = poll_ok_known [OF ok known, folded i_def]
  have "ch_index (po_heap p c) < int (length (pollfds p))"
    using c(4,5) by (simp add: i_def nat_less_iff)
  then show "poll_channel_op op c p = Inr p'"
    using known c by (auto simp: poll_channel_op_def poll_updateChannel_def on_channel_def Let_def
        p'_def ch'_def i_def)
  have "poll_slot p' g d" if g: "po_channels p' g = Some d" for g d
  proof (cases "g = fd")
    case True
    with g known c show ?thesis
      by (auto simp: p'_def ch'_def i_def poll_slot_def Let_def isNoneEvent_def kNoneEvent_def)
  next
    case False
    have d: "po_channels p g = Some d"
      using g by (simp add: p'_def)
    note d' = poll_ok_known [OF ok d]
    have "d \<noteq> c" and "nat (ch_index (po_heap p d)) \<noteq> i"
      using d'(2,7) c(2,7) False by auto
    with d' show ?thesis
      by (auto simp: p'_def poll_slot_def Let_def)
  qed
  moreover have "\<exists>d. po_channels p' (real_fd (pf_fd (pollfds p' ! j))) = Some d \<and>
      ch_index (po_heap p' d) = int j" if j: "j < length (pollfds p')" for j
  proof (cases "j = i")
    case True
    with c known show ?thesis
      by (simp add: p'_def ch'_def i_def)
  next
    case False
    have "j < length (pollfds p)"
      using j by (simp add: p'_def)
    then obtain d where d: "po_channels p (real_fd (pf_fd (pollfds p ! j))) = Some d"
        "ch_index (po_heap p d) = int j"
      using poll_ok_slot [OF ok] by blast
    with False have "d \<noteq> c"
      by (auto simp: i_def)
    with False d show ?thesis
      by (simp add: p'_def)
  qed
  ultimately show "poll_ok p'"
    by (simp add: poll_ok_def)
qed

subsection \<open>Removing\<close>

lemma nth_butlast_swap_at:
  "length xs = Suc m \<Longrightarrow> i < m \<Longrightarrow> j < m \<Longrightarrow>
     butlast (swap_at i m xs) ! j = (if j = i then xs ! m else xs ! j)"
  by (auto simp: swap_at_def nth_butlast)

lemma length_swap_at [simp]: "length (swap_at i j xs) = length xs"
  by (simp add: swap_at_def)

text \<open>
  After a removal the entries of the other channels are the old ones, at their new positions.
\<close>

lemma poll_ok_moved:
  assumes ok: "poll_ok p" and known: "po_channels p fd = Some c"
    and chans: "po_channels p' = (po_channels p)(fd := None)"
    and len: "length (pollfds p') = length (pollfds p) - 1"
    and others: "\<And>g d. po_channels p g = Some d \<Longrightarrow> g \<noteq> fd \<Longrightarrow>
      same_but_index (po_heap p' d) (po_heap p d) \<and> 0 \<le> ch_index (po_heap p' d) \<and>
      nat (ch_index (po_heap p' d)) < length (pollfds p') \<and>
      pollfds p' ! nat (ch_index (po_heap p' d)) = pollfds p ! nat (ch_index (po_heap p d))"
    and slots: "\<And>j. j < length (pollfds p') \<Longrightarrow> \<exists>g d. po_channels p g = Some d \<and> g \<noteq> fd \<and>
      ch_index (po_heap p' d) = int j"
  shows "poll_ok p'" and "poll_watched p fd = None \<Longrightarrow> poll_watched p' = poll_watched p"
proof -
  have slot: "poll_slot p' g d" if g: "po_channels p' g = Some d" for g d
  proof -
    have "po_channels p g = Some d" "g \<noteq> fd"
      using g chans by (auto split: if_splits)
    with others [OF this] poll_ok_known [OF ok this(1)] show ?thesis
      by (auto simp: poll_slot_def Let_def same_but_index_fields same_but_index_ok)
  qed
  have "\<exists>d. po_channels p' (real_fd (pf_fd (pollfds p' ! j))) = Some d \<and>
      ch_index (po_heap p' d) = int j" if j: "j < length (pollfds p')" for j
  proof -
    obtain g d where d: "po_channels p g = Some d" "g \<noteq> fd" "ch_index (po_heap p' d) = int j"
      using slots [OF j] by blast
    then have "pollfds p' ! j = pollfds p ! nat (ch_index (po_heap p d))"
      using others [OF d(1,2)] by simp
    with d poll_ok_known(7) [OF ok d(1)] chans show ?thesis by auto
  qed
  with slot show ok': "poll_ok p'"
    by (simp add: poll_ok_def)
  show "poll_watched p' = poll_watched p" if out: "poll_watched p fd = None"
  proof
    fix g
    show "poll_watched p' g = poll_watched p g"
    proof (cases "g = fd")
      case True
      with out chans show ?thesis
        by (simp add: poll_watched_unknown [OF ok'])
    next
      case False
      with chans others show ?thesis
        by (intro poll_watched_frame [OF ok ok']) (auto simp: same_but_index_fields)
    qed
  qed
qed

lemma poll_remove_facts:
  assumes ok: "poll_ok p" and known: "po_channels p fd = Some c"
    and out: "poll_watched p fd = None"
  shows "pf_fd (pollfds p ! nat (ch_index (po_heap p c))) = - fd - 1"
    and "ch_index (po_heap p c) < int (length (pollfds p))"
    and "po_channels p g = Some d \<Longrightarrow> g \<noteq> fd \<Longrightarrow>
      nat (ch_index (po_heap p d)) \<noteq> nat (ch_index (po_heap p c))"
proof -
  note c = poll_ok_known [OF ok known]
  show "pf_fd (pollfds p ! nat (ch_index (po_heap p c))) = - fd - 1"
    using out c(8) poll_watched_known [OF ok known] by (auto split: if_splits)
  show "ch_index (po_heap p c) < int (length (pollfds p))"
    using c(4,5) by (simp add: nat_less_iff)
  show "nat (ch_index (po_heap p d)) \<noteq> nat (ch_index (po_heap p c))"
    if d: "po_channels p g = Some d" "g \<noteq> fd"
    using poll_ok_known(7) [OF ok d(1)] c(7) d(2) by auto
qed

lemma poll_remove_last:
  assumes ok: "poll_ok p" and known: "po_channels p fd = Some c" "ch_fd (po_heap p c) = fd"
    and none: "isNoneEvent (po_heap p c)" and out: "poll_watched p fd = None"
    and at_end: "nat (ch_index (po_heap p c)) = length (pollfds p) - 1"
  shows "\<exists>p'. poll_channel_remove c p = Inr p' \<and> poll_ok p' \<and>
    po_channels p' = (po_channels p)(fd := None) \<and>
    (\<forall>d. d \<noteq> c \<longrightarrow> same_but_index (po_heap p' d) (po_heap p d)) \<and> poll_watched p' = poll_watched p"
proof -
  let ?ch = "(po_heap p c)\<lparr>ch_addedToLoop := False\<rparr>"
  let ?i = "nat (ch_index (po_heap p c))" and ?n = "length (pollfds p)"
  note c = poll_ok_known [OF ok known(1)]
  note neg = poll_remove_facts(1) [OF ok known(1) out]
  note idx = poll_remove_facts(2) [OF ok known(1) out]
  note uniq = poll_remove_facts(3) [OF ok known(1) out]
  let ?p = "p\<lparr>po_heap := (po_heap p)(c := ?ch), po_channels := (po_channels p)(fd := None),
              pollfds := butlast (pollfds p)\<rparr>"
  have "poll_channel_remove c p = Inr ?p"
    using known none c idx neg at_end
    by (simp add: poll_channel_remove_def channel_remove_def poll_removeChannel_def on_channel_def
        Let_def isNoneEvent_def)
  moreover have others: "same_but_index (po_heap ?p d) (po_heap p d) \<and>
      0 \<le> ch_index (po_heap ?p d) \<and> nat (ch_index (po_heap ?p d)) < length (pollfds ?p) \<and>
      pollfds ?p ! nat (ch_index (po_heap ?p d)) = pollfds p ! nat (ch_index (po_heap p d))"
    if d: "po_channels p g = Some d" "g \<noteq> fd" for g d
  proof -
    have "d \<noteq> c"
      using uniq [OF d] by auto
    moreover have "nat (ch_index (po_heap p d)) < ?n - 1"
      using uniq [OF d] poll_ok_known(5) [OF ok d(1)] at_end by linarith
    ultimately show ?thesis
      using poll_ok_known(4) [OF ok d(1)] by (simp add: nth_butlast)
  qed
  moreover have "\<exists>g d. po_channels p g = Some d \<and> g \<noteq> fd \<and> ch_index (po_heap ?p d) = int j"
    if j: "j < length (pollfds ?p)" for j
  proof -
    have "j < ?n" "j \<noteq> ?i"
      using j at_end by simp_all
    then obtain d where d: "po_channels p (real_fd (pf_fd (pollfds p ! j))) = Some d"
        "ch_index (po_heap p d) = int j"
      using poll_ok_slot [OF ok] by blast
    with \<open>j \<noteq> ?i\<close> known(1) have "d \<noteq> c" "real_fd (pf_fd (pollfds p ! j)) \<noteq> fd"
      by auto
    with d show ?thesis by auto
  qed
  ultimately show ?thesis
    using poll_ok_moved [OF ok known(1), of ?p] out by (intro exI [of _ ?p]) auto
qed

lemma poll_remove_swap:
  assumes ok: "poll_ok p" and known: "po_channels p fd = Some c" "ch_fd (po_heap p c) = fd"
    and none: "isNoneEvent (po_heap p c)" and out: "poll_watched p fd = None"
    and inside: "nat (ch_index (po_heap p c)) \<noteq> length (pollfds p) - 1"
  shows "\<exists>p'. poll_channel_remove c p = Inr p' \<and> poll_ok p' \<and>
    po_channels p' = (po_channels p)(fd := None) \<and>
    (\<forall>d. d \<noteq> c \<longrightarrow> same_but_index (po_heap p' d) (po_heap p d)) \<and> poll_watched p' = poll_watched p"
proof -
  let ?ch = "(po_heap p c)\<lparr>ch_addedToLoop := False\<rparr>"
  let ?i = "nat (ch_index (po_heap p c))" and ?n = "length (pollfds p)"
  note c = poll_ok_known [OF ok known(1)]
  note neg = poll_remove_facts(1) [OF ok known(1) out]
  note idx = poll_remove_facts(2) [OF ok known(1) out]
  note uniq = poll_remove_facts(3) [OF ok known(1) out]
  obtain i where i': "ch_index (po_heap p c) = int i"
    using c(4) nonneg_int_cases by blast
  obtain m where m: "length (pollfds p) = Suc m"
    using c(5) by (cases ?n) auto
  have i: "i < m"
    using c(5) inside i' m by simp
  have ne: "pollfds p \<noteq> []"
    using m by auto
  obtain e where e: "po_channels p (real_fd (pf_fd (pollfds p ! m))) = Some e"
      "ch_index (po_heap p e) = int m"
    using poll_ok_slot [OF ok, of m] m lessI by metis
  have ec: "e \<noteq> c"
    using e(2) i i' by auto
  have efd: "real_fd (pf_fd (pollfds p ! m)) \<noteq> fd"
    using e(1) known(1) ec by auto
  let ?fds = "butlast (swap_at i m (pollfds p))"
  let ?p = "p\<lparr>po_heap := (po_heap p)(c := ?ch, e := set_index (int i) (po_heap p e)),
              po_channels := (po_channels p)(fd := None), pollfds := ?fds\<rparr>"
  have "poll_channel_remove c p = Inr ?p"
    using known none c idx neg inside e efd ec ne i' m
    by (simp add: poll_channel_remove_def channel_remove_def poll_removeChannel_def on_channel_def
        Let_def isNoneEvent_def real_fd_def last_conv_nth)
  moreover have others: "same_but_index (po_heap ?p d) (po_heap p d) \<and>
      0 \<le> ch_index (po_heap ?p d) \<and> nat (ch_index (po_heap ?p d)) < length (pollfds ?p) \<and>
      pollfds ?p ! nat (ch_index (po_heap ?p d)) = pollfds p ! nat (ch_index (po_heap p d))"
    if d: "po_channels p g = Some d" "g \<noteq> fd" for g d
  proof (cases "d = e")
    case True
    with e(2) ec i m show ?thesis
      by simp (simp add: set_index_def nth_butlast_swap_at)
  next
    case de: False
    have "d \<noteq> c"
      using uniq [OF d] by auto
    moreover have "ch_index (po_heap p d) \<noteq> int m"
      using poll_ok_known(7) [OF ok d(1)] e(1) d(1) de by auto
    then have "nat (ch_index (po_heap p d)) < m"
      using poll_ok_known(4,5) [OF ok d(1)] m by linarith
    ultimately show ?thesis
      using poll_ok_known(4) [OF ok d(1)] uniq [OF d] de i i' m by (simp add: nth_butlast_swap_at)
  qed
  moreover have "\<exists>g d. po_channels p g = Some d \<and> g \<noteq> fd \<and> ch_index (po_heap ?p d) = int j"
    if j: "j < length (pollfds ?p)" for j
  proof (cases "j = i")
    case True
    with e efd ec show ?thesis
      by (intro exI [of _ "real_fd (pf_fd (pollfds p ! m))"] exI [of _ e])
        (simp add: set_index_def)
  next
    case ji: False
    have "j < ?n" "j \<noteq> m"
      using j m by simp_all
    then obtain d where d: "po_channels p (real_fd (pf_fd (pollfds p ! j))) = Some d"
        "ch_index (po_heap p d) = int j"
      using poll_ok_slot [OF ok] by blast
    with ji known(1) e(2) \<open>j \<noteq> m\<close> i' have "d \<noteq> c" "d \<noteq> e" "real_fd (pf_fd (pollfds p ! j)) \<noteq> fd"
      by auto
    with d show ?thesis by auto
  qed
  ultimately show ?thesis
    using poll_ok_moved [OF ok known(1), of ?p] out by (intro exI [of _ ?p]) auto
qed

lemma poll_remove_cases:
  assumes "poll_ok p" and "po_channels p (ch_fd (po_heap p c)) = Some c"
    and "isNoneEvent (po_heap p c)" and "poll_watched p (ch_fd (po_heap p c)) = None"
  shows "\<exists>p'. poll_channel_remove c p = Inr p' \<and> poll_ok p' \<and>
    po_channels p' = (po_channels p)(ch_fd (po_heap p c) := None) \<and>
    (\<forall>d. d \<noteq> c \<longrightarrow> same_but_index (po_heap p' d) (po_heap p d)) \<and> poll_watched p' = poll_watched p"
  using poll_remove_last [OF assms(1,2) refl assms(3,4)] poll_remove_swap [OF assms(1,2) refl assms(3,4)]
  by blast

subsection \<open>The contract\<close>

lemma poll_op_law:
  fixes op :: chan_op and c :: nat and p :: poll_poller
  assumes ok: "poll_ok p" and use: "may_use (po_heap p c) (po_channels p) c"
  shows "\<exists>p'. poll_channel_op op c p = Inr p' \<and> poll_ok p' \<and>
    po_channels p' = (po_channels p)(ch_fd (po_heap p c) \<mapsto> c) \<and>
    same_but_index (po_heap p' c) (apply_op op (po_heap p c)) \<and>
    (\<forall>d. d \<noteq> c \<longrightarrow> po_heap p' d = po_heap p d) \<and>
    (ch_events (po_heap p' c) = 0 \<longrightarrow> poll_watched p (ch_fd (po_heap p c)) \<noteq> None \<longrightarrow>
       poll_watched p' (ch_fd (po_heap p c)) = None) \<and>
    (\<forall>fd. fd \<noteq> ch_fd (po_heap p c) \<longrightarrow> poll_watched p' fd = poll_watched p fd)"
proof -
  let ?fd = "ch_fd (po_heap p c)" and ?ch = "apply_op op (po_heap p c)"
  have ch: "0 \<le> ?fd" "channel_ok (po_heap p c)"
    using use by (simp_all add: may_use_def)
  consider (known) "po_channels p ?fd = Some c"
    | (new) "po_channels p ?fd = None" "ch_index (po_heap p c) = -1"
    using use by (auto simp: may_use_def)
  then show ?thesis
  proof cases
    case new
    let ?ch' = "set_index (int (length (pollfds p))) ?ch"
    let ?p = "p\<lparr>po_heap := (po_heap p)(c := ?ch'), po_channels := (po_channels p)(?fd \<mapsto> c),
      pollfds := pollfds p @ [\<lparr>pf_fd = ?fd, pf_events = ucast (ch_events ?ch'), pf_revents = 0\<rparr>]\<rparr>"
    note p = poll_op_new [OF ok new refl ch, of op]
    have "poll_watched ?p g = poll_watched p g" if g: "g \<noteq> ?fd" for g
    proof (rule poll_watched_frame [OF ok p(2)])
      show "po_channels ?p g = po_channels p g"
        using g by simp
      fix d assume d: "po_channels p g = Some d"
      then have "d \<noteq> c"
        using poll_ok_known(4) [OF ok d] new(2) by auto
      with poll_ok_known(4,5) [OF ok d]
      show "pf_fd (pollfds ?p ! nat (ch_index (po_heap ?p d))) =
            pf_fd (pollfds p ! nat (ch_index (po_heap p d))) \<and>
          ch_events (po_heap ?p d) = ch_events (po_heap p d)"
        by (simp add: nth_append)
    qed
    with p new show ?thesis
      by (intro exI [of _ ?p]) (simp add: poll_watched_unknown [OF ok])
  next
    case known
    let ?i = "nat (ch_index (po_heap p c))"
    let ?p = "p\<lparr>po_heap := (po_heap p)(c := ?ch),
      pollfds := (pollfds p)[?i := \<lparr>pf_fd = if isNoneEvent ?ch then - ?fd - 1 else ?fd,
                                   pf_events = ucast (ch_events ?ch), pf_revents = 0\<rparr>]\<rparr>"
    note p = poll_op_known [OF ok known, of op]
    have "poll_watched ?p g = poll_watched p g" if g: "g \<noteq> ?fd" for g
    proof (rule poll_watched_frame [OF ok p(2)])
      show "po_channels ?p g = po_channels p g"
        by simp
      fix d assume d: "po_channels p g = Some d"
      have "d \<noteq> c" "nat (ch_index (po_heap p d)) \<noteq> ?i"
        using poll_ok_known(2,7) [OF ok d] poll_ok_known(7) [OF ok known] g by auto
      then show "pf_fd (pollfds ?p ! nat (ch_index (po_heap ?p d))) =
            pf_fd (pollfds p ! nat (ch_index (po_heap p d))) \<and>
          ch_events (po_heap ?p d) = ch_events (po_heap p d)"
        by simp
    qed
    moreover have "poll_watched ?p ?fd = None" if "ch_events ?ch = 0"
      using poll_watched_known [OF p(2), of ?fd c] known poll_ok_known(1,5) [OF ok known] that
      by (simp add: isNoneEvent_def kNoneEvent_def)
    moreover have "(po_channels p)(?fd \<mapsto> c) = po_channels p"
      using known by auto
    ultimately show ?thesis
      using p by (intro exI [of _ ?p]) simp
  qed
qed

interpretation pp: poller_contract poll_ok po_heap po_channels poll_watched poll_channel_op
  poll_channel_remove
proof
  fix p :: poll_poller and fd c
  assume ok: "poll_ok p" and known: "po_channels p fd = Some c"
  show "ch_fd (po_heap p c) = fd"
    by (rule poll_ok_known(2) [OF ok known])
  assume "ch_events (po_heap p c) \<noteq> 0"
  then show "poll_watched p fd = Some (ch_events (po_heap p c))"
    using poll_ok_known(8) [OF ok known] by (simp add: poll_watched_known [OF ok known])
qed (rule poll_op_law poll_remove_cases; assumption)+

subsection \<open>Properties\<close>




text \<open>Disabling and removing a watched channel from the \<open>poll\<close> poller succeeds, and the swap of
  the last entry into the hole changes nothing for the other channels.\<close>

theorem poll_retire:
  assumes "poll_ok p" and "po_channels p fd = Some c" and "channel_ok (po_heap p c)" and "0 \<le> fd"
    and "poll_watched p fd \<noteq> None"
  shows "\<exists>p' p''. poll_channel_op DisableAll c p = Inr p' \<and> poll_channel_remove c p' = Inr p'' \<and>
    poll_ok p'' \<and> po_channels p'' = (po_channels p)(fd := None) \<and> poll_watched p'' fd = None \<and>
    (\<forall>g. g \<noteq> fd \<longrightarrow> poll_watched p'' g = poll_watched p g)"
  using pp.retire [OF assms] .

definition sample_poll :: poll_poller where
  "sample_poll = \<lparr>po_heap = (\<lambda>c. set_index (if c = 7 then 0 else 1) (enableReading (new_channel (int c)))),
     po_channels = [7 \<mapsto> 7, 9 \<mapsto> 9],
     pollfds = [\<lparr>pf_fd = 7, pf_events = 3, pf_revents = 0\<rparr>, \<lparr>pf_fd = 9, pf_events = 3, pf_revents = 0\<rparr>]\<rparr>"

lemma sample_poll_facts:
  "poll_ok sample_poll" "po_channels sample_poll 7 = Some 7" "channel_ok (po_heap sample_poll 7)"
  "poll_watched sample_poll 7 \<noteq> None" "poll_watched sample_poll 9 = Some 3"
  by (auto simp: sample_poll_def poll_ok_def poll_slot_def poll_watched_def less_Suc_eq
      channel_ops new_channel_def set_index_def channel_ok_def event_consts poll_flags split: if_splits)

theorem poll_retire_witness:
  "\<exists>p' p''. poll_channel_op DisableAll 7 sample_poll = Inr p' \<and> poll_channel_remove 7 p' = Inr p'' \<and>
     poll_watched p'' 7 = None \<and> poll_watched p'' 9 = Some 3"
  using poll_retire [OF sample_poll_facts(1,2,3) _ sample_poll_facts(4)] sample_poll_facts(5)
  by fastforce

end
