(* ===== verification/Tcp_Connection.thy ===== *)
theory Tcp_Connection
  imports Net_Buffer Channel
begin

section \<open>Connections: \<open>src/src/muduo/net/TcpConnection.cc\<close>\<close>

text \<open>
  A connection owns a socket, a channel and two buffers, and lives in one of four states.  The
  model is one record with these parts, the functors the connection has put into its loop's queue
  (\<open>c_tasks\<close>, first to run first), and the list of what it did to the outside (\<open>c_effects\<close>, in
  order): the callbacks it invoked, the bytes the kernel took, the calls on socket and poller.
  The user's callbacks are called last in every handler, so what they do to the connection are
  further steps.  Two system calls are parameters: \<open>write(2)\<close>, given the bytes offered, returns an
  \<open>errno\<close> or the number of bytes it took, and \<open>readv(2)\<close> as in \<open>Net_Buffer\<close>.
\<close>

datatype conn_state = kDisconnected | kConnecting | kConnected | kDisconnecting

datatype conn_task =
    SendTask "byte list"      \<comment> \<open>\<open>bind(&TcpConnection::sendInLoop, this, message)\<close>\<close>
  | ShutdownTask
  | ForceCloseTask
  | StartReadTask
  | StopReadTask
  | WriteCompleteTask         \<comment> \<open>\<open>bind(writeCompleteCallback_, shared_from_this())\<close>\<close>
  | HighWaterMarkTask nat     \<comment> \<open>\<open>bind(highWaterMarkCallback_, shared_from_this(), size)\<close>\<close>

datatype conn_effect =
    UpdateChannel i32         \<comment> \<open>\<open>loop_->updateChannel\<close> with the events of the channel\<close>
  | RemoveChannel
  | ConnectionCallback bool   \<comment> \<open>\<open>connectionCallback_\<close>, with what \<open>connected()\<close> returns then\<close>
  | MessageCallback
  | CloseConnCallback         \<comment> \<open>\<open>closeCallback_\<close>: the owner forgets the connection\<close>
  | WriteCompleteCallback
  | HighWaterMarkCallback nat
  | SocketWrite "byte list"   \<comment> \<open>bytes that \<open>write\<close> took\<close>
  | SocketShutdownWrite       \<comment> \<open>\<open>shutdown(fd, SHUT_WR)\<close>\<close>
  | RunForceCloseAfter int    \<comment> \<open>a timer that calls \<open>forceClose\<close>, delay in microseconds\<close>

type_synonym write_call = "byte list \<Rightarrow> int + nat"

definition EWOULDBLOCK :: int where "EWOULDBLOCK = 11"
definition EPIPE :: int where "EPIPE = 32"
definition ECONNRESET :: int where "ECONNRESET = 104"

record conn =
  c_state :: conn_state
  c_reading :: bool
  c_channel :: channel
  c_inputBuffer :: net_buffer
  c_outputBuffer :: net_buffer
  c_highWaterMark :: nat
  c_hasWriteComplete :: bool    \<comment> \<open>\<open>writeCompleteCallback_\<close> is set\<close>
  c_hasHighWaterMark :: bool    \<comment> \<open>\<open>highWaterMarkCallback_\<close> is set\<close>
  c_tasks :: "conn_task list"
  c_effects :: "conn_effect list"

subsection \<open>Pieces the member functions share\<close>

definition effect :: "conn_effect \<Rightarrow> conn \<Rightarrow> conn" where
  "effect e c = c\<lparr>c_effects := c_effects c @ [e]\<rparr>"

definition queueInLoop :: "conn_task \<Rightarrow> conn \<Rightarrow> conn" where
  "queueInLoop t c = c\<lparr>c_tasks := c_tasks c @ [t]\<rparr>"

definition setState :: "conn_state \<Rightarrow> conn \<Rightarrow> conn" where
  "setState s c = c\<lparr>c_state := s\<rparr>"

text \<open>An operation of the channel that ends in \<open>loop_->updateChannel\<close>.\<close>

definition on_conn_channel :: "(channel \<Rightarrow> channel) \<Rightarrow> conn \<Rightarrow> conn" where
  "on_conn_channel f c =
     effect (UpdateChannel (ch_events (f (c_channel c)))) (c\<lparr>c_channel := f (c_channel c)\<rparr>)"

definition connected :: "conn \<Rightarrow> bool" where
  "connected c \<longleftrightarrow> c_state c = kConnected"

definition new_conn :: "int \<Rightarrow> conn res" where
  "new_conn sockfd =
     bindR (new_buffer kInitialSize) (\<lambda>input.
     bindR (new_buffer kInitialSize) (\<lambda>output.
     Inr \<lparr>c_state = kConnecting, c_reading = True,
          c_channel = fold setCallback [ReadCallback, WriteCallback, CloseCallback, ErrorCallback]
                        (new_channel sockfd),
          c_inputBuffer = input, c_outputBuffer = output, c_highWaterMark = 64 * 1024 * 1024,
          c_hasWriteComplete = False, c_hasHighWaterMark = False,
          c_tasks = [], c_effects = []\<rparr>))"

definition setWriteCompleteCallback :: "conn \<Rightarrow> conn" where
  "setWriteCompleteCallback c = c\<lparr>c_hasWriteComplete := True\<rparr>"

definition setHighWaterMarkCallback :: "nat \<Rightarrow> conn \<Rightarrow> conn" where
  "setHighWaterMarkCallback highWaterMark c =
     c\<lparr>c_hasHighWaterMark := True, c_highWaterMark := highWaterMark\<rparr>"

definition destroy_conn :: "conn \<Rightarrow> unit res" where
  "destroy_conn c = asserting (c_state c = kDisconnected) (Inr ())"

subsection \<open>Sending\<close>

text \<open>The first half of \<open>sendInLoop\<close>: the direct write, \<open>nwrote\<close> and \<open>faultError\<close>.\<close>

definition write_directly :: "conn \<Rightarrow> bool" where
  "write_directly c \<longleftrightarrow> \<not> isWriting (c_channel c) \<and> readableBytes (c_outputBuffer c) = 0"

definition fault_error :: "write_call \<Rightarrow> byte list \<Rightarrow> conn \<Rightarrow> bool" where
  "fault_error write data c \<longleftrightarrow>
     write_directly c \<and>
     (case write data of
        Inl err \<Rightarrow> err \<noteq> EWOULDBLOCK \<and> (err = EPIPE \<or> err = ECONNRESET)
      | Inr n \<Rightarrow> False)"

definition nwrote :: "write_call \<Rightarrow> byte list \<Rightarrow> conn \<Rightarrow> nat" where
  "nwrote write data c =
     (if write_directly c then case write data of Inl err \<Rightarrow> 0 | Inr n \<Rightarrow> n else 0)"

definition after_direct_write :: "write_call \<Rightarrow> byte list \<Rightarrow> conn \<Rightarrow> conn" where
  "after_direct_write write data c =
     (if write_directly c then
        case write data of
          Inl err \<Rightarrow> c
        | Inr n \<Rightarrow>
            let c1 = effect (SocketWrite (take n data)) c in
            if sz_sub (length data) n = 0 \<and> c_hasWriteComplete c1
            then queueInLoop WriteCompleteTask c1 else c1
      else c)"

definition sendInLoop :: "write_call \<Rightarrow> byte list \<Rightarrow> conn \<Rightarrow> conn res" where
  "sendInLoop write data c =
     (if c_state c = kDisconnected then Inr c
      else
        let c1 = after_direct_write write data c;
            n = nwrote write data c;
            remaining = sz_sub (length data) n in
        asserting (remaining \<le> length data)
          (if \<not> fault_error write data c \<and> 0 < remaining then
             let oldLen = readableBytes (c_outputBuffer c1);
                 c2 = (if c_highWaterMark c1 \<le> sz_add oldLen remaining \<and>
                          oldLen < c_highWaterMark c1 \<and> c_hasHighWaterMark c1
                       then queueInLoop (HighWaterMarkTask (sz_add oldLen remaining)) c1 else c1) in
             bindR (append_mem (drop n data) remaining (c_outputBuffer c2)) (\<lambda>out.
               let c3 = c2\<lparr>c_outputBuffer := out\<rparr> in
               Inr (if \<not> isWriting (c_channel c3) then on_conn_channel enableWriting c3 else c3))
           else Inr c1))"

text \<open>\<open>send(const StringPiece&)\<close>; the other overload with a pointer builds the view.\<close>

definition send :: "bool \<Rightarrow> write_call \<Rightarrow> string_piece \<Rightarrow> conn \<Rightarrow> conn res" where
  "send inLoopThread write message c =
     (if c_state c = kConnected then
        if inLoopThread then
          if int_to_size (sp_length message) \<le> length (sp_mem message)
          then sendInLoop write (take (int_to_size (sp_length message)) (sp_mem message)) c
          else Inl Undefined
        else bindR (as_string message) (\<lambda>s. Inr (queueInLoop (SendTask s) c))
      else Inr c)"

definition send_buffer ::
  "bool \<Rightarrow> write_call \<Rightarrow> net_buffer \<Rightarrow> conn \<Rightarrow> (net_buffer \<times> conn) res" where
  "send_buffer inLoopThread write buf c =
     (if c_state c = kConnected then
        if inLoopThread then
          bindR (sendInLoop write (slice_of (peek buf) (peek buf + readableBytes buf) (buf_mem buf)) c)
            (\<lambda>c. Inr (retrieveAll buf, c))
        else
          bindR (retrieveAllAsString buf) (\<lambda>(s, buf). Inr (buf, queueInLoop (SendTask s) c))
      else Inr (buf, c))"

subsection \<open>Closing\<close>

definition shutdownInLoop :: "conn \<Rightarrow> conn" where
  "shutdownInLoop c = (if \<not> isWriting (c_channel c) then effect SocketShutdownWrite c else c)"

definition shutdown :: "bool \<Rightarrow> conn \<Rightarrow> conn" where
  "shutdown inLoopThread c =
     (if c_state c = kConnected then
        let c1 = setState kDisconnecting c in
        if inLoopThread then shutdownInLoop c1 else queueInLoop ShutdownTask c1
      else c)"

definition handleClose :: "conn \<Rightarrow> conn res" where
  "handleClose c =
     asserting (c_state c = kConnected \<or> c_state c = kDisconnecting)
       (let c1 = on_conn_channel disableAll (setState kDisconnected c);
            c2 = effect (ConnectionCallback (connected c1)) c1 in
        Inr (effect CloseConnCallback c2))"

definition forceClose :: "conn \<Rightarrow> conn" where
  "forceClose c =
     (if c_state c = kConnected \<or> c_state c = kDisconnecting
      then queueInLoop ForceCloseTask (setState kDisconnecting c) else c)"

definition forceCloseWithDelay :: "int \<Rightarrow> conn \<Rightarrow> conn" where
  "forceCloseWithDelay delay c =
     (if c_state c = kConnected \<or> c_state c = kDisconnecting
      then effect (RunForceCloseAfter delay) (setState kDisconnecting c) else c)"

definition forceCloseInLoop :: "conn \<Rightarrow> conn res" where
  "forceCloseInLoop c =
     (if c_state c = kConnected \<or> c_state c = kDisconnecting then handleClose c else Inr c)"

fun stateToString :: "conn_state \<Rightarrow> string" where
  "stateToString kDisconnected = ''kDisconnected''"
| "stateToString kConnecting = ''kConnecting''"
| "stateToString kConnected = ''kConnected''"
| "stateToString kDisconnecting = ''kDisconnecting''"

subsection \<open>Reading on and off\<close>

definition startReadInLoop :: "conn \<Rightarrow> conn" where
  "startReadInLoop c =
     (if \<not> c_reading c \<or> \<not> isReading (c_channel c)
      then (on_conn_channel enableReading c)\<lparr>c_reading := True\<rparr> else c)"

definition stopReadInLoop :: "conn \<Rightarrow> conn" where
  "stopReadInLoop c =
     (if c_reading c \<or> isReading (c_channel c)
      then (on_conn_channel disableReading c)\<lparr>c_reading := False\<rparr> else c)"

definition startRead :: "bool \<Rightarrow> conn \<Rightarrow> conn" where
  "startRead inLoopThread c =
     (if inLoopThread then startReadInLoop c else queueInLoop StartReadTask c)"

definition stopRead :: "bool \<Rightarrow> conn \<Rightarrow> conn" where
  "stopRead inLoopThread c =
     (if inLoopThread then stopReadInLoop c else queueInLoop StopReadTask c)"

subsection \<open>Life cycle and event handlers\<close>

definition connectEstablished :: "conn \<Rightarrow> conn res" where
  "connectEstablished c =
     asserting (c_state c = kConnecting)
       (let c1 = setState kConnected c;
            c2 = c1\<lparr>c_channel := tie (c_channel c1)\<rparr>;
            c3 = on_conn_channel enableReading c2 in
        Inr (effect (ConnectionCallback (connected c3)) c3))"

definition connectDestroyed :: "conn \<Rightarrow> conn res" where
  "connectDestroyed c =
     (let c1 = (if c_state c = kConnected
                then let d = on_conn_channel disableAll (setState kDisconnected c) in
                     effect (ConnectionCallback (connected d)) d
                else c) in
      bindR (channel_remove (c_channel c1))
        (\<lambda>ch. Inr (effect RemoveChannel (c1\<lparr>c_channel := ch\<rparr>))))"

definition handleError :: "conn \<Rightarrow> conn" where
  "handleError c = c"

definition handleRead :: "readv_call \<Rightarrow> conn \<Rightarrow> conn res" where
  "handleRead readv c =
     bindR (readFd readv (c_inputBuffer c)) (\<lambda>(n, savedErrno, input).
       let c1 = c\<lparr>c_inputBuffer := input\<rparr> in
       if 0 < n then Inr (effect MessageCallback c1)
       else if n = 0 then handleClose c1
       else Inr (handleError c1))"

definition handleWrite :: "write_call \<Rightarrow> conn \<Rightarrow> conn res" where
  "handleWrite write c =
     (if isWriting (c_channel c) then
        let out = c_outputBuffer c;
            offered = slice_of (peek out) (peek out + readableBytes out) (buf_mem out) in
        case write offered of
          Inr n \<Rightarrow>
            if 0 < n then
              let c1 = effect (SocketWrite (take n offered)) c in
              bindR (retrieve n out) (\<lambda>out.
                let c2 = c1\<lparr>c_outputBuffer := out\<rparr> in
                if readableBytes out = 0 then
                  let c3 = on_conn_channel disableWriting c2;
                      c4 = (if c_hasWriteComplete c3 then queueInLoop WriteCompleteTask c3 else c3) in
                  Inr (if c_state c4 = kDisconnecting then shutdownInLoop c4 else c4)
                else Inr c2)
            else Inr c
        | Inl err \<Rightarrow> Inr c
      else Inr c)"

text \<open>One functor of the loop's queue.\<close>

fun run_task :: "write_call \<Rightarrow> conn_task \<Rightarrow> conn \<Rightarrow> conn res" where
  "run_task write (SendTask s) c = sendInLoop write s c"
| "run_task write ShutdownTask c = Inr (shutdownInLoop c)"
| "run_task write ForceCloseTask c = forceCloseInLoop c"
| "run_task write StartReadTask c = Inr (startReadInLoop c)"
| "run_task write StopReadTask c = Inr (stopReadInLoop c)"
| "run_task write WriteCompleteTask c = Inr (effect WriteCompleteCallback c)"
| "run_task write (HighWaterMarkTask n) c = Inr (effect (HighWaterMarkCallback n) c)"

text \<open>The channel's callbacks of a connection, as its constructor binds them.\<close>

fun run_callback :: "readv_call \<Rightarrow> write_call \<Rightarrow> chan_callback \<Rightarrow> conn \<Rightarrow> conn res" where
  "run_callback readv write ReadCallback c = handleRead readv c"
| "run_callback readv write WriteCallback c = handleWrite write c"
| "run_callback readv write CloseCallback c = handleClose c"
| "run_callback readv write ErrorCallback c = Inr (handleError c)"

subsection \<open>The connection as a transition system\<close>

text \<open>
  Everything that can happen to a connection: calls by the user from the loop's thread or from
  another one, the channel's callbacks, the functors of the loop's queue, and the owner's calls
  at the beginning and at the end.
\<close>

datatype conn_label =
    Send bool write_call string_piece
  | SendBuffer bool write_call net_buffer
  | Shutdown bool
  | ForceClose
  | ForceCloseWithDelay int
  | StartRead bool
  | StopRead bool
  | SetWriteCompleteCallback
  | SetHighWaterMarkCallback nat
  | Consume nat                                \<comment> \<open>the user retrieves from the input buffer\<close>
  | ConnectEstablished
  | ConnectDestroyed
  | Callback chan_callback readv_call write_call
  | RunTask write_call                         \<comment> \<open>the first functor of the queue runs\<close>

fun conn_step :: "conn_label \<Rightarrow> conn \<Rightarrow> conn res" where
  "conn_step (Send inLoop write message) c = send inLoop write message c"
| "conn_step (SendBuffer inLoop write buf) c =
     bindR (send_buffer inLoop write buf c) (\<lambda>(buf, c). Inr c)"
| "conn_step (Shutdown inLoop) c = Inr (shutdown inLoop c)"
| "conn_step ForceClose c = Inr (forceClose c)"
| "conn_step (ForceCloseWithDelay delay) c = Inr (forceCloseWithDelay delay c)"
| "conn_step (StartRead inLoop) c = Inr (startRead inLoop c)"
| "conn_step (StopRead inLoop) c = Inr (stopRead inLoop c)"
| "conn_step SetWriteCompleteCallback c = Inr (setWriteCompleteCallback c)"
| "conn_step (SetHighWaterMarkCallback n) c = Inr (setHighWaterMarkCallback n c)"
| "conn_step (Consume n) c =
     bindR (retrieve n (c_inputBuffer c)) (\<lambda>input. Inr (c\<lparr>c_inputBuffer := input\<rparr>))"
| "conn_step ConnectEstablished c = connectEstablished c"
| "conn_step ConnectDestroyed c = connectDestroyed c"
| "conn_step (Callback cb readv write) c = run_callback readv write cb c"
| "conn_step (RunTask write) c =
     (case c_tasks c of [] \<Rightarrow> Inr c | t # ts \<Rightarrow> run_task write t (c\<lparr>c_tasks := ts\<rparr>))"

text \<open>What the system calls promise, and arguments that exist in memory.\<close>

definition write_ok :: "write_call \<Rightarrow> bool" where
  "write_ok write \<longleftrightarrow> (\<forall>bs n. write bs = Inr n \<longrightarrow> n \<le> length bs)"

fun label_ok :: "conn_label \<Rightarrow> bool" where
  "label_ok (Send inLoop write message) \<longleftrightarrow> write_ok write \<and> piece_fits message"
| "label_ok (SendBuffer inLoop write buf) \<longleftrightarrow> write_ok write \<and> buf_ok buf"
| "label_ok (Callback cb readv write) \<longleftrightarrow> readv_ok readv \<and> write_ok write"
| "label_ok (RunTask write) \<longleftrightarrow> write_ok write"
| "label_ok _ \<longleftrightarrow> True"

text \<open>
  The bytes a step takes over for sending: those of \<open>sendInLoop\<close>, unless the connection is already
  down or the direct write fails for good.
\<close>

definition taken :: "write_call \<Rightarrow> byte list \<Rightarrow> conn \<Rightarrow> byte list" where
  "taken write data c =
     (if c_state c = kDisconnected \<or> fault_error write data c then [] else data)"

fun accepted :: "conn_label \<Rightarrow> conn \<Rightarrow> byte list" where
  "accepted (Send inLoop write message) c =
     (if c_state c = kConnected \<and> inLoop then taken write (piece_bytes message) c else [])"
| "accepted (SendBuffer inLoop write buf) c =
     (if c_state c = kConnected \<and> inLoop then taken write (readable buf) c else [])"
| "accepted (RunTask write) c =
     (case c_tasks c of SendTask s # ts \<Rightarrow> taken write s (c\<lparr>c_tasks := ts\<rparr>) | _ \<Rightarrow> [])"
| "accepted _ c = []"

fun sent_bytes :: "conn_effect list \<Rightarrow> byte list" where
  "sent_bytes [] = []"
| "sent_bytes (SocketWrite bs # es) = bs @ sent_bytes es"
| "sent_bytes (_ # es) = sent_bytes es"

text \<open>States that can be reached from a new connection, with the bytes taken over so far.\<close>

inductive conn_reach :: "conn \<Rightarrow> byte list \<Rightarrow> bool" where
  conn_init: "new_conn sockfd = Inr c \<Longrightarrow> conn_reach c []"
| conn_next: "conn_reach c acc \<Longrightarrow> label_ok l \<Longrightarrow> conn_step l c = Inr c' \<Longrightarrow>
     conn_reach c' (acc @ accepted l c)"

subsection \<open>The invariant\<close>

fun owner_callback :: "conn_effect \<Rightarrow> bool" where
  "owner_callback (ConnectionCallback up) \<longleftrightarrow> True"
| "owner_callback CloseConnCallback \<longleftrightarrow> True"
| "owner_callback _ \<longleftrightarrow> False"

definition callbacks_fit :: "conn_state \<Rightarrow> conn_effect list \<Rightarrow> bool" where
  "callbacks_fit s es \<longleftrightarrow>
     (case s of
        kConnecting \<Rightarrow> es = []
      | kConnected \<Rightarrow> es = [ConnectionCallback True]
      | kDisconnecting \<Rightarrow> es = [ConnectionCallback True]
      | kDisconnected \<Rightarrow> es = [ConnectionCallback True, ConnectionCallback False] \<or>
          es = [ConnectionCallback True, ConnectionCallback False, CloseConnCallback])"

fun task_ok :: "conn_task \<Rightarrow> bool" where
  "task_ok (SendTask s) \<longleftrightarrow> length s \<le> max_size"
| "task_ok _ \<longleftrightarrow> True"

definition conn_inv :: "conn \<Rightarrow> byte list \<Rightarrow> bool" where
  "conn_inv c acc \<longleftrightarrow>
     buf_ok (c_inputBuffer c) \<and> buf_ok (c_outputBuffer c) \<and>
     sent_bytes (c_effects c) @ readable (c_outputBuffer c) = acc \<and>
     (isWriting (c_channel c) \<longleftrightarrow> c_state c \<noteq> kDisconnected \<and> readable (c_outputBuffer c) \<noteq> []) \<and>
     callbacks_fit (c_state c) (filter owner_callback (c_effects c)) \<and>
     list_all task_ok (c_tasks c)"

lemma sent_bytes_append [simp]: "sent_bytes (xs @ ys) = sent_bytes xs @ sent_bytes ys"
  by (induction xs rule: sent_bytes.induct) auto

lemmas conn_parts = effect_def queueInLoop_def setState_def on_conn_channel_def connected_def

lemma conn_inv_buffers:
  "conn_inv c acc \<Longrightarrow> buf_ok (c_inputBuffer c)" "conn_inv c acc \<Longrightarrow> buf_ok (c_outputBuffer c)"
  by (simp_all add: conn_inv_def)

lemma new_conn_inv: "new_conn sockfd = Inr c \<Longrightarrow> conn_inv c []"
proof -
  assume new: "new_conn sockfd = Inr c"
  obtain b where b: "new_buffer kInitialSize = Inr b" "buf_ok b" "readable b = []"
    using new_buffer_ok [of kInitialSize] by (auto simp: kCheapPrepend_def kInitialSize_def max_size_def)
  then have "c = \<lparr>c_state = kConnecting, c_reading = True,
      c_channel = fold setCallback [ReadCallback, WriteCallback, CloseCallback, ErrorCallback]
                        (new_channel sockfd),
      c_inputBuffer = b, c_outputBuffer = b, c_highWaterMark = 64 * 1024 * 1024,
      c_hasWriteComplete = False, c_hasHighWaterMark = False, c_tasks = [], c_effects = []\<rparr>"
    using new by (simp add: new_conn_def)
  with b show ?thesis
    by (simp add: conn_inv_def callbacks_fit_def setCallback_def new_channel_def isWriting_def)
qed

lemma write_directly_iff:
  "conn_inv c acc \<Longrightarrow> c_state c \<noteq> kDisconnected \<Longrightarrow>
     write_directly c \<longleftrightarrow> readable (c_outputBuffer c) = []"
  by (auto simp: write_directly_def conn_inv_def buf_ok_sizes(1))

lemma nwrote_le: "write_ok write \<Longrightarrow> nwrote write data c \<le> length data"
  by (auto simp: nwrote_def write_ok_def split: sum.splits)

lemma remaining_eq:
  assumes "write_ok write" and "length data \<le> max_size"
  shows "sz_sub (length data) (nwrote write data c) = length data - nwrote write data c"
  using nwrote_le [OF assms(1)] assms(2) by (intro sz_sub_exact) (auto simp: max_size_def)

text \<open>The direct write only adds the bytes it took, and possibly a functor.\<close>

lemma after_direct_write_fields [simp]:
  "c_state (after_direct_write write data c) = c_state c"
  "c_channel (after_direct_write write data c) = c_channel c"
  "c_inputBuffer (after_direct_write write data c) = c_inputBuffer c"
  "c_outputBuffer (after_direct_write write data c) = c_outputBuffer c"
  "sent_bytes (c_effects (after_direct_write write data c)) =
     sent_bytes (c_effects c) @ take (nwrote write data c) data"
  "filter owner_callback (c_effects (after_direct_write write data c)) =
     filter owner_callback (c_effects c)"
  "list_all task_ok (c_tasks (after_direct_write write data c)) = list_all task_ok (c_tasks c)"
  by (auto simp: after_direct_write_def nwrote_def conn_parts Let_def split: sum.splits)

text \<open>The part of \<open>sendInLoop\<close> that buffers what was not written.\<close>

lemma sendInLoop_buffers:
  assumes inv: "conn_inv c acc" and w: "write_ok write" and len: "length data \<le> max_size"
    and result: "sendInLoop write data c = Inr c'" and live: "c_state c \<noteq> kDisconnected"
    and more: "\<not> fault_error write data c" "nwrote write data c < length data"
  shows "conn_inv c' (acc @ data)"
proof -
  let ?n = "nwrote write data c" and ?c1 = "after_direct_write write data c"
  have rem: "sz_sub (length data) ?n = length data - ?n"
    using remaining_eq [OF w len] by simp
  have empty: "readable (c_outputBuffer c) = []" if "0 < ?n"
    using that write_directly_iff [OF inv live] by (auto simp: nwrote_def split: if_splits)
  have out: "buf_ok (c_outputBuffer c)"
    using inv by (simp add: conn_inv_def)
  define C where "C = (let oldLen = readableBytes (c_outputBuffer ?c1) in
    if c_highWaterMark ?c1 \<le> sz_add oldLen (length data - ?n) \<and> oldLen < c_highWaterMark ?c1 \<and>
       c_hasHighWaterMark ?c1
    then queueInLoop (HighWaterMarkTask (sz_add oldLen (length data - ?n))) ?c1 else ?c1)"
  have C: "c_state C = c_state c" "c_channel C = c_channel c" "c_inputBuffer C = c_inputBuffer c"
      "c_outputBuffer C = c_outputBuffer c" "c_effects C = c_effects ?c1"
      "list_all task_ok (c_tasks C) = list_all task_ok (c_tasks c)"
    by (simp_all add: C_def queueInLoop_def Let_def)
  have "bindR (append_mem (drop ?n data) (length data - ?n) (c_outputBuffer C)) (\<lambda>out.
      Inr (if \<not> isWriting (c_channel C) then on_conn_channel enableWriting (C\<lparr>c_outputBuffer := out\<rparr>)
           else C\<lparr>c_outputBuffer := out\<rparr>)) = Inr c'"
    using more result live unfolding sendInLoop_def C_def by (simp add: Let_def rem cong: if_cong)
  then obtain out' where
      out': "append_mem (drop ?n data) (length data - ?n) (c_outputBuffer c) = Inr out'"
      and c': "c' = (if \<not> isWriting (c_channel c)
        then on_conn_channel enableWriting (C\<lparr>c_outputBuffer := out'\<rparr>) else C\<lparr>c_outputBuffer := out'\<rparr>)"
    unfolding bindR_eq_Inr C by auto
  then have out_ok: "buf_ok out'" "readable out' = readable (c_outputBuffer c) @ drop ?n data"
    using append_mem_content [OF out _ _ out'] len by auto
  have stream: "sent_bytes (c_effects c) @ take ?n data @ readable out' = acc @ data"
    using inv out_ok(2) empty by (cases "?n = 0") (auto simp: conn_inv_def)
  have "readable out' \<noteq> []"
    using out_ok(2) more(2) by simp
  with C c' more(1) live out_ok stream inv show ?thesis
    by (cases "isWriting (c_channel c)") (auto simp: conn_inv_def conn_parts)
qed

lemma sendInLoop_inv:
  assumes inv: "conn_inv c acc" and w: "write_ok write" and len: "length data \<le> max_size"
    and result: "sendInLoop write data c = Inr c'"
  shows "conn_inv c' (acc @ taken write data c)"
proof (cases "c_state c = kDisconnected")
  case True
  with inv result show ?thesis by (simp add: sendInLoop_def taken_def)
next
  case live: False
  let ?n = "nwrote write data c" and ?c1 = "after_direct_write write data c"
  have rem: "sz_sub (length data) ?n = length data - ?n" and le: "?n \<le> length data"
    using remaining_eq [OF w len] nwrote_le [OF w] by simp_all
  have empty: "readable (c_outputBuffer c) = []" if "0 < ?n"
    using that write_directly_iff [OF inv live] by (auto simp: nwrote_def split: if_splits)
  consider (fault) "fault_error write data c"
    | (complete) "\<not> fault_error write data c" "?n = length data"
    | (more) "\<not> fault_error write data c" "?n < length data"
    using le by linarith
  then show ?thesis
  proof cases
    case fault
    then have "c' = ?c1"
      using result live by (simp add: sendInLoop_def rem Let_def)
    moreover have "?n = 0"
      using fault by (auto simp: nwrote_def fault_error_def split: sum.splits)
    ultimately show ?thesis
      using fault inv by (simp add: conn_inv_def taken_def)
  next
    case complete
    then have c': "c' = ?c1"
      using result live rem by (simp add: sendInLoop_def Let_def)
    have "?n = 0 \<or> readable (c_outputBuffer c) = []"
      using empty by blast
    with complete live inv c' show ?thesis
      by (auto simp: conn_inv_def taken_def)
  next
    case more
    then show ?thesis
      using sendInLoop_buffers [OF inv w len result live] live by (simp add: taken_def)
  qed
qed

lemma shutdownInLoop_inv: "conn_inv c acc \<Longrightarrow> conn_inv (shutdownInLoop c) acc"
  by (simp add: conn_inv_def shutdownInLoop_def conn_parts)

lemma startReadInLoop_inv: "conn_inv c acc \<Longrightarrow> conn_inv (startReadInLoop c) acc"
  by (simp add: conn_inv_def startReadInLoop_def conn_parts)

lemma stopReadInLoop_inv: "conn_inv c acc \<Longrightarrow> conn_inv (stopReadInLoop c) acc"
  by (simp add: conn_inv_def stopReadInLoop_def conn_parts)

lemma handleClose_inv: "conn_inv c acc \<Longrightarrow> handleClose c = Inr c' \<Longrightarrow> conn_inv c' acc"
  by (auto simp: conn_inv_def handleClose_def conn_parts Let_def res_simps callbacks_fit_def)

lemma queueInLoop_inv: "conn_inv c acc \<Longrightarrow> task_ok t \<Longrightarrow> conn_inv (queueInLoop t c) acc"
  by (simp add: conn_inv_def conn_parts)

lemma effect_inv:
  "conn_inv c acc \<Longrightarrow> \<not> owner_callback e \<Longrightarrow> sent_bytes [e] = [] \<Longrightarrow> conn_inv (effect e c) acc"
  by (simp add: conn_inv_def conn_parts)

lemma disconnecting_inv:
  "conn_inv c acc \<Longrightarrow> c_state c = kConnected \<or> c_state c = kDisconnecting \<Longrightarrow>
     conn_inv (setState kDisconnecting c) acc"
  by (auto simp: conn_inv_def conn_parts callbacks_fit_def)

lemma callbacks_set_inv:
  "conn_inv c acc \<Longrightarrow> conn_inv (setWriteCompleteCallback c) acc"
  "conn_inv c acc \<Longrightarrow> conn_inv (setHighWaterMarkCallback n c) acc"
  by (simp_all add: conn_inv_def setWriteCompleteCallback_def setHighWaterMarkCallback_def)

lemma handleRead_inv:
  assumes inv: "conn_inv c acc" and "readv_ok readv" and result: "handleRead readv c = Inr c'"
  shows "conn_inv c' acc"
proof -
  obtain n e input where read: "readFd readv (c_inputBuffer c) = Inr (n, e, input)"
    using result by (auto simp: handleRead_def res_simps)
  then have "buf_ok input"
    using readFd_keeps_ok [OF _ assms(2)] conn_inv_buffers(1) [OF inv] by blast
  with inv have "conn_inv (c\<lparr>c_inputBuffer := input\<rparr>) acc"
    by (simp add: conn_inv_def)
  with read result show ?thesis
    by (auto simp: handleRead_def Let_def handleError_def effect_inv handleClose_inv split: if_splits)
qed

lemma handleWrite_inv:
  assumes inv: "conn_inv c acc" and w: "write_ok write" and result: "handleWrite write c = Inr c'"
  shows "conn_inv c' acc"
proof -
  let ?out = "c_outputBuffer c"
  have out: "buf_ok ?out"
    using inv by (simp add: conn_inv_def)
  have offered: "slice_of (peek ?out) (peek ?out + readableBytes ?out) (buf_mem ?out) = readable ?out"
    using peek_slice [OF out order_refl] out by (simp add: buf_ok_sizes(1))
  show ?thesis
  proof (cases "isWriting (c_channel c) \<and> (\<exists>n. write (readable ?out) = Inr n \<and> 0 < n)")
    case False
    with result inv show ?thesis
      by (auto simp: handleWrite_def Let_def offered split: if_splits sum.splits)
  next
    case True
    then obtain n where n: "write (readable ?out) = Inr n" "0 < n" "n \<le> length (readable ?out)"
      using w by (auto simp: write_ok_def)
    obtain out' where out': "retrieve n ?out = Inr out'" "buf_ok out'"
        "readable out' = drop n (readable ?out)"
      using retrieve_ok [OF out n(3)] .
    let ?c = "(effect (SocketWrite (take n (readable ?out))) c)\<lparr>c_outputBuffer := out'\<rparr>"
    have live: "c_state c \<noteq> kDisconnected"
      using True inv by (simp add: conn_inv_def)
    show ?thesis
    proof (cases "readable out' = []")
      case more: False
      then have "c' = ?c"
        using True result n out' by (auto simp: handleWrite_def Let_def offered buf_ok_sizes(1))
      with more inv out' live True show ?thesis
        by (simp add: conn_inv_def conn_parts)
    next
      case drained: True
      let ?d = "on_conn_channel disableWriting ?c"
      have "conn_inv ?d acc"
        using drained inv out' live by (simp add: conn_inv_def conn_parts)
      then have "conn_inv (if c_hasWriteComplete ?d then queueInLoop WriteCompleteTask ?d else ?d) acc"
        by (simp add: queueInLoop_inv)
      with True drained result n out' show ?thesis
        by (auto simp: handleWrite_def Let_def offered buf_ok_sizes(1) shutdownInLoop_inv
            split: if_splits)
    qed
  qed
qed

lemma forceCloseInLoop_inv:
  "conn_inv c acc \<Longrightarrow> forceCloseInLoop c = Inr c' \<Longrightarrow> conn_inv c' acc"
  by (auto simp: forceCloseInLoop_def handleClose_inv split: if_splits)

lemma run_task_inv:
  assumes "conn_inv c acc" and "write_ok write" and "task_ok t" and "run_task write t c = Inr c'"
  shows "conn_inv c' (acc @ (case t of SendTask s \<Rightarrow> taken write s c | _ \<Rightarrow> []))"
  using assms
  by (cases t) (auto simp: sendInLoop_inv shutdownInLoop_inv startReadInLoop_inv stopReadInLoop_inv
      effect_inv forceCloseInLoop_inv)

lemma run_callback_inv:
  assumes inv: "conn_inv c acc" and ok: "readv_ok readv" "write_ok write"
    and result: "run_callback readv write cb c = Inr c'"
  shows "conn_inv c' acc"
  using handleRead_inv [OF inv ok(1)] handleWrite_inv [OF inv ok(2)] handleClose_inv [OF inv]
    inv result
  by (cases cb) (simp_all add: handleError_def)

lemma send_inv:
  assumes inv: "conn_inv c acc" and ok: "write_ok write" "piece_fits message"
    and result: "send inLoop write message c = Inr c'"
  shows "conn_inv c' (acc @ accepted (Send inLoop write message) c)"
proof -
  have n: "int_to_size (sp_length message) = nat (sp_length message)"
    using ok(2) by (auto simp: piece_fits_def piece_ok_def)
  have small: "length (piece_bytes message) \<le> max_size"
    using ok(2) by (auto simp: piece_fits_def piece_ok_def piece_bytes_def max_size_def)
  show ?thesis
  proof (cases "c_state c = kConnected \<and> inLoop")
    case True
    then have "sendInLoop write (piece_bytes message) c = Inr c'"
      using result by (simp add: send_def piece_bytes_def n split: if_splits)
    with True sendInLoop_inv [OF inv ok(1) small] show ?thesis by simp
  next
    case False
    with result inv small show ?thesis
      by (auto simp: send_def as_string_ok [OF ok(2)] queueInLoop_inv split: if_splits)
  qed
qed

lemma send_buffer_inv:
  assumes inv: "conn_inv c acc" and ok: "write_ok write" "buf_ok buf"
    and result: "send_buffer inLoop write buf c = Inr (buf', c')"
  shows "conn_inv c' (acc @ accepted (SendBuffer inLoop write buf) c)"
proof -
  have data: "slice_of (peek buf) (peek buf + readableBytes buf) (buf_mem buf) = readable buf"
    using peek_slice [OF ok(2) order_refl] ok(2) by (simp add: buf_ok_sizes(1))
  have small: "length (readable buf) \<le> max_size"
    using ok(2) by (auto simp: buf_ok_sizes(4) buf_ok_def)
  show ?thesis
  proof (cases "c_state c = kConnected \<and> inLoop")
    case True
    then have "sendInLoop write (readable buf) c = Inr c'"
      using result by (auto simp: send_buffer_def data res_simps)
    with True sendInLoop_inv [OF inv ok(1) small] show ?thesis by simp
  next
    case False
    obtain b where "retrieveAllAsString buf = Inr (readable buf, b)"
      using retrieveAllAsString_ok [OF ok(2)] .
    with False result inv small show ?thesis
      by (auto simp: send_buffer_def queueInLoop_inv split: if_splits)
  qed
qed

lemma connectEstablished_inv:
  "conn_inv c acc \<Longrightarrow> connectEstablished c = Inr c' \<Longrightarrow> conn_inv c' acc"
  by (auto simp: conn_inv_def connectEstablished_def conn_parts Let_def res_simps callbacks_fit_def)

lemma isWriting_channel_remove: "channel_remove ch = Inr ch' \<Longrightarrow> isWriting ch' = isWriting ch"
  by (auto simp: channel_remove_def res_simps isWriting_def)

lemma connectDestroyed_inv:
  assumes inv: "conn_inv c acc" and result: "connectDestroyed c = Inr c'"
  shows "conn_inv c' acc"
proof -
  let ?d = "on_conn_channel disableAll (setState kDisconnected c)"
  define c1 where "c1 = (if c_state c = kConnected then effect (ConnectionCallback (connected ?d)) ?d else c)"
  have "conn_inv c1 acc"
    using inv by (auto simp: c1_def conn_inv_def conn_parts callbacks_fit_def)
  moreover obtain ch where "channel_remove (c_channel c1) = Inr ch"
      "c' = effect RemoveChannel (c1\<lparr>c_channel := ch\<rparr>)"
    using result unfolding connectDestroyed_def Let_def c1_def by (auto simp: res_simps)
  ultimately show ?thesis
    using isWriting_channel_remove by (auto simp: conn_inv_def effect_def)
qed

lemma conn_step_inv:
  assumes inv: "conn_inv c acc" and ok: "label_ok l" and step: "conn_step l c = Inr c'"
  shows "conn_inv c' (acc @ accepted l c)"
proof (cases l)
  case (Send inLoop w message)
  with assms send_inv show ?thesis by simp
next
  case (SendBuffer inLoop w buf)
  then obtain buf' where "send_buffer inLoop w buf c = Inr (buf', c')"
    using step by (auto simp: res_simps)
  from send_buffer_inv [OF inv _ _ this] SendBuffer ok show ?thesis by simp
next
  case (RunTask w)
  show ?thesis
  proof (cases "c_tasks c")
    case (Cons t ts)
    have "conn_inv (c\<lparr>c_tasks := ts\<rparr>) acc" "task_ok t"
      using inv Cons by (simp_all add: conn_inv_def)
    with run_task_inv [OF this(1) _ this(2)] RunTask Cons ok step show ?thesis
      by (cases t) auto
  qed (use RunTask inv step in simp)
next
  case (Consume n)
  then obtain input where input: "retrieve n (c_inputBuffer c) = Inr input"
      "c' = c\<lparr>c_inputBuffer := input\<rparr>"
    using step by (auto simp: res_simps)
  have "buf_ok input"
    using retrieve_keeps_ok [OF conn_inv_buffers(1) [OF inv] input(1)] .
  with Consume inv input(2) show ?thesis
    by (simp add: conn_inv_def)
next
  case (Callback cb r w)
  with run_callback_inv [OF inv, of r w cb c'] ok step show ?thesis by simp
next
  case ConnectDestroyed
  with assms connectDestroyed_inv show ?thesis by simp
next
  case ConnectEstablished
  with assms connectEstablished_inv show ?thesis by simp
qed (use inv step in \<open>auto simp: shutdown_def forceClose_def forceCloseWithDelay_def startRead_def
      stopRead_def Let_def disconnecting_inv shutdownInLoop_inv queueInLoop_inv effect_inv
      startReadInLoop_inv stopReadInLoop_inv callbacks_set_inv\<close>)

lemma conn_reach_inv: "conn_reach c acc \<Longrightarrow> conn_inv c acc"
  by (induction rule: conn_reach.induct) (simp_all add: new_conn_inv conn_step_inv)

subsection \<open>When the write side is shut down\<close>

definition emits_shutdown_only_idle :: "conn \<Rightarrow> conn \<Rightarrow> bool" where
  "emits_shutdown_only_idle c c' \<longleftrightarrow>
     (\<exists>es. c_effects c' = c_effects c @ es \<and>
        (SocketShutdownWrite \<in> set es \<longrightarrow> \<not> isWriting (c_channel c')))"

lemma idle_refl [simp]: "emits_shutdown_only_idle c c"
  by (simp add: emits_shutdown_only_idle_def)

lemma idle_no_shutdown:
  "c_effects c' = c_effects c @ es \<Longrightarrow> SocketShutdownWrite \<notin> set es \<Longrightarrow> emits_shutdown_only_idle c c'"
  by (simp add: emits_shutdown_only_idle_def)

lemma after_direct_write_effects:
  "\<exists>es. c_effects (after_direct_write write data c) = c_effects c @ es \<and> SocketShutdownWrite \<notin> set es"
  by (auto simp: after_direct_write_def conn_parts Let_def split: sum.splits)

lemma sendInLoop_idle:
  assumes "sendInLoop write data c = Inr c'"
  shows "emits_shutdown_only_idle c c'"
proof -
  obtain es where es: "c_effects (after_direct_write write data c) = c_effects c @ es"
      "SocketShutdownWrite \<notin> set es"
    using after_direct_write_effects by blast
  have "c_effects c' \<in> (\<lambda>xs. c_effects (after_direct_write write data c) @ xs) ` {[], [UpdateChannel (ch_events (enableWriting (c_channel c)))]} \<or> c' = c"
    using assms by (auto simp: sendInLoop_def Let_def conn_parts res_simps split: if_splits)
  with es show ?thesis
    by (auto simp: emits_shutdown_only_idle_def)
qed

lemma shutdownInLoop_idle: "emits_shutdown_only_idle c (shutdownInLoop c)"
  by (auto simp: emits_shutdown_only_idle_def shutdownInLoop_def conn_parts)

lemma handleClose_idle: "handleClose c = Inr c' \<Longrightarrow> emits_shutdown_only_idle c c'"
  by (auto simp: emits_shutdown_only_idle_def handleClose_def conn_parts Let_def res_simps)

lemma handleWrite_idle: "handleWrite write c = Inr c' \<Longrightarrow> emits_shutdown_only_idle c c'"
  by (auto simp: emits_shutdown_only_idle_def handleWrite_def shutdownInLoop_def conn_parts Let_def
      res_simps split: if_splits sum.splits)

lemma handleRead_idle:
  assumes "handleRead readv c = Inr c'"
  shows "emits_shutdown_only_idle c c'"
proof -
  obtain n e input where "readFd readv (c_inputBuffer c) = Inr (n, e, input)"
    using assms by (auto simp: handleRead_def res_simps)
  with assms handleClose_idle [of "c\<lparr>c_inputBuffer := input\<rparr>" c'] show ?thesis
    by (auto simp: handleRead_def Let_def handleError_def conn_parts emits_shutdown_only_idle_def
        split: if_splits)
qed

lemma run_task_idle:
  assumes "run_task write t c = Inr c'"
  shows "emits_shutdown_only_idle c c'"
proof (cases t)
  case (SendTask s)
  with assms sendInLoop_idle show ?thesis by simp
next
  case ShutdownTask
  with assms shutdownInLoop_idle show ?thesis by auto
next
  case ForceCloseTask
  with assms handleClose_idle show ?thesis
    by (auto simp: forceCloseInLoop_def split: if_splits)
qed (use assms in \<open>auto simp: startReadInLoop_def stopReadInLoop_def conn_parts
      emits_shutdown_only_idle_def split: if_splits\<close>)

lemma conn_step_idle:
  assumes "conn_step l c = Inr c'"
  shows "emits_shutdown_only_idle c c'"
proof (cases l)
  case (Send inLoop w message)
  with assms sendInLoop_idle show ?thesis
    by (auto simp: send_def res_simps conn_parts emits_shutdown_only_idle_def split: if_splits)
next
  case (SendBuffer inLoop w buf)
  with assms sendInLoop_idle show ?thesis
    by (auto simp: send_buffer_def res_simps conn_parts emits_shutdown_only_idle_def split: if_splits)
next
  case (Shutdown inLoop)
  with assms shutdownInLoop_idle [of "setState kDisconnecting c"] show ?thesis
    by (auto simp: shutdown_def Let_def conn_parts emits_shutdown_only_idle_def)
next
  case (Callback cb r w)
  with assms handleRead_idle handleWrite_idle handleClose_idle show ?thesis
    by (cases cb) (auto simp: handleError_def)
next
  case (RunTask w)
  with assms run_task_idle [of w _ "c\<lparr>c_tasks := tl (c_tasks c)\<rparr>" c'] show ?thesis
    by (cases "c_tasks c") (auto simp: emits_shutdown_only_idle_def)
qed (use assms in \<open>auto simp: forceClose_def forceCloseWithDelay_def startRead_def stopRead_def
      startReadInLoop_def stopReadInLoop_def connectEstablished_def connectDestroyed_def res_simps
      setWriteCompleteCallback_def setHighWaterMarkCallback_def
      conn_parts Let_def emits_shutdown_only_idle_def split: if_splits\<close>)

end
