(* ===== verification/Connection_Properties.thy ===== *)
theory Connection_Properties
  imports Tcp_Connection
begin

section \<open>What a connection guarantees\<close>

text \<open>
  The properties of \<open>Tcp_Connection\<close>: integrity of the outgoing stream, the order of shutting down,
  the discipline of the callbacks, the high-water mark, progress, and the two ways to reach a
  failed assertion when a connection is destroyed.
\<close>

subsection \<open>Sample runs\<close>

fun run_labels :: "conn_label list \<Rightarrow> conn \<Rightarrow> conn res" where
  "run_labels [] c = Inr c"
| "run_labels (l # ls) c = bindR (conn_step l c) (run_labels ls)"

definition sample_conn :: conn where
  "sample_conn = \<lparr>c_state = kConnecting, c_reading = True,
     c_channel = fold setCallback [ReadCallback, WriteCallback, CloseCallback, ErrorCallback]
                   (new_channel 5),
     c_inputBuffer = \<lparr>buf_mem = replicate 1032 0, readerIndex = 8, writerIndex = 8\<rparr>,
     c_outputBuffer = \<lparr>buf_mem = replicate 1032 0, readerIndex = 8, writerIndex = 8\<rparr>,
     c_highWaterMark = 64 * 1024 * 1024, c_hasWriteComplete = False, c_hasHighWaterMark = False,
     c_tasks = [], c_effects = []\<rparr>"

lemma sample_conn_new: "new_conn 5 = Inr sample_conn"
  by (simp add: new_conn_def sample_conn_def new_buffer_def kInitialSize_def kCheapPrepend_def
      max_size_def sz_add_def sz_sub_def Let_def readableBytes_def writableBytes_def
      prependableBytes_def)

lemma sample_reach: "conn_reach sample_conn []"
  by (rule conn_init) (rule sample_conn_new)

definition sample_up :: conn where
  "sample_up = sample_conn\<lparr>c_state := kConnected,
     c_channel := enableReading (tie (c_channel sample_conn)),
     c_effects := [UpdateChannel 3, ConnectionCallback True]\<rparr>"

lemma sample_up_step: "conn_step ConnectEstablished sample_conn = Inr sample_up"
  by (simp add: connectEstablished_def sample_conn_def sample_up_def conn_parts channel_ops tie_def
      setCallback_def new_channel_def event_consts poll_flags)

lemma sample_up_reach: "conn_reach sample_up []"
  using conn_next [OF sample_reach _ sample_up_step] by simp

text \<open>A kernel that takes two bytes per call.\<close>

definition write_two :: write_call where
  "write_two bs = Inr (min 2 (length bs))"

lemma write_two_ok [simp]: "write_ok write_two"
  by (simp add: write_ok_def write_two_def)

lemma sample_up_facts [simp]:
  "c_state sample_up = kConnected" "\<not> isWriting (c_channel sample_up)"
  "buf_ok (c_outputBuffer sample_up)" "readable (c_outputBuffer sample_up) = []"
  "sent_bytes (c_effects sample_up) = []"
  by (simp_all add: sample_up_def sample_conn_def buf_ok_def kCheapPrepend_def max_size_def
      readable_def setCallback_def new_channel_def isWriting_def channel_ops event_consts
      poll_flags tie_def)

text \<open>Sending three bytes: two are written at once, one waits in the buffer.\<close>

lemma sample_send:
  obtains c where "conn_step (Send True write_two (piece_of_string [1, 2, 3])) sample_up = Inr c"
    and "c_state c = kConnected"
proof -
  let ?out = "c_outputBuffer sample_up"
  have direct: "write_directly sample_up"
    by (simp add: write_directly_def buf_ok_sizes(1))
  have len: "length [3 :: byte] \<le> writableBytes ?out"
    by (simp add: sample_up_def sample_conn_def writableBytes_def sz_sub_def)
  obtain out' where "append_mem [3] (Suc 0) ?out = Inr out'"
    using append_mem_room [of ?out "Suc 0" "[3]"] len by simp
  then have "\<exists>c. sendInLoop write_two [1, 2, 3] sample_up = Inr c \<and> c_state c = kConnected"
    using direct
    by (auto simp: sendInLoop_def after_direct_write_def nwrote_def fault_error_def write_two_def
        sz_sub_def conn_parts Let_def)
  then show thesis
    using that by (auto simp: send_def piece_of_string_def)
qed

lemma sample_sent:
  obtains c where "conn_reach c [1, 2, 3]" and "c_state c = kConnected"
proof -
  obtain c where c: "conn_step (Send True write_two (piece_of_string [1, 2, 3])) sample_up = Inr c"
      "c_state c = kConnected"
    using sample_send .
  have direct: "write_directly sample_up"
    by (simp add: write_directly_def buf_ok_sizes(1))
  have "conn_reach c ([] @ accepted (Send True write_two (piece_of_string [1, 2, 3])) sample_up)"
    using conn_next [OF sample_up_reach _ c(1)]
    by (simp add: piece_fits_def piece_ok_def piece_of_string_def)
  then have "conn_reach c [1, 2, 3]"
    using direct by (simp add: taken_def fault_error_def write_two_def piece_of_string_def
        piece_bytes_def)
  with c(2) that show thesis by blast
qed

subsection \<open>Properties\<close>

text \<open>C1: The outgoing byte stream is intact in every reachable state of a connection, over all
  interleavings of sends from the loop's and from other threads, writability events, partial
  writes and shutdowns: the bytes the kernel took, followed by the bytes still buffered, are
  exactly the bytes taken over by \<open>sendInLoop\<close>, in order.\<close>

theorem stream_integrity:
  assumes "conn_reach c acc"
  shows "sent_bytes (c_effects c) @ readable (c_outputBuffer c) = acc"
  using conn_reach_inv [OF assms] by (simp add: conn_inv_def)

theorem stream_integrity_witness:
  "\<exists>c. conn_reach c [1, 2, 3] \<and>
     sent_bytes (c_effects c) @ readable (c_outputBuffer c) = [1, 2, 3]"
  using sample_sent stream_integrity by metis

text \<open>C10: No output is forgotten: as long as the connection is not down, its channel is registered
  for writability exactly when bytes are waiting in the output buffer; once it is down it never
  is.\<close>

theorem writing_iff_pending:
  assumes "conn_reach c acc"
  shows "isWriting (c_channel c) \<longleftrightarrow>
    c_state c \<noteq> kDisconnected \<and> readable (c_outputBuffer c) \<noteq> []"
  using conn_reach_inv [OF assms] by (simp add: conn_inv_def)

theorem writing_iff_pending_witness:
  "\<exists>c. conn_reach c [1, 2, 3] \<and> c_state c = kConnected \<and>
     (isWriting (c_channel c) \<longleftrightarrow> readable (c_outputBuffer c) \<noteq> [])"
  using sample_sent writing_iff_pending by (metis conn_state.distinct(3))

text \<open>C17: A step of a connection that is not down shuts the socket's write side down only after
  everything taken over for sending has been handed to the kernel.\<close>

theorem shutdown_after_drain:
  assumes "conn_reach c acc" and "label_ok l" and "conn_step l c = Inr c'"
    and "c_effects c' = c_effects c @ es" and "SocketShutdownWrite \<in> set es"
    and "c_state c' \<noteq> kDisconnected"
  shows "sent_bytes (c_effects c') = acc @ accepted l c"
proof -
  have inv: "conn_inv c' (acc @ accepted l c)"
    using conn_step_inv [OF conn_reach_inv [OF assms(1)] assms(2,3)] .
  moreover have "\<not> isWriting (c_channel c')"
    using conn_step_idle [OF assms(3)] assms(4,5) by (auto simp: emits_shutdown_only_idle_def)
  ultimately show ?thesis
    using assms(6) by (auto simp: conn_inv_def)
qed

lemma sample_shutdown:
  "conn_step (Shutdown True) sample_up =
     Inr (sample_up\<lparr>c_state := kDisconnecting, c_effects := c_effects sample_up @ [SocketShutdownWrite]\<rparr>)"
  by (simp add: shutdown_def shutdownInLoop_def conn_parts)

theorem shutdown_after_drain_witness:
  "sent_bytes (c_effects (sample_up\<lparr>c_state := kDisconnecting,
     c_effects := c_effects sample_up @ [SocketShutdownWrite]\<rparr>)) = []"
  using shutdown_after_drain [OF sample_up_reach _ sample_shutdown] by simp



text \<open>
  Progress: \<open>handleWrite\<close> is called as often as the channel is reported writable.
\<close>

fun handleWrites :: "nat \<Rightarrow> write_call \<Rightarrow> conn \<Rightarrow> conn res" where
  "handleWrites 0 write c = Inr c"
| "handleWrites (Suc n) write c = bindR (handleWrite write c) (handleWrites n write)"

definition makes_progress :: "write_call \<Rightarrow> bool" where
  "makes_progress write \<longleftrightarrow> write_ok write \<and> (\<forall>bs. bs \<noteq> [] \<longrightarrow> (\<exists>n. write bs = Inr n \<and> 0 < n))"

definition drained :: "conn \<Rightarrow> conn \<Rightarrow> bool" where
  "drained c c' \<longleftrightarrow>
     readable (c_outputBuffer c') = [] \<and> \<not> isWriting (c_channel c') \<and> c_state c' = c_state c \<and>
     sent_bytes (c_effects c') = sent_bytes (c_effects c) @ readable (c_outputBuffer c) \<and>
     (c_state c = kDisconnecting \<and> readable (c_outputBuffer c) \<noteq> [] \<longrightarrow>
        last (c_effects c') = SocketShutdownWrite)"

lemma offered_bytes:
  "buf_ok b \<Longrightarrow> slice_of (peek b) (peek b + readableBytes b) (buf_mem b) = readable b"
  using peek_slice [of b "length (readable b)"] by (simp add: buf_ok_sizes(1))

lemma handleWrite_progress:
  assumes inv: "conn_inv c acc" and pw: "makes_progress write"
    and live: "c_state c \<noteq> kDisconnected" and pending: "readable (c_outputBuffer c) \<noteq> []"
  obtains n c' where "handleWrite write c = Inr c'" and "0 < n" and "n \<le> length (readable (c_outputBuffer c))"
    and "readable (c_outputBuffer c') = drop n (readable (c_outputBuffer c))"
    and "sent_bytes (c_effects c') = sent_bytes (c_effects c) @ take n (readable (c_outputBuffer c))"
    and "c_state c' = c_state c"
    and "readable (c_outputBuffer c') = [] \<longrightarrow> c_state c = kDisconnecting \<longrightarrow>
      last (c_effects c') = SocketShutdownWrite"
proof -
  let ?out = "c_outputBuffer c"
  have out: "buf_ok ?out" and writing: "isWriting (c_channel c)"
    using inv live pending by (simp_all add: conn_inv_def)
  obtain n where n: "write (readable ?out) = Inr n" "0 < n" "n \<le> length (readable ?out)"
    using pw pending by (auto simp: makes_progress_def write_ok_def)
  obtain out' where out': "retrieve n ?out = Inr out'" "buf_ok out'"
      "readable out' = drop n (readable ?out)"
    using retrieve_ok [OF out n(3)] .
  let ?c = "(effect (SocketWrite (take n (readable ?out))) c)\<lparr>c_outputBuffer := out'\<rparr>"
  show thesis
  proof (cases "readable out' = []")
    case False
    then have "handleWrite write c = Inr ?c"
      using writing n out' by (simp add: handleWrite_def Let_def offered_bytes [OF out] buf_ok_sizes(1))
    then show thesis
      by (rule that [OF _ n(2,3)]) (use out'(3) False in \<open>simp_all add: effect_def\<close>)
  next
    case True
    let ?d = "on_conn_channel disableWriting ?c"
    define e where "e = (if c_hasWriteComplete ?d then queueInLoop WriteCompleteTask ?d else ?d)"
    have e: "c_state e = c_state c" "c_outputBuffer e = out'" "\<not> isWriting (c_channel e)"
        "sent_bytes (c_effects e) = sent_bytes (c_effects c) @ take n (readable ?out)"
      by (simp_all add: e_def conn_parts)
    have "handleWrite write c = Inr (if c_state e = kDisconnecting then shutdownInLoop e else e)"
      using writing n out' True
      by (simp add: handleWrite_def Let_def offered_bytes [OF out] buf_ok_sizes(1) e_def)
    then show thesis
      by (rule that [OF _ n(2,3)]) (use out'(3) e in \<open>auto simp: shutdownInLoop_def effect_def\<close>)
  qed
qed

lemma handleWrites_drain:
  assumes "conn_inv c acc" and "makes_progress write" and "c_state c \<noteq> kDisconnected"
    and "length (readable (c_outputBuffer c)) \<le> n"
  shows "\<exists>c'. handleWrites n write c = Inr c' \<and> conn_inv c' acc \<and> drained c c'"
  using assms
proof (induction n arbitrary: c)
  case 0
  then show ?case by (auto simp: conn_inv_def drained_def)
next
  case (Suc n)
  show ?case
  proof (cases "readable (c_outputBuffer c) = []")
    case True
    then have "handleWrite write c = Inr c"
      using Suc.prems(1) by (simp add: handleWrite_def conn_inv_def)
    with Suc True show ?thesis by simp
  next
    case False
    obtain k c1 where c1: "handleWrite write c = Inr c1" "0 < k"
        "k \<le> length (readable (c_outputBuffer c))"
        "readable (c_outputBuffer c1) = drop k (readable (c_outputBuffer c))"
        "sent_bytes (c_effects c1) = sent_bytes (c_effects c) @ take k (readable (c_outputBuffer c))"
        "c_state c1 = c_state c"
        "readable (c_outputBuffer c1) = [] \<longrightarrow> c_state c = kDisconnecting \<longrightarrow>
          last (c_effects c1) = SocketShutdownWrite"
      using handleWrite_progress [OF Suc.prems(1-3) False] by blast
    have inv1: "conn_inv c1 acc"
      using handleWrite_inv [OF Suc.prems(1) _ c1(1)] Suc.prems(2) by (simp add: makes_progress_def)
    have "length (readable (c_outputBuffer c1)) \<le> n"
      using c1(2,4) Suc.prems(4) by simp
    then obtain c' where c': "handleWrites n write c1 = Inr c'" "conn_inv c' acc" "drained c1 c'"
      using Suc.IH [OF inv1 Suc.prems(2)] c1(6) Suc.prems(3) by auto
    have "c' = c1" if "readable (c_outputBuffer c1) = []"
    proof -
      have "handleWrite write c1 = Inr c1"
        using inv1 that by (simp add: handleWrite_def conn_inv_def)
      then have "handleWrites m write c1 = Inr c1" for m
        by (induction m) auto
      with c'(1) show ?thesis by simp
    qed
    with c' c1 show ?thesis
      by (auto simp: drained_def)
  qed
qed

text \<open>C15: Pending output is delivered: if every \<open>write\<close> takes at least one byte, as many calls of
  \<open>handleWrite\<close> as there are bytes suffice to hand all of them to the kernel; then the channel
  stops watching for writability, and a connection being shut down ends with the shutdown of its
  write side.\<close>

theorem output_drains:
  assumes "conn_reach c acc" and "makes_progress write" and "c_state c \<noteq> kDisconnected"
  shows "\<exists>c'. handleWrites (length (readable (c_outputBuffer c))) write c = Inr c' \<and>
    sent_bytes (c_effects c') = acc \<and> readable (c_outputBuffer c') = [] \<and>
    \<not> isWriting (c_channel c') \<and> c_state c' = c_state c \<and>
    (c_state c = kDisconnecting \<and> readable (c_outputBuffer c) \<noteq> [] \<longrightarrow>
       last (c_effects c') = SocketShutdownWrite)"
  using handleWrites_drain [OF conn_reach_inv [OF assms(1)] assms(2,3) order_refl]
    conn_reach_inv [OF assms(1)]
  by (auto simp: drained_def conn_inv_def)

theorem output_drains_witness:
  "\<exists>c c'. conn_reach c [1, 2, 3] \<and>
     handleWrites (length (readable (c_outputBuffer c))) write_two c = Inr c' \<and>
     sent_bytes (c_effects c') = [1, 2, 3]"
proof -
  have "makes_progress write_two"
    by (simp add: makes_progress_def) (simp add: write_two_def)
  moreover obtain c where "conn_reach c [1, 2, 3]" and "c_state c = kConnected"
    using sample_sent .
  ultimately show ?thesis
    using output_drains [of c "[1, 2, 3]" write_two] by auto
qed

text \<open>The high-water-mark callback is scheduled by \<open>sendInLoop\<close> exactly when this call makes
  the amount of buffered output cross the mark from below, and with the amount then buffered.\<close>

theorem high_water_mark:
  assumes "conn_reach c acc" and "write_ok write" and "length data \<le> max_size"
    and "sendInLoop write data c = Inr c'" and "c_hasHighWaterMark c"
    and "c_tasks c' = c_tasks c @ ts"
  shows "(HighWaterMarkTask n \<in> set ts) \<longleftrightarrow>
    length (readable (c_outputBuffer c)) < c_highWaterMark c \<and>
    c_highWaterMark c \<le> length (readable (c_outputBuffer c')) \<and>
    n = length (readable (c_outputBuffer c'))"
proof (cases "c_state c = kDisconnected")
  case True
  with assms(4,6) show ?thesis by (auto simp: sendInLoop_def)
next
  case live: False
  let ?k = "nwrote write data c" and ?c1 = "after_direct_write write data c"
  let ?old = "length (readable (c_outputBuffer c))"
  have out: "buf_ok (c_outputBuffer c)"
    using conn_reach_inv [OF assms(1)] by (simp add: conn_inv_def)
  have rem: "sz_sub (length data) ?k = length data - ?k"
    using remaining_eq [OF assms(2,3)] .
  have old: "?old \<le> max_size"
    using out by (auto simp: buf_ok_sizes(4) buf_ok_def)
  have sum: "sz_add ?old (length data - ?k) = ?old + (length data - ?k)"
    using old assms(3) by (intro sz_add_exact) (simp add: max_size_def)
  obtain t1 where t1: "c_tasks ?c1 = c_tasks c @ t1" "HighWaterMarkTask n \<notin> set t1"
      "c_highWaterMark ?c1 = c_highWaterMark c" "c_hasHighWaterMark ?c1 = c_hasHighWaterMark c"
    by (rule that [of "if write_directly c \<and> (\<exists>k. write data = Inr k \<and> sz_sub (length data) k = 0) \<and>
          c_hasWriteComplete c then [WriteCompleteTask] else []"])
      (auto simp: after_direct_write_def conn_parts Let_def split: sum.splits)
  show ?thesis
  proof (cases "\<not> fault_error write data c \<and> ?k < length data")
    case False
    then have "c' = ?c1"
      using assms(4) live by (auto simp: sendInLoop_def rem Let_def res_simps split: if_splits)
    with t1 assms(6) show ?thesis by auto
  next
    case True
    define cross where "cross \<longleftrightarrow> c_highWaterMark c \<le> ?old + (length data - ?k) \<and> ?old < c_highWaterMark c"
    obtain out' where out': "append_mem (drop ?k data) (length data - ?k) (c_outputBuffer c) = Inr out'"
        and c': "c_outputBuffer c' = out'"
          "c_tasks c' = c_tasks ?c1 @ (if cross then [HighWaterMarkTask (?old + (length data - ?k))] else [])"
      using True assms(4,5) live t1(3,4)
      by (auto simp: sendInLoop_def rem Let_def res_simps sum buf_ok_sizes(1) [OF out] cross_def conn_parts
          split: if_splits)
    have "length (readable out') = ?old + (length data - ?k)"
      using append_mem_content(2) [OF out _ _ out'] assms(3) by simp
    moreover have "ts = t1 @ (if cross then [HighWaterMarkTask (?old + (length data - ?k))] else [])"
      using c'(2) t1(1) assms(6) by simp
    ultimately show ?thesis
      using c'(1) t1(2) by (auto simp: cross_def)
  qed
qed

lemma sample_mark_reach: "conn_reach (setHighWaterMarkCallback 1 sample_up) []"
  using conn_next [OF sample_up_reach, of "SetHighWaterMarkCallback 1"] by simp

lemma sample_mark_send:
  obtains c where "sendInLoop write_two [1, 2, 3] (setHighWaterMarkCallback 1 sample_up) = Inr c"
    and "c_tasks c = [HighWaterMarkTask 1]"
proof -
  let ?c = "setHighWaterMarkCallback 1 sample_up"
  let ?out = "c_outputBuffer sample_up"
  have direct: "write_directly ?c"
    by (simp add: write_directly_def setHighWaterMarkCallback_def buf_ok_sizes(1))
  have len: "length [3 :: byte] \<le> writableBytes ?out"
    by (simp add: sample_up_def sample_conn_def writableBytes_def sz_sub_def)
  obtain out' where "append_mem [3] (Suc 0) ?out = Inr out'"
    using append_mem_room [of ?out "Suc 0" "[3]"] len by simp
  moreover have "c_tasks sample_up = []" "\<not> c_hasWriteComplete sample_up"
    by (simp_all add: sample_up_def sample_conn_def)
  ultimately have "\<exists>c. sendInLoop write_two [1, 2, 3] ?c = Inr c \<and> c_tasks c = [HighWaterMarkTask 1]"
    using direct
    by (auto simp: sendInLoop_def after_direct_write_def nwrote_def fault_error_def write_two_def
        setHighWaterMarkCallback_def sz_sub_def sz_add_def buf_ok_sizes(1) conn_parts Let_def)
  then show thesis using that by blast
qed

theorem high_water_mark_witness:
  "\<exists>c. sendInLoop write_two [1, 2, 3] (setHighWaterMarkCallback 1 sample_up) = Inr c \<and>
     c_tasks c = [HighWaterMarkTask 1] \<and> length (readable (c_outputBuffer c)) = 1"
proof -
  obtain c where c: "sendInLoop write_two [1, 2, 3] (setHighWaterMarkCallback 1 sample_up) = Inr c"
      "c_tasks c = [HighWaterMarkTask 1]"
    using sample_mark_send .
  have "c_tasks (setHighWaterMarkCallback 1 sample_up) = []"
    by (simp add: setHighWaterMarkCallback_def sample_up_def sample_conn_def)
  then have "length (readable (c_outputBuffer c)) = 1"
    using high_water_mark [OF sample_mark_reach write_two_ok _ c(1), of "[HighWaterMarkTask 1]" 1] c(2)
    by (simp add: setHighWaterMarkCallback_def max_size_def)
  with c show ?thesis by blast
qed

text \<open>A connection that is being shut down when its owner destroys it fails the assertion of
  \<open>Channel::remove\<close>: \<open>connectDestroyed\<close> disables the channel in the state \<open>kConnected\<close> only.\<close>

theorem destroyed_while_disconnecting:
  assumes "c_state c = kDisconnecting" and "isReading (c_channel c)"
  shows "connectDestroyed c = Inl Assertion"
proof -
  have "\<not> isNoneEvent (c_channel c)"
    using assms(2) by (auto simp: isNoneEvent_def isReading_def kNoneEvent_def)
  with assms(1) show ?thesis
    by (simp add: connectDestroyed_def channel_remove_def)
qed

theorem destroyed_while_disconnecting_witness:
  "run_labels [ConnectEstablished, Shutdown True, ConnectDestroyed] sample_conn = Inl Assertion"
proof -
  have "connectDestroyed (sample_up\<lparr>c_state := kDisconnecting,
      c_effects := c_effects sample_up @ [SocketShutdownWrite]\<rparr>) = Inl Assertion"
    by (rule destroyed_while_disconnecting) (simp_all add: sample_up_def)
  then show ?thesis
    by (simp add: sample_up_step sample_shutdown del: conn_step.simps)
      (simp add: sample_shutdown)
qed

text \<open>A \<open>startRead\<close> that was queued before the connection went down enables reading again
  afterwards, because \<open>startReadInLoop\<close> does not look at the state; the owner's \<open>connectDestroyed\<close>
  then fails the same assertion.\<close>

theorem startRead_after_close:
  assumes "c_state c = kDisconnected" and "\<not> isReading (c_channel c)"
  shows "isReading (c_channel (startReadInLoop c)) \<and>
    connectDestroyed (startReadInLoop c) = Inl Assertion"
  using assms isNoneEvent_ops(2) [of "c_channel c"]
  by (simp add: startReadInLoop_def connectDestroyed_def channel_remove_def conn_parts)

theorem startRead_after_close_witness:
  "run_labels [StartRead False, Callback CloseCallback (\<lambda>_. Inl 0) write_two, RunTask write_two,
     ConnectDestroyed] sample_up = Inl Assertion"
proof -
  obtain c where c: "handleClose (queueInLoop StartReadTask sample_up) = Inr c"
      "c_state c = kDisconnected" "\<not> isReading (c_channel c)" "c_tasks c = [StartReadTask]"
    by (auto simp: handleClose_def conn_parts Let_def sample_up_def sample_conn_def)
  with startRead_after_close [of "c\<lparr>c_tasks := []\<rparr>"] show ?thesis
    by (simp add: startRead_def)
qed

end
