(* ===== verification/Event_Loop.thy ===== *)
theory Event_Loop
  imports Channel
begin

section \<open>Event loops: \<open>src/src/muduo/net/EventLoop.cc\<close>\<close>

text \<open>
  The state of an \<open>EventLoop\<close> and its operations, over the type \<open>'f\<close> of functors.  The \<open>eventfd\<close>
  that other threads write to wake the loop up is its counter \<open>el_wakeups\<close>.  Running a functor or
  dispatching a channel is a parameter, because both are code of the user; the loop's own part of
  it is here.  The second half of the theory is the loop as a system of atomic steps, in which
  other threads interleave with it.
\<close>

record 'f event_loop =
  el_looping :: bool
  el_quit :: bool
  el_eventHandling :: bool
  el_callingPendingFunctors :: bool
  el_iteration :: nat
  el_activeChannels :: "nat list"
  el_currentActiveChannel :: "nat option"
  el_pendingFunctors :: "'f list"
  el_wakeups :: nat             \<comment> \<open>counter of the \<open>eventfd\<close> behind \<open>wakeupFd_\<close>\<close>
  el_wakeupChannel :: channel

definition kPollTimeMs :: int where
  "kPollTimeMs = 10000"

text \<open>
  \<open>createEventfd\<close>: the program aborts when there is no descriptor.  The constructor; \<open>other\<close>: the
  thread already has a loop.
\<close>

definition createEventfd :: "int \<Rightarrow> int res" where
  "createEventfd evtfd = (if evtfd < 0 then Inl Fatal else Inr evtfd)"

definition new_event_loop :: "bool \<Rightarrow> int \<Rightarrow> 'f event_loop res" where
  "new_event_loop other evtfd =
     bindR (createEventfd evtfd) (\<lambda>wakeupFd.
      if other then Inl Fatal
      else Inr \<lparr>el_looping = False, el_quit = False, el_eventHandling = False,
                el_callingPendingFunctors = False, el_iteration = 0, el_activeChannels = [],
                el_currentActiveChannel = None, el_pendingFunctors = [], el_wakeups = 0,
                el_wakeupChannel = enableReading (setCallback ReadCallback (new_channel wakeupFd))\<rparr>)"

definition destroy_event_loop :: "'f event_loop \<Rightarrow> channel res" where
  "destroy_event_loop l = channel_remove (disableAll (el_wakeupChannel l))"

definition assertInLoopThread :: "bool \<Rightarrow> 'a res \<Rightarrow> 'a res" where
  "assertInLoopThread inLoopThread k = (if inLoopThread then k else Inl Fatal)"

subsection \<open>Waking up\<close>

definition wakeup :: "'f event_loop \<Rightarrow> 'f event_loop" where
  "wakeup l = l\<lparr>el_wakeups := el_wakeups l + 1\<rparr>"

text \<open>\<open>handleRead\<close>: reading an \<open>eventfd\<close> returns its counter and resets it.\<close>

definition handleWakeup :: "'f event_loop \<Rightarrow> 'f event_loop" where
  "handleWakeup l = l\<lparr>el_wakeups := 0\<rparr>"

definition quit :: "bool \<Rightarrow> 'f event_loop \<Rightarrow> 'f event_loop" where
  "quit inLoopThread l =
     (let l1 = l\<lparr>el_quit := True\<rparr> in if \<not> inLoopThread then wakeup l1 else l1)"

subsection \<open>Functors\<close>

text \<open>\<open>queueInLoop\<close> in its two parts: the part under the mutex, and what follows it.\<close>

definition pushFunctor :: "'f \<Rightarrow> 'f event_loop \<Rightarrow> 'f event_loop" where
  "pushFunctor cb l = l\<lparr>el_pendingFunctors := el_pendingFunctors l @ [cb]\<rparr>"

definition wakeupIfNeeded :: "bool \<Rightarrow> 'f event_loop \<Rightarrow> 'f event_loop" where
  "wakeupIfNeeded inLoopThread l =
     (if \<not> inLoopThread \<or> el_callingPendingFunctors l then wakeup l else l)"

definition queueFunctor :: "bool \<Rightarrow> 'f \<Rightarrow> 'f event_loop \<Rightarrow> 'f event_loop" where
  "queueFunctor inLoopThread cb l = wakeupIfNeeded inLoopThread (pushFunctor cb l)"

definition runInLoop ::
  "('f \<Rightarrow> 'f event_loop \<Rightarrow> 'f event_loop) \<Rightarrow> bool \<Rightarrow> 'f \<Rightarrow> 'f event_loop \<Rightarrow> 'f event_loop" where
  "runInLoop call inLoopThread cb l =
     (if inLoopThread then call cb l else queueFunctor inLoopThread cb l)"

definition queueSize :: "'f event_loop \<Rightarrow> nat" where
  "queueSize l = length (el_pendingFunctors l)"

definition doPendingFunctors ::
  "('f \<Rightarrow> 'f event_loop \<Rightarrow> 'f event_loop) \<Rightarrow> 'f event_loop \<Rightarrow> 'f event_loop" where
  "doPendingFunctors call l =
     (let l1 = l\<lparr>el_callingPendingFunctors := True\<rparr>;
          functors = el_pendingFunctors l1;
          l2 = l1\<lparr>el_pendingFunctors := []\<rparr>;
          l3 = fold call functors l2 in
      l3\<lparr>el_callingPendingFunctors := False\<rparr>)"

subsection \<open>Channels\<close>

text \<open>\<open>updateChannel\<close>, \<open>hasChannel\<close> and \<open>removeChannel\<close> up to the poller's part: a channel must not be removed while it waits for
  its turn among the active channels.\<close>

definition removeChannel_check :: "bool \<Rightarrow> bool \<Rightarrow> nat \<Rightarrow> 'f event_loop \<Rightarrow> unit res" where
  "removeChannel_check inLoopThread owner c l =
     asserting owner (assertInLoopThread inLoopThread
       (if el_eventHandling l
        then asserting (el_currentActiveChannel l = Some c \<or> c \<notin> set (el_activeChannels l)) (Inr ())
        else Inr ()))"

definition updateChannel_check :: "bool \<Rightarrow> bool \<Rightarrow> unit res" where
  "updateChannel_check inLoopThread owner =
     asserting owner (assertInLoopThread inLoopThread (Inr ()))"

text \<open>\<open>printActiveChannels\<close>: one line per active channel.\<close>

definition printActiveChannels :: "(nat \<Rightarrow> string) \<Rightarrow> 'f event_loop \<Rightarrow> string list" where
  "printActiveChannels reventsToString l =
     map (\<lambda>c. ''{'' @ reventsToString c @ ''} '') (el_activeChannels l)"

fun dispatch :: "(nat \<Rightarrow> 'f event_loop \<Rightarrow> 'f event_loop) \<Rightarrow> nat list \<Rightarrow> 'f event_loop \<Rightarrow> 'f event_loop"
where
  "dispatch handle [] l = l"
| "dispatch handle (c # cs) l =
     dispatch handle cs (handle c (l\<lparr>el_currentActiveChannel := Some c\<rparr>))"

subsection \<open>The loop\<close>

text \<open>One turn of \<open>while (!quit_)\<close>; \<open>active\<close> is what the poller reported.\<close>

definition loop_turn ::
  "(nat \<Rightarrow> 'f event_loop \<Rightarrow> 'f event_loop) \<Rightarrow> ('f \<Rightarrow> 'f event_loop \<Rightarrow> 'f event_loop) \<Rightarrow>
     nat list \<Rightarrow> 'f event_loop \<Rightarrow> 'f event_loop" where
  "loop_turn handle call active l =
     (let l1 = l\<lparr>el_activeChannels := active, el_iteration := el_iteration l + 1,
                 el_eventHandling := True\<rparr>;
          l2 = dispatch handle active l1;
          l3 = l2\<lparr>el_currentActiveChannel := None, el_eventHandling := False\<rparr> in
      doPendingFunctors call l3)"

text \<open>
  \<open>loop()\<close>, given what the poller will report in each turn; the result is \<open>None\<close> while the loop
  is still running when the reports end.
\<close>

fun loop_while ::
  "(nat \<Rightarrow> 'f event_loop \<Rightarrow> 'f event_loop) \<Rightarrow> ('f \<Rightarrow> 'f event_loop \<Rightarrow> 'f event_loop) \<Rightarrow>
     nat list list \<Rightarrow> 'f event_loop \<Rightarrow> 'f event_loop option" where
  "loop_while handle call reports l =
     (if el_quit l then Some (l\<lparr>el_looping := False\<rparr>)
      else case reports of
             [] \<Rightarrow> None
           | active # rest \<Rightarrow>
               loop_while handle call rest (loop_turn handle call active l))"

declare loop_while.simps [simp del]

definition loop_run ::
  "bool \<Rightarrow> (nat \<Rightarrow> 'f event_loop \<Rightarrow> 'f event_loop) \<Rightarrow> ('f \<Rightarrow> 'f event_loop \<Rightarrow> 'f event_loop) \<Rightarrow>
     nat list list \<Rightarrow> 'f event_loop \<Rightarrow> 'f event_loop option res" where
  "loop_run inLoopThread handle call reports l =
     asserting (\<not> el_looping l) (assertInLoopThread inLoopThread
       (Inr (loop_while handle call reports (l\<lparr>el_looping := True, el_quit := False\<rparr>))))"

subsection \<open>The loop among other threads\<close>

text \<open>
  Atomic steps: the loop's thread goes through the phases of a turn; other threads queue functors
  at any time, in two steps, because \<open>queueInLoop\<close> releases the mutex before it wakes the loop up.
  \<open>sys_unwoken\<close> counts the threads between the two.  \<open>sys_queued\<close> and \<open>sys_executed\<close> record the
  order in which functors were queued and run.
\<close>

datatype 'f phase =
    Polling               \<comment> \<open>blocked in \<open>poll\<close>\<close>
  | Handling              \<comment> \<open>dispatching active channels\<close>
  | Swapping              \<comment> \<open>in \<open>doPendingFunctors\<close>, before the swap\<close>
  | Running "'f list"     \<comment> \<open>after the swap, with the functors still to run\<close>

record 'f loop_sys =
  sys_loop :: "'f event_loop"
  sys_phase :: "'f phase"
  sys_unwoken :: nat
  sys_queued :: "'f list"
  sys_executed :: "'f list"

inductive loop_step :: "'f loop_sys \<Rightarrow> 'f loop_sys \<Rightarrow> bool" where
  OtherPush: "loop_step s (s\<lparr>sys_loop := pushFunctor f (sys_loop s),
     sys_unwoken := Suc (sys_unwoken s), sys_queued := sys_queued s @ [f]\<rparr>)"
| OtherWake: "sys_unwoken s = Suc n \<Longrightarrow>
     loop_step s (s\<lparr>sys_loop := wakeupIfNeeded False (sys_loop s), sys_unwoken := n\<rparr>)"
| LoopQueue: "sys_phase s = Handling \<or> sys_phase s = Running fs \<Longrightarrow>
     loop_step s (s\<lparr>sys_loop := queueFunctor True f (sys_loop s), sys_queued := sys_queued s @ [f]\<rparr>)"
| PollReturn: "sys_phase s = Polling \<Longrightarrow> loop_step s (s\<lparr>sys_phase := Handling\<rparr>)"
| HandleWakeup: "sys_phase s = Handling \<Longrightarrow>
     loop_step s (s\<lparr>sys_loop := handleWakeup (sys_loop s)\<rparr>)"
| BeginPending: "sys_phase s = Handling \<Longrightarrow>
     loop_step s (s\<lparr>sys_loop := (sys_loop s)\<lparr>el_callingPendingFunctors := True\<rparr>,
       sys_phase := Swapping\<rparr>)"
| Swap: "sys_phase s = Swapping \<Longrightarrow>
     loop_step s (s\<lparr>sys_loop := (sys_loop s)\<lparr>el_pendingFunctors := []\<rparr>,
       sys_phase := Running (el_pendingFunctors (sys_loop s))\<rparr>)"
| RunOne: "sys_phase s = Running (f # fs) \<Longrightarrow>
     loop_step s (s\<lparr>sys_phase := Running fs, sys_executed := sys_executed s @ [f]\<rparr>)"
| EndPending: "sys_phase s = Running [] \<Longrightarrow>
     loop_step s (s\<lparr>sys_loop := (sys_loop s)\<lparr>el_callingPendingFunctors := False\<rparr>,
       sys_phase := Polling\<rparr>)"

definition sys_start :: "'f loop_sys \<Rightarrow> bool" where
  "sys_start s \<longleftrightarrow> (\<exists>evtfd. new_event_loop False evtfd = Inr (sys_loop s)) \<and> sys_phase s = Polling \<and>
     sys_unwoken s = 0 \<and> sys_queued s = [] \<and> sys_executed s = []"

inductive sys_reach :: "'f loop_sys \<Rightarrow> bool" where
  sys_init: "sys_start s \<Longrightarrow> sys_reach s"
| sys_next: "sys_reach s \<Longrightarrow> loop_step s s' \<Longrightarrow> sys_reach s'"

inductive_cases loop_stepE: "loop_step s s'"

fun being_run :: "'f phase \<Rightarrow> 'f list" where
  "being_run (Running fs) = fs"
| "being_run _ = []"

fun calling_phase :: "'f phase \<Rightarrow> bool" where
  "calling_phase Swapping = True"
| "calling_phase (Running fs) = True"
| "calling_phase _ = False"

fun must_wake :: "'f phase \<Rightarrow> bool" where
  "must_wake Polling = True"
| "must_wake (Running fs) = True"
| "must_wake _ = False"

definition sys_inv :: "'f loop_sys \<Rightarrow> bool" where
  "sys_inv s \<longleftrightarrow>
     el_callingPendingFunctors (sys_loop s) = calling_phase (sys_phase s) \<and>
     sys_executed s @ being_run (sys_phase s) @ el_pendingFunctors (sys_loop s) = sys_queued s \<and>
     (must_wake (sys_phase s) \<and> el_pendingFunctors (sys_loop s) \<noteq> [] \<longrightarrow>
        0 < el_wakeups (sys_loop s) \<or> 0 < sys_unwoken s)"

lemmas loop_ops = pushFunctor_def wakeupIfNeeded_def queueFunctor_def wakeup_def handleWakeup_def

lemma new_event_loop_fields:
  "new_event_loop False evtfd = Inr l \<Longrightarrow>
     el_pendingFunctors l = [] \<and> \<not> el_callingPendingFunctors l \<and> el_wakeups l = 0"
  by (auto simp: new_event_loop_def res_simps)

lemma sys_start_inv: "sys_start s \<Longrightarrow> sys_inv s"
  by (auto simp: sys_start_def sys_inv_def dest: new_event_loop_fields)

lemma loop_step_inv: "loop_step s s' \<Longrightarrow> sys_inv s \<Longrightarrow> sys_inv s'"
  by (induction rule: loop_step.induct) (auto simp: sys_inv_def loop_ops)

lemma sys_reach_inv: "sys_reach s \<Longrightarrow> sys_inv s"
  by (induction rule: sys_reach.induct) (auto intro: sys_start_inv loop_step_inv)

text \<open>The steps of one turn are \<open>doPendingFunctors\<close> when nobody interferes.\<close>

lemma run_all_steps:
  "sys_phase s = Running fs \<Longrightarrow>
     loop_step\<^sup>*\<^sup>* s (s\<lparr>sys_phase := Running [], sys_executed := sys_executed s @ fs\<rparr>)"
proof (induction fs arbitrary: s)
  case Nil
  then have "s\<lparr>sys_phase := Running [], sys_executed := sys_executed s @ []\<rparr> = s"
    by simp
  then show ?case by simp
next
  case (Cons f fs)
  let ?s = "s\<lparr>sys_phase := Running fs, sys_executed := sys_executed s @ [f]\<rparr>"
  have "loop_step s ?s"
    by (rule RunOne [OF Cons.prems])
  moreover have "loop_step\<^sup>*\<^sup>* ?s (?s\<lparr>sys_phase := Running [], sys_executed := sys_executed ?s @ fs\<rparr>)"
    by (rule Cons.IH) simp
  ultimately show ?case
    by (auto intro: converse_rtranclp_into_rtranclp)
qed

lemma fold_id: "fold (\<lambda>f l. l) fs l = l"
  by (induction fs) simp_all

lemma pending_steps:
  assumes "sys_phase s = Handling"
  shows "\<exists>s'. loop_step\<^sup>*\<^sup>* s s' \<and> sys_phase s' = Polling \<and>
    sys_executed s' = sys_executed s @ el_pendingFunctors (sys_loop s) \<and>
    sys_loop s' = doPendingFunctors (\<lambda>f l. l) (sys_loop s)"
proof -
  let ?fs = "el_pendingFunctors (sys_loop s)"
  let ?s1 = "s\<lparr>sys_loop := (sys_loop s)\<lparr>el_callingPendingFunctors := True\<rparr>, sys_phase := Swapping\<rparr>"
  let ?s2 = "?s1\<lparr>sys_loop := (sys_loop ?s1)\<lparr>el_pendingFunctors := []\<rparr>, sys_phase := Running ?fs\<rparr>"
  let ?s3 = "?s2\<lparr>sys_phase := Running [], sys_executed := sys_executed ?s2 @ ?fs\<rparr>"
  let ?s4 = "?s3\<lparr>sys_loop := (sys_loop ?s3)\<lparr>el_callingPendingFunctors := False\<rparr>, sys_phase := Polling\<rparr>"
  have "loop_step s ?s1"
    by (rule BeginPending [OF assms])
  moreover have "loop_step ?s1 ?s2"
    using Swap [of ?s1] by simp
  moreover have "loop_step\<^sup>*\<^sup>* ?s2 ?s3"
    by (rule run_all_steps) simp
  moreover have "loop_step ?s3 ?s4"
    by (rule EndPending) simp
  ultimately have "loop_step\<^sup>*\<^sup>* s ?s4"
    by (meson converse_rtranclp_into_rtranclp rtranclp.rtrancl_into_rtrancl)
  then show ?thesis
    by (intro exI [of _ ?s4]) (simp add: doPendingFunctors_def Let_def fold_id)
qed

subsection \<open>Properties\<close>


definition sample_sys :: "nat loop_sys" where
  "sample_sys = \<lparr>sys_loop = \<lparr>el_looping = False, el_quit = False, el_eventHandling = False,
      el_callingPendingFunctors = False, el_iteration = 0, el_activeChannels = [],
      el_currentActiveChannel = None, el_pendingFunctors = [], el_wakeups = 0,
      el_wakeupChannel = enableReading (setCallback ReadCallback (new_channel 4))\<rparr>,
    sys_phase = Polling, sys_unwoken = 0, sys_queued = [], sys_executed = []\<rparr>"

lemma sample_sys_reach: "sys_reach sample_sys"
  by (rule sys_init) (auto simp: sys_start_def sample_sys_def new_event_loop_def createEventfd_def
      intro!: exI [of _ 4])


text \<open>Functors run exactly once and in the order in which they were queued: those that have
  run, those being run and those still pending make up, in this order, the sequence of all that
  were ever queued; and in every turn the pending ones do get run.\<close>

theorem functors_in_order:
  assumes "sys_reach s"
  shows "sys_executed s @ being_run (sys_phase s) @ el_pendingFunctors (sys_loop s) = sys_queued s \<and>
    (sys_phase s = Handling \<longrightarrow>
       (\<exists>s'. loop_step\<^sup>*\<^sup>* s s' \<and> sys_phase s' = Polling \<and> sys_executed s' = sys_queued s \<and>
          sys_loop s' = doPendingFunctors (\<lambda>f l. l) (sys_loop s)))"
proof -
  have "sys_executed s @ being_run (sys_phase s) @ el_pendingFunctors (sys_loop s) = sys_queued s"
    using sys_reach_inv [OF assms] by (simp add: sys_inv_def)
  moreover from this have "\<exists>s'. loop_step\<^sup>*\<^sup>* s s' \<and> sys_phase s' = Polling \<and>
      sys_executed s' = sys_queued s \<and> sys_loop s' = doPendingFunctors (\<lambda>f l. l) (sys_loop s)"
    if "sys_phase s = Handling"
    using pending_steps [OF that] that by simp
  ultimately show ?thesis by blast
qed

theorem functors_in_order_witness:
  "sys_executed sample_sys @ being_run (sys_phase sample_sys) @
     el_pendingFunctors (sys_loop sample_sys) = []"
  using functors_in_order [OF sample_sys_reach] by (simp add: sample_sys_def)

text \<open>Functors that are queued by the functors of the same turn are not run in it but kept, in
  order, for the next one, and the loop has been woken up for them.\<close>

theorem requeued_functors_wait:
  assumes "\<And>f l. call f l = fold (queueFunctor True) (requeues f) l"
  shows "el_pendingFunctors (doPendingFunctors call l) =
      concat (map requeues (el_pendingFunctors l)) \<and>
    el_wakeups (doPendingFunctors call l) =
      el_wakeups l + length (concat (map requeues (el_pendingFunctors l))) \<and>
    \<not> el_callingPendingFunctors (doPendingFunctors call l)"
proof -
  have queue: "fold (queueFunctor True) fs l = l\<lparr>el_pendingFunctors := el_pendingFunctors l @ fs,
      el_wakeups := el_wakeups l + length fs\<rparr>" if "el_callingPendingFunctors l" for fs l
    using that by (induction fs arbitrary: l) (simp_all add: loop_ops)
  have "fold call fs l = l\<lparr>el_pendingFunctors := el_pendingFunctors l @ concat (map requeues fs),
      el_wakeups := el_wakeups l + length (concat (map requeues fs))\<rparr>"
    if "el_callingPendingFunctors l" for fs l
    using that by (induction fs arbitrary: l) (simp_all add: assms queue)
  then show ?thesis
    by (simp add: doPendingFunctors_def Let_def)
qed

theorem requeued_functors_wait_witness:
  "el_pendingFunctors (doPendingFunctors (\<lambda>f. fold (queueFunctor True) [f + 10])
     ((sys_loop sample_sys)\<lparr>el_pendingFunctors := [1, 2]\<rparr>)) = [11, 12]"
  using requeued_functors_wait [of "\<lambda>f. fold (queueFunctor True) [f + 10]" "\<lambda>f. [f + 10]"
      "(sys_loop sample_sys)\<lparr>el_pendingFunctors := [1, 2]\<rparr>"]
  by (simp add: sample_sys_def)

text \<open>The wakeup channel of a loop can always be retired: the destructor's assertions hold.\<close>

lemma destroy_new_event_loop:
  "new_event_loop other evtfd = Inr l \<Longrightarrow> \<exists>ch. destroy_event_loop l = Inr ch \<and> isNoneEvent ch"
  by (auto simp: new_event_loop_def destroy_event_loop_def channel_remove_def disableAll_def isNoneEvent_def
      channel_update_def res_simps split: if_splits)

text \<open>A call of \<open>quit\<close> before \<open>loop\<close> has no effect: \<open>loop\<close> starts by resetting the flag.\<close>

lemma quit_before_loop_is_lost:
  "\<not> el_looping l \<Longrightarrow> loop_run True h call [] (quit True l) = Inr None"
  by (simp add: loop_run_def quit_def Let_def assertInLoopThread_def loop_while.simps)

end
