(* ===== verification/Std_Set.thy ===== *)
theory Std_Set
  imports Muduo_Prelude "HOL-Library.Product_Lexorder"
begin

section \<open>\<open>std::set\<close>\<close>

text \<open>
  The ordered sets of the standard library, as the list of their elements in iteration order.
  \<open>std_ok\<close> is the class invariant; the lemmas say what the operations do to the elements.
\<close>

definition std_ok :: "'a::linorder list \<Rightarrow> bool" where
  "std_ok xs \<longleftrightarrow> sorted_wrt (<) xs"

fun std_insert :: "'a::linorder \<Rightarrow> 'a list \<Rightarrow> 'a list" where
  "std_insert x [] = [x]"
| "std_insert x (y # ys) =
     (if x < y then x # y # ys else if x = y then y # ys else y # std_insert x ys)"

definition std_erase :: "'a::linorder \<Rightarrow> 'a list \<Rightarrow> 'a list" where
  "std_erase x xs = filter (\<lambda>y. y \<noteq> x) xs"

text \<open>The elements before \<open>lower_bound(x)\<close>, and those from it on.\<close>

definition std_before :: "'a::linorder \<Rightarrow> 'a list \<Rightarrow> 'a list" where
  "std_before x xs = takeWhile (\<lambda>y. y < x) xs"

definition std_from :: "'a::linorder \<Rightarrow> 'a list \<Rightarrow> 'a list" where
  "std_from x xs = dropWhile (\<lambda>y. y < x) xs"

lemma std_ok_Nil [simp]: "std_ok []"
  by (simp add: std_ok_def)

lemma std_ok_Cons: "std_ok (x # xs) \<longleftrightarrow> (\<forall>y\<in>set xs. x < y) \<and> std_ok xs"
  by (simp add: std_ok_def)

lemma std_ok_distinct: "std_ok xs \<Longrightarrow> distinct xs"
  by (induction xs) (auto simp: std_ok_Cons)

lemma set_std_insert [simp]: "set (std_insert x xs) = insert x (set xs)"
  by (induction xs) auto

lemma std_insert_ok: "std_ok xs \<Longrightarrow> std_ok (std_insert x xs)"
  by (induction xs) (auto simp: std_ok_Cons)

lemma set_std_erase [simp]: "set (std_erase x xs) = set xs - {x}"
  by (auto simp: std_erase_def)

lemma std_erase_ok: "std_ok xs \<Longrightarrow> std_ok (std_erase x xs)"
  by (induction xs) (auto simp: std_ok_Cons std_erase_def)

lemma std_before_from: "std_before x xs @ std_from x xs = xs"
  by (simp add: std_before_def std_from_def)

lemma std_before_ok: "std_ok xs \<Longrightarrow> std_ok (std_before x xs)"
  using std_before_from [of x xs] by (metis std_ok_def sorted_wrt_append)

lemma std_from_ok: "std_ok xs \<Longrightarrow> std_ok (std_from x xs)"
  using std_before_from [of x xs] by (metis std_ok_def sorted_wrt_append)

lemma std_before_eq: "std_ok xs \<Longrightarrow> std_before x xs = filter (\<lambda>y. y < x) xs"
proof (induction xs)
  case (Cons y ys)
  show ?case
  proof (cases "y < x")
    case True
    with Cons show ?thesis by (simp add: std_before_def std_ok_Cons)
  next
    case False
    with Cons.prems have "filter (\<lambda>z. z < x) ys = []"
      by (auto simp: std_ok_Cons filter_empty_conv)
    with False show ?thesis by (simp add: std_before_def)
  qed
qed (simp add: std_before_def)

lemma std_from_eq: "std_ok xs \<Longrightarrow> std_from x xs = filter (\<lambda>y. \<not> y < x) xs"
proof (induction xs)
  case (Cons y ys)
  show ?case
  proof (cases "y < x")
    case True
    with Cons show ?thesis by (simp add: std_from_def std_ok_Cons)
  next
    case False
    with Cons.prems have "filter (\<lambda>z. \<not> z < x) ys = ys"
      by (auto simp: std_ok_Cons filter_id_conv)
    with False show ?thesis by (simp add: std_from_def)
  qed
qed (simp add: std_from_def)

lemma std_hd_least: "std_ok xs \<Longrightarrow> x \<in> set xs \<Longrightarrow> hd xs \<le> x"
  by (cases xs) (auto simp: std_ok_Cons)

lemma std_length_card: "std_ok xs \<Longrightarrow> length xs = card (set xs)"
  using std_ok_distinct distinct_card by metis

lemma std_sorted_keys: "std_ok xs \<Longrightarrow> sorted (map fst (filter P xs))"
  by (induction xs) (auto simp: std_ok_Cons less_prod_def' intro: less_imp_le)

lemma std_first_key: "std_ok xs \<Longrightarrow> (v, x) \<in> set xs \<Longrightarrow> fst (hd xs) \<le> v"
  using std_hd_least [of xs "(v, x)"] by (cases "hd xs") auto

end
