(* ===== verification/Timer_Queue.thy ===== *)
theory Timer_Queue
  imports Std_Set
begin

section \<open>Timers: \<open>src/src/muduo/net/TimerQueue.cc\<close>, \<open>Timer.h\<close>, \<open>Timer.cc\<close>, \<open>TimerId.h\<close>\<close>

text \<open>
  Timers are heap objects, addressed by natural numbers; the queue holds the pending ones twice,
  ordered by expiration (\<open>timers_\<close>) and by address (\<open>activeTimers_\<close>).  A time is its microseconds
  since the epoch.  An interval is the pair of what the code makes of the \<open>double\<close> it is given:
  whether it is positive, and its microseconds.  Two things outside the repository are
  parameters: the allocator, and the callbacks, of which the model has the calls they make back
  into the queue.  What the timer descriptor was last armed for is \<open>tq_armed\<close>.
\<close>

record timer =
  t_expiration :: int
  t_interval :: int
  t_repeat :: bool
  t_sequence :: int

record timer_queue =
  tq_heap :: "nat \<rightharpoonup> timer"
  tq_created :: int                 \<comment> \<open>\<open>Timer::s_numCreated_\<close>\<close>
  tq_timers :: "(int \<times> nat) list"
  tq_active :: "(nat \<times> int) list"
  tq_calling :: bool
  tq_canceling :: "(nat \<times> int) list"
  tq_armed :: "int option"
  tq_ran :: "int list"              \<comment> \<open>the timers whose callback ran, by sequence number\<close>

type_synonym alloc_call = "(nat \<rightharpoonup> timer) \<Rightarrow> nat option"

definition kMicroSecondsPerSecond :: int where
  "kMicroSecondsPerSecond = 1000 * 1000"

definition UINTPTR_MAX :: nat where
  "UINTPTR_MAX = 2 ^ 64 - 1"

text \<open>\<open>addTime\<close> of \<open>Timestamp.h\<close>, on the microseconds of the delay.\<close>

definition addTime :: "int \<Rightarrow> int \<Rightarrow> int" where
  "addTime timestamp delta = timestamp + delta"

subsection \<open>One timer\<close>

definition new_timer :: "int \<Rightarrow> int \<Rightarrow> bool \<Rightarrow> int \<Rightarrow> timer" where
  "new_timer when interval repeats sequence =
     \<lparr>t_expiration = when, t_interval = interval, t_repeat = repeats, t_sequence = sequence\<rparr>"

definition restart :: "int \<Rightarrow> timer \<Rightarrow> timer" where
  "restart now t = t\<lparr>t_expiration := if t_repeat t then addTime now (t_interval t) else 0\<rparr>"

subsection \<open>The timer descriptor\<close>

text \<open>\<open>howMuchTimeFromNow\<close>: seconds and nanoseconds.\<close>

definition howMuchTimeFromNow :: "int \<Rightarrow> int \<Rightarrow> int \<times> int" where
  "howMuchTimeFromNow now when =
     (let microseconds = when - now;
          microseconds = (if microseconds < 100 then 100 else microseconds) in
      (microseconds sdiv kMicroSecondsPerSecond, (microseconds smod kMicroSecondsPerSecond) * 1000))"

definition resetTimerfd :: "int \<Rightarrow> timer_queue \<Rightarrow> timer_queue" where
  "resetTimerfd expiration q = q\<lparr>tq_armed := Some expiration\<rparr>"

subsection \<open>The queue\<close>

definition new_timer_queue :: "timer_queue" where
  "new_timer_queue = \<lparr>tq_heap = Map.empty, tq_created = 0, tq_timers = [], tq_active = [],
     tq_calling = False, tq_canceling = [], tq_armed = None, tq_ran = []\<rparr>"

definition same_sizes :: "timer_queue \<Rightarrow> bool" where
  "same_sizes q \<longleftrightarrow> length (tq_timers q) = length (tq_active q)"

definition insert_timer :: "nat \<Rightarrow> timer_queue \<Rightarrow> (bool \<times> timer_queue) res" where
  "insert_timer p q =
     asserting (same_sizes q)
       (case tq_heap q p of
          None \<Rightarrow> Inl Undefined
        | Some t \<Rightarrow>
            let when = t_expiration t;
                earliestChanged = (tq_timers q = [] \<or> when < fst (hd (tq_timers q))) in
            asserting ((when, p) \<notin> set (tq_timers q))
              (asserting ((p, t_sequence t) \<notin> set (tq_active q))
                (let q1 = q\<lparr>tq_timers := std_insert (when, p) (tq_timers q),
                            tq_active := std_insert (p, t_sequence t) (tq_active q)\<rparr> in
                 asserting (same_sizes q1) (Inr (earliestChanged, q1)))))"

definition addTimerInLoop :: "nat \<Rightarrow> timer_queue \<Rightarrow> timer_queue res" where
  "addTimerInLoop p q =
     bindR (insert_timer p q) (\<lambda>(earliestChanged, q).
       if earliestChanged
       then case tq_heap q p of None \<Rightarrow> Inl Undefined | Some t \<Rightarrow> Inr (resetTimerfd (t_expiration t) q)
       else Inr q)"

text \<open>\<open>addTimer\<close> in the loop's thread; from another one \<open>addTimerInLoop\<close> is queued.\<close>

definition addTimer ::
  "alloc_call \<Rightarrow> int \<Rightarrow> int \<Rightarrow> bool \<Rightarrow> timer_queue \<Rightarrow> ((nat \<times> int) \<times> timer_queue) res" where
  "addTimer alloc when interval repeats q =
     (case alloc (tq_heap q) of
        None \<Rightarrow> Inl BadAlloc
      | Some p \<Rightarrow>
          let sequence = tq_created q + 1;
              q1 = q\<lparr>tq_heap := (tq_heap q)(p \<mapsto> new_timer when interval repeats sequence),
                     tq_created := sequence\<rparr> in
          bindR (addTimerInLoop p q1) (\<lambda>q. Inr ((p, sequence), q)))"

definition cancelInLoop :: "nat \<times> int \<Rightarrow> timer_queue \<Rightarrow> timer_queue res" where
  "cancelInLoop timerId q =
     asserting (same_sizes q)
       (if timerId \<in> set (tq_active q) then
          case tq_heap q (fst timerId) of
            None \<Rightarrow> Inl Undefined
          | Some t \<Rightarrow>
              asserting ((t_expiration t, fst timerId) \<in> set (tq_timers q))
                (let q1 = q\<lparr>tq_timers := std_erase (t_expiration t, fst timerId) (tq_timers q),
                            tq_heap := (tq_heap q)(fst timerId := None),
                            tq_active := std_erase timerId (tq_active q)\<rparr> in
                 asserting (same_sizes q1) (Inr q1))
        else
          let q1 = (if tq_calling q
                    then q\<lparr>tq_canceling := std_insert timerId (tq_canceling q)\<rparr> else q) in
          asserting (same_sizes q1) (Inr q1))"

subsection \<open>Expiration\<close>

fun erase_active :: "(int \<times> nat) list \<Rightarrow> timer_queue \<Rightarrow> timer_queue res" where
  "erase_active [] q = Inr q"
| "erase_active ((when, p) # es) q =
     (case tq_heap q p of
        None \<Rightarrow> Inl Undefined
      | Some t \<Rightarrow>
          asserting ((p, t_sequence t) \<in> set (tq_active q))
            (erase_active es (q\<lparr>tq_active := std_erase (p, t_sequence t) (tq_active q)\<rparr>)))"

definition getExpired :: "int \<Rightarrow> timer_queue \<Rightarrow> ((int \<times> nat) list \<times> timer_queue) res" where
  "getExpired now q =
     asserting (same_sizes q)
       (let sentry = (now, UINTPTR_MAX);
            expired = std_before sentry (tq_timers q);
            rest = std_from sentry (tq_timers q) in
        asserting (rest = [] \<or> now < fst (hd rest))
          (bindR (erase_active expired (q\<lparr>tq_timers := rest\<rparr>)) (\<lambda>q.
            asserting (same_sizes q) (Inr (expired, q)))))"

fun reset_loop :: "(int \<times> nat) list \<Rightarrow> int \<Rightarrow> timer_queue \<Rightarrow> timer_queue res" where
  "reset_loop [] now q = Inr q"
| "reset_loop ((when, p) # es) now q =
     (case tq_heap q p of
        None \<Rightarrow> Inl Undefined
      | Some t \<Rightarrow>
          if t_repeat t \<and> (p, t_sequence t) \<notin> set (tq_canceling q)
          then bindR (insert_timer p (q\<lparr>tq_heap := (tq_heap q)(p \<mapsto> restart now t)\<rparr>))
                 (\<lambda>(earliestChanged, q). reset_loop es now q)
          else reset_loop es now (q\<lparr>tq_heap := (tq_heap q)(p := None)\<rparr>))"

definition reset_timers :: "(int \<times> nat) list \<Rightarrow> int \<Rightarrow> timer_queue \<Rightarrow> timer_queue res" where
  "reset_timers expired now q =
     bindR (reset_loop expired now q) (\<lambda>q.
       case tq_timers q of
         [] \<Rightarrow> Inr q
       | (when, p) # _ \<Rightarrow>
           (case tq_heap q p of
              None \<Rightarrow> Inl Undefined
            | Some t \<Rightarrow>
                Inr (if 0 < t_expiration t then resetTimerfd (t_expiration t) q else q)))"

text \<open>What a callback does with the queue.\<close>

datatype timer_call =
    AddTimer int int bool
  | CancelTimer "nat \<times> int"

fun exec_call :: "alloc_call \<Rightarrow> timer_call \<Rightarrow> timer_queue \<Rightarrow> timer_queue res" where
  "exec_call alloc (AddTimer when interval repeats) q =
     bindR (addTimer alloc when interval repeats q) (\<lambda>(timerId, q). Inr q)"
| "exec_call alloc (CancelTimer timerId) q = cancelInLoop timerId q"

fun exec_calls :: "alloc_call \<Rightarrow> timer_call list \<Rightarrow> timer_queue \<Rightarrow> timer_queue res" where
  "exec_calls alloc [] q = Inr q"
| "exec_calls alloc (c # cs) q = bindR (exec_call alloc c q) (exec_calls alloc cs)"

fun run_expired ::
  "alloc_call \<Rightarrow> (int \<Rightarrow> timer_call list) \<Rightarrow> (int \<times> nat) list \<Rightarrow> timer_queue \<Rightarrow> timer_queue res" where
  "run_expired alloc callback [] q = Inr q"
| "run_expired alloc callback ((when, p) # es) q =
     (case tq_heap q p of
        None \<Rightarrow> Inl Undefined
      | Some t \<Rightarrow>
          bindR (exec_calls alloc (callback (t_sequence t)) (q\<lparr>tq_ran := tq_ran q @ [t_sequence t]\<rparr>))
            (run_expired alloc callback es))"

text \<open>\<open>handleRead\<close>; the descriptor has fired and is not armed any more.\<close>

definition handleTimers ::
  "alloc_call \<Rightarrow> (int \<Rightarrow> timer_call list) \<Rightarrow> int \<Rightarrow> timer_queue \<Rightarrow> timer_queue res" where
  "handleTimers alloc callback now q =
     bindR (getExpired now (q\<lparr>tq_armed := None\<rparr>)) (\<lambda>(expired, q).
     bindR (run_expired alloc callback expired (q\<lparr>tq_calling := True, tq_canceling := []\<rparr>)) (\<lambda>q.
     reset_timers expired now (q\<lparr>tq_calling := False\<rparr>)))"

text \<open>The destructor deletes every pending timer.\<close>

definition destroy_timer_queue :: "timer_queue \<Rightarrow> timer_queue" where
  "destroy_timer_queue q = q\<lparr>tq_heap := (\<lambda>p. if p \<in> snd ` set (tq_timers q) then None else tq_heap q p)\<rparr>"

subsection \<open>The loop's timer functions\<close>

text \<open>\<open>runAt\<close>, \<open>runAfter\<close>, \<open>runEvery\<close> and
  \<open>cancel\<close> of \<open>EventLoop.cc\<close> in the loop's thread.  \<open>positive\<close>: the interval is above zero.\<close>

definition runAt :: "alloc_call \<Rightarrow> int \<Rightarrow> timer_queue \<Rightarrow> ((nat \<times> int) \<times> timer_queue) res" where
  "runAt alloc time q = addTimer alloc time 0 False q"

definition runAfter :: "alloc_call \<Rightarrow> int \<Rightarrow> int \<Rightarrow> timer_queue \<Rightarrow> ((nat \<times> int) \<times> timer_queue) res" where
  "runAfter alloc now delay q = runAt alloc (addTime now delay) q"

definition runEvery ::
  "alloc_call \<Rightarrow> int \<Rightarrow> int \<Rightarrow> bool \<Rightarrow> timer_queue \<Rightarrow> ((nat \<times> int) \<times> timer_queue) res" where
  "runEvery alloc now interval positive q = addTimer alloc (addTime now interval) interval positive q"

definition cancel :: "nat \<times> int \<Rightarrow> timer_queue \<Rightarrow> timer_queue res" where
  "cancel timerId q = cancelInLoop timerId q"

subsection \<open>The invariant\<close>

text \<open>
  \<open>X\<close> are the timers that have been taken out because they expired and are being run; it is empty
  outside \<open>handleRead\<close>.  Every allocated timer that is not among them is in both sets, under its
  current expiration and its sequence number, and nothing else is.
\<close>

definition heap_ok :: "timer_queue \<Rightarrow> bool" where
  "heap_ok q \<longleftrightarrow> finite (dom (tq_heap q)) \<and>
     (\<forall>p t. tq_heap q p = Some t \<longrightarrow> p < UINTPTR_MAX \<and> t_sequence t \<le> tq_created q) \<and>
     (\<forall>p p' t t'. tq_heap q p = Some t \<longrightarrow> tq_heap q p' = Some t' \<longrightarrow>
        t_sequence t = t_sequence t' \<longrightarrow> p = p')"

definition sets_ok :: "timer_queue \<Rightarrow> nat set \<Rightarrow> bool" where
  "sets_ok q X \<longleftrightarrow> std_ok (tq_timers q) \<and> std_ok (tq_active q) \<and>
     (\<forall>w p. (w, p) \<in> set (tq_timers q) \<longleftrightarrow>
        (\<exists>t. tq_heap q p = Some t \<and> t_expiration t = w \<and> p \<notin> X)) \<and>
     (\<forall>p n. (p, n) \<in> set (tq_active q) \<longleftrightarrow>
        (\<exists>t. tq_heap q p = Some t \<and> t_sequence t = n \<and> p \<notin> X)) \<and>
     (\<forall>p \<in> X. tq_heap q p \<noteq> None)"

definition tq_inv :: "timer_queue \<Rightarrow> nat set \<Rightarrow> bool" where
  "tq_inv q X \<longleftrightarrow> heap_ok q \<and> sets_ok q X"

lemma tq_inv_parts: "tq_inv q X \<Longrightarrow> heap_ok q" "tq_inv q X \<Longrightarrow> sets_ok q X"
  by (simp_all add: tq_inv_def)

lemma tq_inv_timers:
  "tq_inv q X \<Longrightarrow> (w, p) \<in> set (tq_timers q) \<longleftrightarrow>
     (\<exists>t. tq_heap q p = Some t \<and> t_expiration t = w \<and> p \<notin> X)"
  by (simp add: tq_inv_def sets_ok_def)

lemma tq_inv_active:
  "tq_inv q X \<Longrightarrow> (p, n) \<in> set (tq_active q) \<longleftrightarrow>
     (\<exists>t. tq_heap q p = Some t \<and> t_sequence t = n \<and> p \<notin> X)"
  by (simp add: tq_inv_def sets_ok_def)

lemma tq_inv_std: "tq_inv q X \<Longrightarrow> std_ok (tq_timers q)" "tq_inv q X \<Longrightarrow> std_ok (tq_active q)"
  by (simp_all add: tq_inv_def sets_ok_def)

lemma tq_inv_sizes:
  assumes inv: "tq_inv q X"
  shows "same_sizes q"
proof -
  have "set (tq_timers q) = (\<lambda>p. (t_expiration (the (tq_heap q p)), p)) ` (dom (tq_heap q) - X)"
    by (force simp: tq_inv_timers [OF inv])
  then have "card (set (tq_timers q)) = card (dom (tq_heap q) - X)"
    by (simp add: card_image inj_on_def)
  moreover have "set (tq_active q) = (\<lambda>p. (p, t_sequence (the (tq_heap q p)))) ` (dom (tq_heap q) - X)"
    by (force simp: tq_inv_active [OF inv])
  then have "card (set (tq_active q)) = card (dom (tq_heap q) - X)"
    by (simp add: card_image inj_on_def)
  ultimately show ?thesis
    using tq_inv_std [OF inv] by (simp add: same_sizes_def std_length_card)
qed

lemma new_timer_queue_inv: "tq_inv new_timer_queue {}"
  by (simp add: tq_inv_def heap_ok_def sets_ok_def new_timer_queue_def)

text \<open>Changes that the invariant does not see.\<close>

lemma tq_inv_flags [simp]:
  "tq_inv (q\<lparr>tq_calling := b\<rparr>) X = tq_inv q X" "tq_inv (q\<lparr>tq_canceling := c\<rparr>) X = tq_inv q X"
  "tq_inv (q\<lparr>tq_armed := a\<rparr>) X = tq_inv q X" "tq_inv (q\<lparr>tq_ran := r\<rparr>) X = tq_inv q X"
  by (simp_all add: tq_inv_def heap_ok_def sets_ok_def)

text \<open>Putting a timer that is out of the sets into them.\<close>

lemma insert_timer_ok:
  assumes inv: "tq_inv q X" and p: "p \<in> X" and t: "tq_heap q p = Some t"
  defines "q' \<equiv> q\<lparr>tq_timers := std_insert (t_expiration t, p) (tq_timers q),
                   tq_active := std_insert (p, t_sequence t) (tq_active q)\<rparr>"
  shows "insert_timer p q =
      Inr (tq_timers q = [] \<or> t_expiration t < fst (hd (tq_timers q)), q')"
    and "tq_inv q' (X - {p})"
proof -
  have "heap_ok q'"
    using inv by (simp add: tq_inv_def heap_ok_def q'_def)
  moreover have "sets_ok q' (X - {p})"
    using tq_inv_parts(2) [OF inv] t
    by (auto simp: sets_ok_def q'_def std_insert_ok)
  ultimately show inv': "tq_inv q' (X - {p})"
    by (simp add: tq_inv_def)
  have "(t_expiration t, p) \<notin> set (tq_timers q)" "(p, t_sequence t) \<notin> set (tq_active q)"
    using p by (simp_all add: tq_inv_timers [OF inv] tq_inv_active [OF inv])
  then show "insert_timer p q =
      Inr (tq_timers q = [] \<or> t_expiration t < fst (hd (tq_timers q)), q')"
    using tq_inv_sizes [OF inv] tq_inv_sizes [OF inv'] t
    by (simp add: insert_timer_def q'_def Let_def)
qed

text \<open>Changing a timer that is out of the sets, allocating one there, and freeing one.\<close>

lemma tq_inv_update:
  assumes inv: "tq_inv q X" and p: "p \<in> X" and t: "tq_heap q p = Some t" "t_sequence t' = t_sequence t"
  shows "tq_inv (q\<lparr>tq_heap := (tq_heap q)(p \<mapsto> t')\<rparr>) X"
proof -
  have "heap_ok (q\<lparr>tq_heap := (tq_heap q)(p \<mapsto> t')\<rparr>)"
    using tq_inv_parts(1) [OF inv] t unfolding heap_ok_def by (auto split: if_splits)
  moreover have "sets_ok (q\<lparr>tq_heap := (tq_heap q)(p \<mapsto> t')\<rparr>) X"
    using tq_inv_parts(2) [OF inv] p by (auto simp: sets_ok_def)
  ultimately show ?thesis
    by (simp add: tq_inv_def)
qed

lemma tq_inv_alloc:
  assumes inv: "tq_inv q X" and p: "tq_heap q p = None" "p < UINTPTR_MAX"
    and t: "t_sequence t = tq_created q + 1"
  shows "tq_inv (q\<lparr>tq_heap := (tq_heap q)(p \<mapsto> t), tq_created := tq_created q + 1\<rparr>) (insert p X)"
proof -
  have "heap_ok (q\<lparr>tq_heap := (tq_heap q)(p \<mapsto> t), tq_created := tq_created q + 1\<rparr>)"
    using tq_inv_parts(1) [OF inv] p t unfolding heap_ok_def by (fastforce split: if_splits)
  moreover have "sets_ok (q\<lparr>tq_heap := (tq_heap q)(p \<mapsto> t), tq_created := tq_created q + 1\<rparr>) (insert p X)"
    using tq_inv_parts(2) [OF inv] p by (auto simp: sets_ok_def)
  ultimately show ?thesis
    by (simp add: tq_inv_def)
qed

lemma tq_inv_free:
  assumes inv: "tq_inv q X" and p: "p \<in> X"
  shows "tq_inv (q\<lparr>tq_heap := (tq_heap q)(p := None)\<rparr>) (X - {p})"
proof -
  have "heap_ok (q\<lparr>tq_heap := (tq_heap q)(p := None)\<rparr>)"
    using tq_inv_parts(1) [OF inv] unfolding heap_ok_def by (auto split: if_splits)
  moreover have "sets_ok (q\<lparr>tq_heap := (tq_heap q)(p := None)\<rparr>) (X - {p})"
    using tq_inv_parts(2) [OF inv] p by (auto simp: sets_ok_def)
  ultimately show ?thesis
    by (simp add: tq_inv_def)
qed

subsection \<open>The operations keep it\<close>

text \<open>What the allocator promises: an address that is not in use, if any.\<close>

definition alloc_ok :: "alloc_call \<Rightarrow> bool" where
  "alloc_ok alloc \<longleftrightarrow> (\<forall>h p. alloc h = Some p \<longrightarrow> h p = None \<and> p < UINTPTR_MAX)"

text \<open>What no call from a callback changes: the timers being run, and the record of the runs.\<close>

definition tq_frame :: "nat set \<Rightarrow> timer_queue \<Rightarrow> timer_queue \<Rightarrow> bool" where
  "tq_frame X q q' \<longleftrightarrow> (\<forall>p \<in> X. tq_heap q' p = tq_heap q p) \<and> tq_calling q' = tq_calling q \<and>
     tq_ran q' = tq_ran q \<and> set (tq_canceling q) \<subseteq> set (tq_canceling q') \<and>
     tq_created q \<le> tq_created q'"

lemma tq_frame_refl [simp]: "tq_frame X q q"
  by (simp add: tq_frame_def)

lemma tq_frame_trans: "tq_frame X q q' \<Longrightarrow> tq_frame X q' q'' \<Longrightarrow> tq_frame X q q''"
  by (auto simp: tq_frame_def)

lemma addTimer_ok:
  assumes inv: "tq_inv q X" and alloc: "alloc_ok alloc" "alloc (tq_heap q) = Some p"
  obtains q' where "addTimer alloc when interval repeats q = Inr ((p, tq_created q + 1), q')"
    and "tq_inv q' X" and "tq_frame X q q'"
    and "tq_heap q' = (tq_heap q)(p \<mapsto> new_timer when interval repeats (tq_created q + 1))"
    and "tq_timers q' = std_insert (when, p) (tq_timers q)"
    and "tq_armed q' = (if tq_timers q = [] \<or> when < fst (hd (tq_timers q)) then Some when else tq_armed q)"
proof -
  let ?t = "new_timer when interval repeats (tq_created q + 1)"
  let ?q1 = "q\<lparr>tq_heap := (tq_heap q)(p \<mapsto> ?t), tq_created := tq_created q + 1\<rparr>"
  have p: "tq_heap q p = None" "p < UINTPTR_MAX"
    using alloc by (auto simp: alloc_ok_def)
  have px: "p \<notin> X"
    using tq_inv_parts(2) [OF inv] p(1) by (auto simp: sets_ok_def)
  have inv1: "tq_inv ?q1 (insert p X)"
    by (rule tq_inv_alloc [OF inv p]) (simp add: new_timer_def)
  have t: "tq_heap ?q1 p = Some ?t"
    by simp
  note ins = insert_timer_ok [OF inv1 insertI1 t]
  let ?q2 = "?q1\<lparr>tq_timers := std_insert (t_expiration ?t, p) (tq_timers ?q1),
                 tq_active := std_insert (p, t_sequence ?t) (tq_active ?q1)\<rparr>"
  have inv2: "tq_inv ?q2 X"
    using ins(2) px by simp
  have frame: "tq_frame X q ?q2"
    using px by (auto simp: tq_frame_def)
  show thesis
  proof (cases "tq_timers q = [] \<or> when < fst (hd (tq_timers q))")
    case True
    then have "addTimer alloc when interval repeats q =
        Inr ((p, tq_created q + 1), resetTimerfd when ?q2)"
      using alloc(2) ins(1) by (simp add: addTimer_def addTimerInLoop_def Let_def new_timer_def)
    then show thesis
      using that inv2 frame True by (simp add: resetTimerfd_def new_timer_def tq_frame_def)
  next
    case False
    then have "addTimer alloc when interval repeats q = Inr ((p, tq_created q + 1), ?q2)"
      using alloc(2) ins(1) by (simp add: addTimer_def addTimerInLoop_def Let_def new_timer_def)
    then show thesis
      using that inv2 frame False by (simp add: new_timer_def)
  qed
qed

lemma cancelInLoop_ok:
  assumes inv: "tq_inv q X"
  obtains q' where "cancelInLoop (p, n) q = Inr q'" and "tq_inv q' X" and "tq_frame X q q'"
    and "tq_armed q' = tq_armed q" and "set (tq_timers q') \<subseteq> set (tq_timers q)"
    and "(p, n) \<in> set (tq_active q) \<Longrightarrow> tq_heap q' = (tq_heap q)(p := None)"
    and "(p, n) \<notin> set (tq_active q) \<Longrightarrow> tq_heap q' = tq_heap q"
    and "(p, n) \<notin> set (tq_active q) \<Longrightarrow> tq_calling q \<Longrightarrow> (p, n) \<in> set (tq_canceling q')"
proof (cases "(p, n) \<in> set (tq_active q)")
  case True
  then obtain t where t: "tq_heap q p = Some t" "t_sequence t = n" "p \<notin> X"
    by (auto simp: tq_inv_active [OF inv])
  let ?q = "q\<lparr>tq_timers := std_erase (t_expiration t, p) (tq_timers q),
              tq_heap := (tq_heap q)(p := None), tq_active := std_erase (p, n) (tq_active q)\<rparr>"
  have "heap_ok ?q"
    using tq_inv_parts(1) [OF inv] unfolding heap_ok_def by (auto split: if_splits)
  moreover have "sets_ok ?q X"
    using tq_inv_parts(2) [OF inv] t by (auto simp: sets_ok_def std_erase_ok)
  ultimately have inv': "tq_inv ?q X"
    by (simp add: tq_inv_def)
  have "cancelInLoop (p, n) q = Inr ?q"
    using True t tq_inv_sizes [OF inv] tq_inv_sizes [OF inv']
    by (simp add: cancelInLoop_def Let_def tq_inv_timers [OF inv])
  then show thesis
    using that inv' True t(3) by (auto simp: tq_frame_def)
next
  case False
  let ?q = "if tq_calling q then q\<lparr>tq_canceling := std_insert (p, n) (tq_canceling q)\<rparr> else q"
  have "tq_inv ?q X"
    using inv by simp
  moreover have "cancelInLoop (p, n) q = Inr ?q"
    using False tq_inv_sizes [OF inv] by (simp add: cancelInLoop_def Let_def same_sizes_def)
  ultimately show thesis
    using that [of ?q] False by (cases "tq_calling q") (auto simp: tq_frame_def)
qed

lemma exec_call_ok:
  assumes inv: "tq_inv q X" and alloc: "alloc_ok alloc"
  shows "exec_call alloc c q = Inl BadAlloc \<or>
    (\<exists>q'. exec_call alloc c q = Inr q' \<and> tq_inv q' X \<and> tq_frame X q q')"
proof (cases c)
  case (AddTimer w interval repeats)
  show ?thesis
  proof (cases "alloc (tq_heap q)")
    case None
    with AddTimer show ?thesis by (simp add: addTimer_def)
  next
    case (Some p)
    obtain q' where "addTimer alloc w interval repeats q = Inr ((p, tq_created q + 1), q')"
        "tq_inv q' X" "tq_frame X q q'"
      using addTimer_ok [OF inv alloc Some] by blast
    with AddTimer show ?thesis by simp
  qed
next
  case (CancelTimer timerId)
  obtain p n where "timerId = (p, n)" by (cases timerId)
  then obtain q' where "cancelInLoop timerId q = Inr q'" "tq_inv q' X" "tq_frame X q q'"
    using cancelInLoop_ok [OF inv] by blast
  with CancelTimer show ?thesis by simp
qed

lemma exec_calls_ok:
  assumes "tq_inv q X" and alloc: "alloc_ok alloc"
  shows "exec_calls alloc cs q = Inl BadAlloc \<or>
    (\<exists>q'. exec_calls alloc cs q = Inr q' \<and> tq_inv q' X \<and> tq_frame X q q')"
  using assms(1)
proof (induction cs arbitrary: q)
  case (Cons c cs)
  from exec_call_ok [OF Cons.prems alloc, of c] show ?case
  proof
    assume "\<exists>q'. exec_call alloc c q = Inr q' \<and> tq_inv q' X \<and> tq_frame X q q'"
    then obtain q1 where "exec_call alloc c q = Inr q1" "tq_inv q1 X" "tq_frame X q q1"
      by blast
    with Cons.IH [of q1] show ?thesis
      using tq_frame_trans by auto
  qed simp
qed auto

text \<open>Before and after \<open>lower_bound\<close> of the sentry: expired or not.\<close>

lemma before_sentry:
  "tq_inv q X \<Longrightarrow> std_before (now, UINTPTR_MAX) (tq_timers q) =
     filter (\<lambda>(w, p). w \<le> now) (tq_timers q)"
  "tq_inv q X \<Longrightarrow> std_from (now, UINTPTR_MAX) (tq_timers q) =
     filter (\<lambda>(w, p). now < w) (tq_timers q)"
proof -
  assume inv: "tq_inv q X"
  have p: "p < UINTPTR_MAX" if "(w, p) \<in> set (tq_timers q)" for w p
    using that tq_inv_parts(1) [OF inv] by (auto simp: tq_inv_timers [OF inv] heap_ok_def)
  show "std_before (now, UINTPTR_MAX) (tq_timers q) = filter (\<lambda>(w, p). w \<le> now) (tq_timers q)"
    unfolding std_before_eq [OF tq_inv_std(1) [OF inv]]
    by (rule filter_cong) (auto dest: p)
  show "std_from (now, UINTPTR_MAX) (tq_timers q) = filter (\<lambda>(w, p). now < w) (tq_timers q)"
    unfolding std_from_eq [OF tq_inv_std(1) [OF inv]]
    by (rule filter_cong) (auto dest: p)
qed

lemma erase_active_ok:
  assumes "\<forall>(w, p) \<in> set es. \<exists>t. tq_heap q p = Some t \<and> (p, t_sequence t) \<in> set (tq_active q)"
    and "distinct (map snd es)" and "std_ok (tq_active q)"
  shows "\<exists>act. erase_active es q = Inr (q\<lparr>tq_active := act\<rparr>) \<and> std_ok act \<and>
    set act = set (tq_active q) - {(p, t_sequence (the (tq_heap q p))) | p. p \<in> snd ` set es}"
  using assms
proof (induction es arbitrary: q)
  case Nil
  then show ?case by (intro exI [of _ "tq_active q"]) simp
next
  case (Cons e es)
  obtain w p where e: "e = (w, p)" by (cases e)
  with Cons.prems obtain t where t: "tq_heap q p = Some t" "(p, t_sequence t) \<in> set (tq_active q)"
    by auto
  let ?q = "q\<lparr>tq_active := std_erase (p, t_sequence t) (tq_active q)\<rparr>"
  have "\<forall>(w, r) \<in> set es. \<exists>t. tq_heap ?q r = Some t \<and> (r, t_sequence t) \<in> set (tq_active ?q)"
  proof clarify
    fix w' r assume r: "(w', r) \<in> set es"
    then have "r \<noteq> p"
      using Cons.prems(2) e by force
    moreover obtain u where "tq_heap q r = Some u" "(r, t_sequence u) \<in> set (tq_active q)"
      using Cons.prems(1) r by auto
    ultimately show "\<exists>t. tq_heap ?q r = Some t \<and> (r, t_sequence t) \<in> set (tq_active ?q)"
      by simp
  qed
  then obtain act where act: "erase_active es ?q = Inr (?q\<lparr>tq_active := act\<rparr>)" "std_ok act"
      "set act = set (tq_active ?q) - {(p, t_sequence (the (tq_heap ?q p))) | p. p \<in> snd ` set es}"
    using Cons.IH [of ?q] Cons.prems(2,3) e by (auto simp: std_erase_ok)
  then show ?case
    using t e by (intro exI [of _ act]) auto
qed

lemma getExpired_ok:
  fixes q :: timer_queue and now :: int
  assumes inv: "tq_inv q {}"
  defines "expired \<equiv> filter (\<lambda>(w, p). w \<le> now) (tq_timers q)"
  obtains act where "getExpired now q = Inr (expired,
      q\<lparr>tq_timers := filter (\<lambda>(w, p). now < w) (tq_timers q), tq_active := act\<rparr>)"
    and "tq_inv (q\<lparr>tq_timers := filter (\<lambda>(w, p). now < w) (tq_timers q), tq_active := act\<rparr>)
      (snd ` set expired)"
proof -
  let ?rest = "filter (\<lambda>(w, p). now < w) (tq_timers q)"
  have uniq: "w = w'" if "(w, p) \<in> set (tq_timers q)" "(w', p) \<in> set (tq_timers q)" for w w' p
    using that by (auto simp: tq_inv_timers [OF inv])
  have dist: "distinct (map snd expired)"
    using std_ok_distinct [OF tq_inv_std(1) [OF inv]] uniq
    by (auto simp: expired_def distinct_map inj_on_def distinct_filter)
  have members: "\<forall>(w, p) \<in> set expired. \<exists>t. tq_heap q p = Some t \<and> (p, t_sequence t) \<in> set (tq_active q)"
    by (auto simp: expired_def tq_inv_timers [OF inv] tq_inv_active [OF inv])
  obtain act where act: "erase_active expired (q\<lparr>tq_timers := ?rest\<rparr>) =
        Inr (q\<lparr>tq_timers := ?rest, tq_active := act\<rparr>)" "std_ok act"
      "set act = set (tq_active q) - {(p, t_sequence (the (tq_heap q p))) | p. p \<in> snd ` set expired}"
    using erase_active_ok [of expired "q\<lparr>tq_timers := ?rest\<rparr>"] members dist tq_inv_std(2) [OF inv]
    by auto
  let ?q = "q\<lparr>tq_timers := ?rest, tq_active := act\<rparr>"
  have X: "p \<in> snd ` set expired \<longleftrightarrow> (\<exists>t. tq_heap q p = Some t \<and> t_expiration t \<le> now)" for p
    by (force simp: expired_def tq_inv_timers [OF inv])
  have "sets_ok ?q (snd ` set expired)"
    unfolding sets_ok_def
  proof (intro conjI allI ballI)
    show "std_ok (tq_timers ?q)"
      using std_from_ok [OF tq_inv_std(1) [OF inv], of "(now, UINTPTR_MAX)"] before_sentry(2) [OF inv]
      by simp
    show "std_ok (tq_active ?q)"
      using act(2) by simp
    show "(w, p) \<in> set (tq_timers ?q) \<longleftrightarrow>
        (\<exists>t. tq_heap ?q p = Some t \<and> t_expiration t = w \<and> p \<notin> snd ` set expired)" for w p
      by (auto simp: tq_inv_timers [OF inv] X)
    show "(p, n) \<in> set (tq_active ?q) \<longleftrightarrow>
        (\<exists>t. tq_heap ?q p = Some t \<and> t_sequence t = n \<and> p \<notin> snd ` set expired)" for p n
      by (auto simp: act(3) tq_inv_active [OF inv])
    show "tq_heap ?q p \<noteq> None" if "p \<in> snd ` set expired" for p
      using that by (auto simp: X)
  qed
  moreover have "heap_ok ?q"
    using tq_inv_parts(1) [OF inv] by (simp add: heap_ok_def)
  ultimately have inv': "tq_inv ?q (snd ` set expired)"
    by (simp add: tq_inv_def)
  have "?rest = [] \<or> now < fst (hd ?rest)"
    using hd_in_set [of ?rest] by (cases "?rest = []") (auto simp del: hd_in_set)
  then have "getExpired now q = Inr (expired, ?q)"
    using tq_inv_sizes [OF inv] tq_inv_sizes [OF inv'] act(1)
    unfolding getExpired_def Let_def before_sentry [OF inv] expired_def by simp
  with inv' that show thesis by blast
qed

subsection \<open>Running and resetting the expired timers\<close>

definition sequence_of :: "timer_queue \<Rightarrow> nat \<Rightarrow> int" where
  "sequence_of q p = t_sequence (the (tq_heap q p))"

lemma sequence_of_frame: "tq_frame X q q' \<Longrightarrow> p \<in> X \<Longrightarrow> sequence_of q' p = sequence_of q p"
  by (simp add: tq_frame_def sequence_of_def)

text \<open>A cancellation of a timer that is being run is remembered.\<close>

lemma exec_calls_cancel:
  assumes "tq_inv q X" and alloc: "alloc_ok alloc" and "exec_calls alloc cs q = Inr q'"
    and "tq_calling q" and "p \<in> X" and "CancelTimer (p, n) \<in> set cs"
  shows "(p, n) \<in> set (tq_canceling q')"
  using assms(1,3-)
proof (induction cs arbitrary: q)
  case (Cons c cs)
  obtain q1 where q1: "exec_call alloc c q = Inr q1" "exec_calls alloc cs q1 = Inr q'"
    using Cons.prems(2) by (auto simp: res_simps)
  then have f1: "tq_inv q1 X" "tq_frame X q q1"
    using exec_call_ok [OF Cons.prems(1) alloc, of c] by auto
  show ?case
  proof (cases "c = CancelTimer (p, n)")
    case True
    have "(p, n) \<notin> set (tq_active q)"
      using Cons.prems(4) by (simp add: tq_inv_active [OF Cons.prems(1)])
    then have "(p, n) \<in> set (tq_canceling q1)"
      using cancelInLoop_ok [OF Cons.prems(1), of p n] q1(1) True Cons.prems(3)
      by (metis Inr_inject exec_call.simps(2))
    moreover have "tq_frame X q1 q'"
      using exec_calls_ok [OF f1(1) alloc, of cs] q1(2) by auto
    ultimately show ?thesis
      by (auto simp: tq_frame_def)
  next
    case False
    with Cons.IH [OF f1(1) q1(2)] f1(2) Cons.prems show ?thesis
      by (auto simp: tq_frame_def)
  qed
qed simp

lemma exec_call_canceling:
  "exec_call alloc c q = Inr q' \<Longrightarrow>
     set (tq_canceling q') \<subseteq> set (tq_canceling q) \<union> {i. c = CancelTimer i}"
  by (cases c) (auto simp: addTimer_def addTimerInLoop_def insert_timer_def cancelInLoop_def Let_def
      resetTimerfd_def res_simps split: option.splits if_splits)

lemma exec_calls_canceling:
  "exec_calls alloc cs q = Inr q' \<Longrightarrow>
     set (tq_canceling q') \<subseteq> set (tq_canceling q) \<union> {i. CancelTimer i \<in> set cs}"
proof (induction cs arbitrary: q)
  case (Cons c cs)
  then obtain q1 where "exec_call alloc c q = Inr q1" "exec_calls alloc cs q1 = Inr q'"
    by (auto simp: res_simps)
  with Cons.IH [of q1] exec_call_canceling [of alloc c q q1] show ?case by auto
qed simp

definition ran_ok :: "nat set \<Rightarrow> (int \<Rightarrow> timer_call list) \<Rightarrow> (int \<times> nat) list \<Rightarrow> timer_queue \<Rightarrow>
    timer_queue \<Rightarrow> bool" where
  "ran_ok X callback es q q' \<longleftrightarrow> tq_inv q' X \<and>
     (\<forall>p \<in> X. tq_heap q' p = tq_heap q p) \<and>
     tq_ran q' = tq_ran q @ map (\<lambda>e. sequence_of q (snd e)) es \<and>
     (\<forall>p \<in> X. \<forall>n. (p, n) \<in> set (tq_canceling q') \<longleftrightarrow> (p, n) \<in> set (tq_canceling q) \<or>
        (\<exists>e \<in> set es. CancelTimer (p, n) \<in> set (callback (sequence_of q (snd e)))))"

lemma run_expired_ok:
  assumes "tq_inv q X" and alloc: "alloc_ok alloc" and "snd ` set es \<subseteq> X" and "tq_calling q"
  shows "run_expired alloc callback es q = Inl BadAlloc \<or>
    (\<exists>q'. run_expired alloc callback es q = Inr q' \<and> ran_ok X callback es q q')"
  using assms(1,3,4)
proof (induction es arbitrary: q)
  case Nil
  then show ?case by (simp add: ran_ok_def)
next
  case (Cons e es)
  obtain w p where e: "e = (w, p)" by (cases e)
  then obtain t where t: "tq_heap q p = Some t"
    using Cons.prems(1,2) by (auto simp: tq_inv_def sets_ok_def)
  let ?q = "q\<lparr>tq_ran := tq_ran q @ [t_sequence t]\<rparr>"
  let ?cs = "callback (t_sequence t)"
  have inv: "tq_inv ?q X"
    using Cons.prems(1) by simp
  show ?case
  proof (cases "exec_calls alloc ?cs ?q = Inl BadAlloc")
    case True
    with e t show ?thesis by simp
  next
    case False
    then obtain q1 where q1: "exec_calls alloc ?cs ?q = Inr q1" "tq_inv q1 X" "tq_frame X ?q q1"
      using exec_calls_ok [OF inv alloc, of ?cs] by blast
    have run: "run_expired alloc callback (e # es) q = run_expired alloc callback es q1"
      using e t q1(1) by simp
    have cancelled: "(r, n) \<in> set (tq_canceling q1) \<longleftrightarrow>
        (r, n) \<in> set (tq_canceling q) \<or> CancelTimer (r, n) \<in> set ?cs" if "r \<in> X" for r n
      using exec_calls_cancel [OF inv alloc q1(1)] Cons.prems(3) that
        exec_calls_canceling [OF q1(1)] q1(3) by (auto simp: tq_frame_def)
    have seqs: "sequence_of q1 r = sequence_of q r" if "r \<in> X" for r
      using q1(3) that by (simp add: sequence_of_def tq_frame_def)
    have sub: "snd ` set es \<subseteq> X" and calling: "tq_calling q1"
      using Cons.prems(2,3) q1(3) by (auto simp: tq_frame_def)
    have "ran_ok X callback (e # es) q q2" if q2: "ran_ok X callback es q1 q2" for q2
    proof -
      have "map (\<lambda>e. sequence_of q1 (snd e)) es = map (\<lambda>e. sequence_of q (snd e)) es"
        using seqs sub by auto
      moreover have "(\<exists>f \<in> set es. CancelTimer (r, n) \<in> set (callback (sequence_of q1 (snd f)))) \<longleftrightarrow>
          (\<exists>f \<in> set es. CancelTimer (r, n) \<in> set (callback (sequence_of q (snd f))))" for r n
        using seqs sub by (intro bex_cong refl) auto
      moreover have "sequence_of q (snd e) = t_sequence t"
        using e t by (simp add: sequence_of_def)
      ultimately show ?thesis
        using q2 q1(3) cancelled unfolding ran_ok_def by (auto simp: tq_frame_def)
    qed
    with Cons.IH [OF q1(2) sub calling] show ?thesis
      unfolding run by blast
  qed
qed

text \<open>What becomes of a timer that was run.\<close>

definition rescheduled :: "int \<Rightarrow> (nat \<times> int \<Rightarrow> bool) \<Rightarrow> timer_queue \<Rightarrow> nat \<Rightarrow> timer option" where
  "rescheduled now cancelled q p =
     (let t = the (tq_heap q p) in
      if t_repeat t \<and> \<not> cancelled (p, t_sequence t) then Some (restart now t) else None)"

lemma reset_loop_ok:
  assumes "tq_inv q (snd ` set es)" and "distinct (map snd es)"
  shows "\<exists>q'. reset_loop es now q = Inr q' \<and> tq_inv q' {} \<and> tq_ran q' = tq_ran q \<and>
    tq_armed q' = tq_armed q \<and>
    (\<forall>p. p \<notin> snd ` set es \<longrightarrow> tq_heap q' p = tq_heap q p) \<and>
    (\<forall>e \<in> set es. tq_heap q' (snd e) = rescheduled now (\<lambda>i. i \<in> set (tq_canceling q)) q (snd e))"
  using assms
proof (induction es arbitrary: q)
  case (Cons e es)
  obtain w p where e: "e = (w, p)" by (cases e)
  have dist: "distinct (map snd es)" "p \<notin> snd ` set es"
    using Cons.prems(2) e by auto
  then have X: "snd ` set (e # es) - {p} = snd ` set es"
    using e by auto
  have p: "p \<in> snd ` set (e # es)"
    using e by simp
  obtain t where t: "tq_heap q p = Some t"
    using Cons.prems(1) p by (auto simp: tq_inv_def sets_ok_def)
  show ?case
  proof (cases "t_repeat t \<and> (p, t_sequence t) \<notin> set (tq_canceling q)")
    case True
    let ?q = "q\<lparr>tq_heap := (tq_heap q)(p \<mapsto> restart now t)\<rparr>"
    let ?q1 = "?q\<lparr>tq_timers := std_insert (t_expiration (restart now t), p) (tq_timers q),
                 tq_active := std_insert (p, t_sequence t) (tq_active q)\<rparr>"
    have inv: "tq_inv ?q (snd ` set (e # es))"
      by (rule tq_inv_update [OF Cons.prems(1) p t]) (simp add: restart_def addTime_def)
    have seq: "t_sequence (restart now t) = t_sequence t"
      by (simp add: restart_def addTime_def)
    have heap: "tq_heap ?q p = Some (restart now t)"
      by simp
    note ins = insert_timer_ok [OF inv p heap]
    have inv1: "tq_inv ?q1 (snd ` set es)"
      using ins(2) seq X by simp
    have run: "reset_loop (e # es) now q = reset_loop es now ?q1"
      using True e t ins(1) seq by simp
    show ?thesis
      using Cons.IH [OF inv1 dist(1)] dist(2) e t True unfolding run
      by (auto simp: rescheduled_def Let_def restart_def addTime_def)
  next
    case False
    let ?q = "q\<lparr>tq_heap := (tq_heap q)(p := None)\<rparr>"
    have inv: "tq_inv ?q (snd ` set es)"
      using tq_inv_free [OF Cons.prems(1) p] X by simp
    have run: "reset_loop (e # es) now q = reset_loop es now ?q"
      using False e t by auto
    show ?thesis
      using Cons.IH [OF inv dist(1)] dist(2) e t False unfolding run by (auto simp: rescheduled_def Let_def)
  qed
qed auto

subsection \<open>One expiration of the descriptor\<close>

lemma expired_distinct:
  assumes inv: "tq_inv q X"
  shows "distinct (map snd (filter P (tq_timers q)))"
proof -
  have uniq: "w = w'" if "(w, p) \<in> set (tq_timers q)" "(w', p) \<in> set (tq_timers q)" for w w' p
    using that by (auto simp: tq_inv_timers [OF inv])
  then show ?thesis
    using std_ok_distinct [OF tq_inv_std(1) [OF inv]]
    by (auto simp: distinct_map inj_on_def distinct_filter)
qed

lemma reset_timers_ok:
  assumes inv: "tq_inv q (snd ` set es)" and dist: "distinct (map snd es)"
  shows "\<exists>q'. reset_timers es now q = Inr q' \<and> tq_inv q' {} \<and> tq_ran q' = tq_ran q \<and>
    (\<forall>e es'. tq_timers q' = e # es' \<longrightarrow> 0 < fst e \<longrightarrow> tq_armed q' = Some (fst e)) \<and>
    (\<forall>e \<in> set es. tq_heap q' (snd e) = rescheduled now (\<lambda>i. i \<in> set (tq_canceling q)) q (snd e))"
proof -
  obtain q1 where q1: "reset_loop es now q = Inr q1" "tq_inv q1 {}" "tq_ran q1 = tq_ran q"
      "\<forall>e \<in> set es. tq_heap q1 (snd e) = rescheduled now (\<lambda>i. i \<in> set (tq_canceling q)) q (snd e)"
    using reset_loop_ok [OF inv dist, of now] by blast
  show ?thesis
  proof (cases "tq_timers q1")
    case Nil
    with q1 show ?thesis by (intro exI [of _ q1]) (simp add: reset_timers_def)
  next
    case (Cons e es')
    obtain w p where e: "e = (w, p)" by (cases e)
    then obtain t where "tq_heap q1 p = Some t" "t_expiration t = w"
      using tq_inv_timers [OF q1(2), of w p] Cons by auto
    with q1 Cons e show ?thesis
      by (intro exI [of _ "if 0 < w then resetTimerfd w q1 else q1"])
        (simp add: reset_timers_def resetTimerfd_def)
  qed
qed

text \<open>A timer is cancelled in a batch when the callback of one of its timers cancels it.\<close>

definition expired_at :: "int \<Rightarrow> timer_queue \<Rightarrow> (int \<times> nat) list" where
  "expired_at now q = filter (\<lambda>(w, p). w \<le> now) (tq_timers q)"

definition cancelled_in :: "(int \<Rightarrow> timer_call list) \<Rightarrow> int \<Rightarrow> timer_queue \<Rightarrow> nat \<times> int \<Rightarrow> bool" where
  "cancelled_in callback now q timerId \<longleftrightarrow>
     (\<exists>e \<in> set (expired_at now q). CancelTimer timerId \<in> set (callback (sequence_of q (snd e))))"

lemma handleTimers_ok:
  assumes inv: "tq_inv q {}" and alloc: "alloc_ok alloc"
  shows "handleTimers alloc callback now q = Inl BadAlloc \<or>
    (\<exists>q'. handleTimers alloc callback now q = Inr q' \<and> tq_inv q' {} \<and>
       tq_ran q' = tq_ran q @ map (\<lambda>e. sequence_of q (snd e)) (expired_at now q) \<and>
       (\<forall>e es. tq_timers q' = e # es \<longrightarrow> 0 < fst e \<longrightarrow> tq_armed q' = Some (fst e)) \<and>
       (\<forall>e \<in> set (expired_at now q). tq_heap q' (snd e) =
          rescheduled now (cancelled_in callback now q) q (snd e)))"
proof -
  let ?X = "snd ` set (expired_at now q)"
  obtain act where act: "getExpired now (q\<lparr>tq_armed := None\<rparr>) = Inr (expired_at now q,
        q\<lparr>tq_armed := None, tq_timers := filter (\<lambda>(w, p). now < w) (tq_timers q), tq_active := act\<rparr>)"
      "tq_inv (q\<lparr>tq_armed := None, tq_timers := filter (\<lambda>(w, p). now < w) (tq_timers q),
        tq_active := act\<rparr>) ?X"
    using getExpired_ok [of "q\<lparr>tq_armed := None\<rparr>" now] inv by (auto simp: expired_at_def)
  define q1 where "q1 = q\<lparr>tq_armed := None, tq_timers := filter (\<lambda>(w, p). now < w) (tq_timers q),
      tq_active := act, tq_calling := True, tq_canceling := []\<rparr>"
  have inv1: "tq_inv q1 ?X"
    using act(2) by (simp add: q1_def)
  have same: "tq_heap q1 = tq_heap q" "tq_ran q1 = tq_ran q" "tq_calling q1" "tq_canceling q1 = []"
    "sequence_of q1 = sequence_of q"
    by (simp_all add: q1_def sequence_of_def fun_eq_iff)
  have run: "handleTimers alloc callback now q =
      bindR (run_expired alloc callback (expired_at now q) q1)
        (\<lambda>r. reset_timers (expired_at now q) now (r\<lparr>tq_calling := False\<rparr>))"
    using act(1) by (simp add: handleTimers_def q1_def)
  show ?thesis
  proof (cases "run_expired alloc callback (expired_at now q) q1 = Inl BadAlloc")
    case True
    then show ?thesis using run by simp
  next
    case False
    then obtain q2 where q2: "run_expired alloc callback (expired_at now q) q1 = Inr q2"
        "ran_ok ?X callback (expired_at now q) q1 q2"
      using run_expired_ok [OF inv1 alloc subset_refl same(3), of callback] by blast
    let ?q2 = "q2\<lparr>tq_calling := False\<rparr>"
    have inv2: "tq_inv ?q2 ?X"
      using q2(2) by (simp add: ran_ok_def)
    have dist: "distinct (map snd (expired_at now q))"
      unfolding expired_at_def by (rule expired_distinct [OF inv])
    have resched: "rescheduled now (\<lambda>i. i \<in> set (tq_canceling ?q2)) ?q2 (snd e) =
        rescheduled now (cancelled_in callback now q) q (snd e)" if "e \<in> set (expired_at now q)" for e
      using q2(2) that unfolding ran_ok_def same
      by (auto simp: rescheduled_def cancelled_in_def Let_def)
    show ?thesis
      using reset_timers_ok [OF inv2 dist, of now] resched q2 same(2,5)
      unfolding run by (auto simp: ran_ok_def)
  qed
qed

subsection \<open>Runs of the queue\<close>

text \<open>
  The queue as the loop's thread uses it: calls from outside callbacks, and expirations of the
  descriptor.  Times are after the epoch, and an interval that repeats is not negative.
\<close>

fun call_ok :: "timer_call \<Rightarrow> bool" where
  "call_ok (AddTimer when interval repeats) \<longleftrightarrow> 0 < when \<and> (repeats \<longrightarrow> 0 \<le> interval)"
| "call_ok (CancelTimer timerId) \<longleftrightarrow> True"

inductive tq_step :: "alloc_call \<Rightarrow> (int \<Rightarrow> timer_call list) \<Rightarrow> timer_queue \<Rightarrow> timer_queue \<Rightarrow> bool"
  for alloc callback where
  call: "call_ok c \<Longrightarrow> exec_call alloc c q = Inr q' \<Longrightarrow> tq_step alloc callback q q'"
| expire: "0 < now \<Longrightarrow> handleTimers alloc callback now q = Inr q' \<Longrightarrow> tq_step alloc callback q q'"

inductive tq_reach :: "alloc_call \<Rightarrow> (int \<Rightarrow> timer_call list) \<Rightarrow> timer_queue \<Rightarrow> timer_queue \<Rightarrow> bool"
  for alloc callback q where
  refl: "tq_reach alloc callback q q"
| step: "tq_reach alloc callback q q1 \<Longrightarrow> tq_step alloc callback q1 q2 \<Longrightarrow> tq_reach alloc callback q q2"

definition callbacks_ok :: "(int \<Rightarrow> timer_call list) \<Rightarrow> bool" where
  "callbacks_ok callback \<longleftrightarrow> (\<forall>n. \<forall>c \<in> set (callback n). call_ok c)"

lemma tq_step_inv:
  assumes "tq_step alloc callback q q'" and "tq_inv q {}" and "alloc_ok alloc"
  shows "tq_inv q' {}"
  using assms(1)
proof cases
  case (call c)
  with exec_call_ok [OF assms(2,3), of c] show ?thesis by auto
next
  case (expire now)
  with handleTimers_ok [OF assms(2,3), of callback now] show ?thesis by auto
qed

lemma tq_reach_inv:
  assumes "tq_reach alloc callback q q'" and "tq_inv q {}" and "alloc_ok alloc"
  shows "tq_inv q' {}"
  using assms by (induction rule: tq_reach.induct) (auto intro: tq_step_inv)

subsubsection \<open>A timer that is gone\<close>









lemma erase_active_frame:
  "erase_active es q = Inr q' \<Longrightarrow> tq_heap q' = tq_heap q \<and> tq_created q' = tq_created q \<and> tq_ran q' = tq_ran q"
  by (induction es q rule: erase_active.induct) (auto simp: res_simps split: option.splits)




subsubsection \<open>The descriptor is armed in time\<close>

definition times_ok :: "timer_queue \<Rightarrow> bool" where
  "times_ok q \<longleftrightarrow> (\<forall>p t. tq_heap q p = Some t \<longrightarrow> 0 < t_expiration t \<and> (t_repeat t \<longrightarrow> 0 \<le> t_interval t))"

definition armed_ok :: "timer_queue \<Rightarrow> bool" where
  "armed_ok q \<longleftrightarrow> (\<forall>(w, p) \<in> set (tq_timers q). \<exists>a. tq_armed q = Some a \<and> a \<le> w)"

lemma exec_call_times: "exec_call alloc c q = Inr q' \<Longrightarrow> call_ok c \<Longrightarrow> times_ok q \<Longrightarrow> times_ok q'"
  by (cases c; auto simp: addTimer_def addTimerInLoop_def insert_timer_def cancelInLoop_def Let_def
      resetTimerfd_def res_simps new_timer_def times_ok_def split: option.splits if_splits)

lemma exec_calls_times:
  "exec_calls alloc cs q = Inr q' \<Longrightarrow> \<forall>c \<in> set cs. call_ok c \<Longrightarrow> times_ok q \<Longrightarrow> times_ok q'"
  by (induction cs arbitrary: q) (auto simp: res_simps intro: exec_call_times)

lemma times_ok_flags [simp]:
  "times_ok (q\<lparr>tq_calling := b\<rparr>) = times_ok q" "times_ok (q\<lparr>tq_canceling := c\<rparr>) = times_ok q"
  "times_ok (q\<lparr>tq_armed := a\<rparr>) = times_ok q" "times_ok (q\<lparr>tq_ran := r\<rparr>) = times_ok q"
  by (simp_all add: times_ok_def)

lemma run_expired_times:
  "run_expired alloc callback es q = Inr q' \<Longrightarrow> callbacks_ok callback \<Longrightarrow> times_ok q \<Longrightarrow> times_ok q'"
proof (induction es arbitrary: q)
  case (Cons e es)
  obtain w p where e: "e = (w, p)" by (cases e)
  with Cons.prems obtain t q1 where t: "tq_heap q p = Some t"
      "exec_calls alloc (callback (t_sequence t)) (q\<lparr>tq_ran := tq_ran q @ [t_sequence t]\<rparr>) = Inr q1"
      "run_expired alloc callback es q1 = Inr q'"
    by (auto simp: res_simps split: option.splits)
  have "times_ok q1"
    using exec_calls_times [OF t(2)] Cons.prems(2,3) by (simp add: callbacks_ok_def)
  with Cons.IH [OF t(3)] Cons.prems(2) show ?case by simp
qed simp

lemma times_ok_heap:
  "times_ok q \<Longrightarrow> (\<And>t. x = Some t \<Longrightarrow> 0 < t_expiration t \<and> (t_repeat t \<longrightarrow> 0 \<le> t_interval t)) \<Longrightarrow>
     times_ok (q\<lparr>tq_heap := (tq_heap q)(p := x)\<rparr>)"
  by (simp add: times_ok_def)

lemma insert_timer_times: "insert_timer p q = Inr (b, q') \<Longrightarrow> times_ok q \<Longrightarrow> times_ok q'"
  by (auto simp: insert_timer_def Let_def times_ok_def res_simps split: option.splits if_splits)

lemma reset_loop_times: "reset_loop es now q = Inr q' \<Longrightarrow> 0 < now \<Longrightarrow> times_ok q \<Longrightarrow> times_ok q'"
proof (induction es arbitrary: q)
  case (Cons e es)
  obtain w p where e: "e = (w, p)" by (cases e)
  with Cons.prems(1) obtain t where t: "tq_heap q p = Some t"
    by (auto split: option.splits)
  then have "0 < t_expiration t" "t_repeat t \<Longrightarrow> 0 \<le> t_interval t"
    using Cons.prems(3) by (auto simp: times_ok_def)
  then have heap: "times_ok (q\<lparr>tq_heap := (tq_heap q)(p \<mapsto> restart now t)\<rparr>)" if "t_repeat t"
    using that Cons.prems(2) by (intro times_ok_heap [OF Cons.prems(3)]) (auto simp: restart_def addTime_def)
  show ?case
  proof (cases "t_repeat t \<and> (p, t_sequence t) \<notin> set (tq_canceling q)")
    case True
    then obtain b q1 where "insert_timer p (q\<lparr>tq_heap := (tq_heap q)(p \<mapsto> restart now t)\<rparr>) = Inr (b, q1)"
        "reset_loop es now q1 = Inr q'"
      using Cons.prems(1) e t by (auto simp: res_simps)
    with Cons.IH [of q1] heap True Cons.prems(2) show ?thesis
      by (auto dest: insert_timer_times)
  next
    case False
    with Cons.IH Cons.prems(1,2) e t times_ok_heap [OF Cons.prems(3), of None p] show ?thesis
      by auto
  qed
qed simp

lemma handleTimers_times:
  assumes "handleTimers alloc callback now q = Inr q'" and "0 < now" and "callbacks_ok callback"
    and "times_ok q"
  shows "times_ok q'"
proof -
  obtain es q1 q2 where q1: "getExpired now (q\<lparr>tq_armed := None\<rparr>) = Inr (es, q1)"
    and q2: "run_expired alloc callback es (q1\<lparr>tq_calling := True, tq_canceling := []\<rparr>) = Inr q2"
    and q3: "reset_timers es now (q2\<lparr>tq_calling := False\<rparr>) = Inr q'"
    using assms(1) by (auto simp: handleTimers_def res_simps)
  have "tq_heap q1 = tq_heap q"
    using q1 by (force simp: getExpired_def Let_def res_simps dest!: erase_active_frame split: if_splits)
  then have "times_ok (q1\<lparr>tq_calling := True, tq_canceling := []\<rparr>)"
    using assms(4) by (simp add: times_ok_def)
  then have t2: "times_ok (q2\<lparr>tq_calling := False\<rparr>)"
    using run_expired_times [OF q2 assms(3)] by simp
  obtain q4 where q4: "reset_loop es now (q2\<lparr>tq_calling := False\<rparr>) = Inr q4"
    using q3 by (auto simp: reset_timers_def res_simps)
  have "tq_heap q' = tq_heap q4"
    using q3 q4 by (auto simp: reset_timers_def resetTimerfd_def split: option.splits list.splits if_splits)
  with reset_loop_times [OF q4 assms(2) t2] show ?thesis
    by (simp add: times_ok_def)
qed

lemma exec_call_armed:
  assumes inv: "tq_inv q {}" and alloc: "alloc_ok alloc" and call: "exec_call alloc c q = Inr q'"
    and armed: "armed_ok q"
  shows "armed_ok q'"
proof (cases c)
  case (AddTimer w i r)
  then obtain p where p: "alloc (tq_heap q) = Some p"
    using call by (auto simp: addTimer_def split: option.splits)
  obtain q1 where q1: "addTimer alloc w i r q = Inr ((p, tq_created q + 1), q1)"
      "tq_timers q1 = std_insert (w, p) (tq_timers q)"
      "tq_armed q1 = (if tq_timers q = [] \<or> w < fst (hd (tq_timers q)) then Some w else tq_armed q)"
    using addTimer_ok [OF inv alloc p, of w i r] by blast
  have [simp]: "q1 = q'"
    using call q1(1) AddTimer by simp
  have hd: "\<exists>a. tq_armed q = Some a \<and> a \<le> fst (hd (tq_timers q))" if "tq_timers q \<noteq> []"
  proof -
    obtain v x where "hd (tq_timers q) = (v, x)" by (cases "hd (tq_timers q)")
    with hd_in_set [OF that] armed show ?thesis by (auto simp: armed_ok_def)
  qed
  have "\<exists>a. tq_armed q' = Some a \<and> a \<le> v" if v: "(v, x) \<in> set (tq_timers q')" for v x
  proof (cases "tq_timers q = [] \<or> w < fst (hd (tq_timers q))")
    case True
    have "w \<le> v"
      using v q1(2) True std_first_key [OF tq_inv_std(1) [OF inv], of v x] by auto
    with True q1(3) show ?thesis by simp
  next
    case False
    have "fst (hd (tq_timers q)) \<le> v"
      using v q1(2) False std_first_key [OF tq_inv_std(1) [OF inv], of v x] by auto
    with False q1(3) hd show ?thesis by auto
  qed
  then show ?thesis
    by (auto simp: armed_ok_def)
next
  case (CancelTimer i)
  obtain p n where i: "i = (p, n)" by (cases i)
  obtain q1 where "cancelInLoop (p, n) q = Inr q1" "tq_armed q1 = tq_armed q"
      "set (tq_timers q1) \<subseteq> set (tq_timers q)"
    using cancelInLoop_ok [OF inv] by blast
  with CancelTimer call armed i show ?thesis
    by (auto simp: armed_ok_def)
qed

lemma handleTimers_armed:
  assumes inv: "tq_inv q {}" and alloc: "alloc_ok alloc"
    and run: "handleTimers alloc callback now q = Inr q'" and times: "times_ok q'"
  shows "armed_ok q'"
proof -
  have inv': "tq_inv q' {}"
    and armed: "\<forall>e es. tq_timers q' = e # es \<longrightarrow> 0 < fst e \<longrightarrow> tq_armed q' = Some (fst e)"
    using handleTimers_ok [OF inv alloc, of callback now] run by auto
  have "\<exists>a. tq_armed q' = Some a \<and> a \<le> v" if v: "(v, x) \<in> set (tq_timers q')" for v x
  proof -
    obtain w p es where es: "tq_timers q' = (w, p) # es"
      using v by (cases "tq_timers q'") auto
    then obtain t where "tq_heap q' p = Some t" "t_expiration t = w"
      using tq_inv_timers [OF inv', of w p] by auto
    then have "tq_armed q' = Some w"
      using armed es times by (auto simp: times_ok_def)
    then show ?thesis
      using std_hd_least [OF tq_inv_std(1) [OF inv'] v] es by auto
  qed
  then show ?thesis
    by (auto simp: armed_ok_def)
qed

lemma tq_step_armed:
  assumes "tq_step alloc callback q q'" and "tq_inv q {}" and "alloc_ok alloc"
    and "callbacks_ok callback" and "times_ok q" and "armed_ok q"
  shows "times_ok q' \<and> armed_ok q'"
  using assms(1)
proof cases
  case (call c)
  then show ?thesis
    using exec_call_times [OF call(2)] exec_call_armed [OF assms(2,3) call(2)] assms(5,6) by simp
next
  case (expire now)
  then have "times_ok q'"
    using handleTimers_times assms(4,5) by blast
  then show ?thesis
    using handleTimers_armed [OF assms(2,3) expire(2)] by simp
qed

lemma tq_reach_armed:
  assumes "tq_reach alloc callback q q'" and "tq_inv q {}" and "alloc_ok alloc"
    and "callbacks_ok callback" and "times_ok q" and "armed_ok q"
  shows "times_ok q' \<and> armed_ok q'"
  using assms
proof (induction rule: tq_reach.induct)
  case (step q1 q2)
  then show ?case
    using tq_step_armed [OF step.hyps(2) tq_reach_inv [OF step.hyps(1)]] by blast
qed simp

text \<open>Outside of callbacks no timer is leaked: the destructor frees all that were allocated.\<close>

lemma destroy_frees_all:
  assumes inv: "tq_inv q {}"
  shows "tq_heap (destroy_timer_queue q) = Map.empty"
proof
  fix p
  have "p \<in> snd ` set (tq_timers q)" if "tq_heap q p = Some t" for t
    using that tq_inv_timers [OF inv, of "t_expiration t" p] by force
  then show "tq_heap (destroy_timer_queue q) p = None"
    by (cases "tq_heap q p") (auto simp: destroy_timer_queue_def)
qed

subsection \<open>Properties\<close>

text \<open>Two concrete runs: an allocator that takes the first free address below 8, and callbacks of which
  the first timer's cancels itself and adds a timer.\<close>

definition first_free :: alloc_call where
  "first_free h = find (\<lambda>p. h p = None) [0..<8]"

definition cancel_self :: "int \<Rightarrow> timer_call list" where
  "cancel_self n = (if n = 1 then [CancelTimer (0, 1), AddTimer 5000 0 False] else [])"

lemma first_free_ok: "alloc_ok first_free"
  by (auto simp: alloc_ok_def first_free_def find_Some_iff UINTPTR_MAX_def)

lemma cancel_self_ok: "callbacks_ok cancel_self"
  by (simp add: callbacks_ok_def cancel_self_def)

lemma new_timer_queue_armed: "times_ok new_timer_queue" "armed_ok new_timer_queue"
  by (simp_all add: times_ok_def armed_ok_def new_timer_queue_def)

text \<open>C3: Whatever timers were added and cancelled, and whatever the callbacks add and cancel, when the
  descriptor expires no assertion fails, no dangling timer is used, and exactly the timers that are
  due run, in the order of their expirations, each once; then a due timer is scheduled again, for
  now plus its interval, if and only if it repeats and no callback of this batch cancelled it.
  Only the allocator can stop it.\<close>

theorem expired_timers_run:
  assumes "tq_reach alloc callback new_timer_queue q" and "alloc_ok alloc"
  shows "(handleTimers alloc callback now q = Inl BadAlloc \<or>
    (\<exists>q'. handleTimers alloc callback now q = Inr q' \<and>
       tq_ran q' = tq_ran q @ map (\<lambda>e. sequence_of q (snd e)) (expired_at now q) \<and>
       (\<forall>e \<in> set (expired_at now q). tq_heap q' (snd e) =
          rescheduled now (cancelled_in callback now q) q (snd e)))) \<and>
    sorted (map fst (expired_at now q)) \<and> distinct (map snd (expired_at now q)) \<and>
    (\<forall>w p. (w, p) \<in> set (expired_at now q) \<longleftrightarrow>
       (\<exists>t. tq_heap q p = Some t \<and> t_expiration t = w \<and> w \<le> now))"
proof -
  have inv: "tq_inv q {}"
    by (rule tq_reach_inv [OF assms(1) new_timer_queue_inv assms(2)])
  have "sorted (map fst (expired_at now q))"
    unfolding expired_at_def by (rule std_sorted_keys [OF tq_inv_std(1) [OF inv]])
  moreover have "distinct (map snd (expired_at now q))"
    unfolding expired_at_def by (rule expired_distinct [OF inv])
  moreover have "\<forall>w p. (w, p) \<in> set (expired_at now q) \<longleftrightarrow>
       (\<exists>t. tq_heap q p = Some t \<and> t_expiration t = w \<and> w \<le> now)"
    by (auto simp: expired_at_def tq_inv_timers [OF inv])
  ultimately show ?thesis
    using handleTimers_ok [OF inv assms(2), of callback now] by blast
qed

definition two_timers :: timer_queue where
  "two_timers = \<lparr>tq_heap = [0 \<mapsto> new_timer 1000 500 True 1, 1 \<mapsto> new_timer 3000 0 False 2],
     tq_created = 2, tq_timers = [(1000, 0), (3000, 1)], tq_active = [(0, 1), (1, 2)],
     tq_calling = False, tq_canceling = [], tq_armed = Some 1000, tq_ran = []\<rparr>"

lemma two_timers_run:
  "bindR (exec_call first_free (AddTimer 1000 500 True) new_timer_queue)
     (exec_call first_free (AddTimer 3000 0 False)) = Inr two_timers"
  by (simp add: addTimer_def addTimerInLoop_def insert_timer_def Let_def first_free_def new_timer_queue_def
      two_timers_def new_timer_def resetTimerfd_def same_sizes_def upt_rec asserting_def)

lemma two_timers_reach: "tq_reach first_free callback new_timer_queue two_timers"
proof -
  obtain q where q: "exec_call first_free (AddTimer 1000 500 True) new_timer_queue = Inr q"
      "exec_call first_free (AddTimer 3000 0 False) q = Inr two_timers"
    using two_timers_run by (auto simp: res_simps simp del: exec_call.simps)
  have "tq_step first_free callback new_timer_queue q"
    by (rule tq_step.call [OF _ q(1)]) simp
  moreover have "tq_step first_free callback q two_timers"
    by (rule tq_step.call [OF _ q(2)]) simp
  ultimately show ?thesis
    by (blast intro: tq_reach.intros)
qed

theorem expired_timers_run_witness:
  "\<exists>q'. handleTimers first_free cancel_self 1500 two_timers = Inr q' \<and> tq_ran q' = [1] \<and>
     tq_heap q' 0 = None"
proof -
  have "handleTimers first_free cancel_self 1500 two_timers \<noteq> Inl BadAlloc"
    by (simp add: handleTimers_def getExpired_def two_timers_def Let_def std_before_def std_from_def
        std_erase_def same_sizes_def new_timer_def cancel_self_def cancelInLoop_def addTimer_def
        addTimerInLoop_def insert_timer_def first_free_def upt_rec reset_timers_def resetTimerfd_def)
  then show ?thesis
    using expired_timers_run [OF two_timers_reach first_free_ok, of cancel_self 1500]
    by (auto simp: expired_at_def two_timers_def new_timer_def sequence_of_def rescheduled_def
        cancelled_in_def cancel_self_def)
qed



text \<open>As long as timers are pending the descriptor is armed, for a time that is not after any of
  their expirations: no timer can be forgotten.\<close>

theorem armed_in_time:
  assumes "tq_reach alloc callback new_timer_queue q" and "alloc_ok alloc" and "callbacks_ok callback"
    and "tq_heap q p = Some t"
  shows "\<exists>a. tq_armed q = Some a \<and> a \<le> t_expiration t"
proof -
  have inv: "tq_inv q {}"
    by (rule tq_reach_inv [OF assms(1) new_timer_queue_inv assms(2)])
  have "armed_ok q"
    using tq_reach_armed [OF assms(1) new_timer_queue_inv assms(2,3) new_timer_queue_armed] by simp
  moreover have "(t_expiration t, p) \<in> set (tq_timers q)"
    using assms(4) by (simp add: tq_inv_timers [OF inv])
  ultimately show ?thesis
    by (auto simp: armed_ok_def)
qed

theorem armed_in_time_witness:
  "\<exists>a. tq_armed two_timers = Some a \<and> a \<le> 3000"
  using armed_in_time [OF two_timers_reach first_free_ok cancel_self_ok, of 1 "new_timer 3000 0 False 2"]
  by (simp add: two_timers_def new_timer_def)

text \<open>The relative time given to the descriptor is the distance to the expiration, but never less
  than 100 microseconds (so it never disarms the descriptor), and its nanoseconds are in range.\<close>

theorem howMuchTimeFromNow_range:
  "case howMuchTimeFromNow now w of (s, ns) \<Rightarrow>
     0 \<le> s \<and> 0 \<le> ns \<and> ns < 1000000000 \<and> s * 1000000000 + ns = 1000 * max 100 (w - now)"
proof -
  define us where "us = max 100 (w - now)"
  have us: "0 \<le> us" "(if w - now < 100 then 100 else w - now) = us"
    by (auto simp: us_def)
  then have "howMuchTimeFromNow now w = (us div 1000000, us mod 1000000 * 1000)"
    by (simp add: howMuchTimeFromNow_def kMicroSecondsPerSecond_def Let_def signed_divide_int_def
        signed_modulo_int_def sgn_if)
  moreover have "us div 1000000 * 1000000000 + us mod 1000000 * 1000 = 1000 * us"
    using div_mult_mod_eq [of us 1000000] by linarith
  moreover have "0 \<le> us div 1000000"
    using us(1) by (simp add: pos_imp_zdiv_nonneg_iff)
  ultimately show ?thesis
    by (simp add: us_def [symmetric])
qed

end
