(* ===== verification/Mysql_Server.thy ===== *)
theory Mysql_Server
  imports Decimal Net_Buffer
begin

section \<open>The SQL front end: \<open>src/src/tcpmysql/\<close>\<close>

text \<open>
  \<open>MysqlServer\<close> turns the answer of the database into text.  \<open>TcpMysqlServer\<close> keeps its connections
  in a list ordered by use, shuts the least recently used one down when there are too many, and
  caches the answers of the last seconds in a wheel of buckets.  The MySQL client library,
  \<open>boost::any_cast\<close> and the \<open>push_back\<close> of \<open>boost::circular_buffer\<close> are parameters.  A connection is
  a number; what the server does to connections is the list \<open>ms_effects\<close>.
\<close>

subsection \<open>\<open>MysqlServer\<close>\<close>

text \<open>
  What the client library answers to a query, up to the first NUL byte of the C string:
  \<open>mysql_store_result\<close> returns NULL, or a result of which the code reads the number of fields and
  the rows.  A field is NULL or a string.
\<close>

datatype mysql_answer =
    MysqlError nat string
  | MysqlResult nat "byte list option list list"

type_synonym mysql_db = "byte list \<Rightarrow> mysql_answer"

text \<open>The constructor: the process exits when there is no connection.\<close>

definition new_mysql_connection :: "bool \<Rightarrow> unit res" where
  "new_mysql_connection connected = (if connected then Inr () else Inl Fatal)"

text \<open>The loop over the fields of a row, and the one over the rows.  \<open>mysql_fetch_row\<close> is NULL after
  the last row; a NULL field makes a \<open>std::string\<close> from a null pointer.\<close>

fun print_fields :: "nat \<Rightarrow> byte list option list \<Rightarrow> byte list res" where
  "print_fields 0 row = Inr []"
| "print_fields (Suc n) (Some f # row) =
     bindR (print_fields n row) (\<lambda>res. Inr (f @ [9] @ res))"
| "print_fields (Suc n) row = Inl Undefined"

fun print_rows :: "nat \<Rightarrow> nat \<Rightarrow> byte list option list list \<Rightarrow> byte list res" where
  "print_rows 0 num_fields rows = Inr []"
| "print_rows (Suc n) num_fields rows =
     bindR (print_fields num_fields (case rows of [] \<Rightarrow> [] | row # _ \<Rightarrow> row)) (\<lambda>line.
     bindR (print_rows n num_fields (tl rows)) (\<lambda>res. Inr (line @ [10] @ res)))"

definition process :: "mysql_db \<Rightarrow> byte list \<Rightarrow> byte list res" where
  "process db sql =
     (case db (c_string sql) of
        MysqlError err msg \<Rightarrow>
          Inr (bytes_of (''error '' @ dec_nat err @ '': '' @ msg) @ [10])
      | MysqlResult ncols rows \<Rightarrow>
          let num_rows = to_int32 (length rows);
              num_fields = to_int32 ncols in
          if num_rows < 0 then Inl Undefined
          else bindR (print_rows (nat num_rows) (nat num_fields) rows) (\<lambda>res.
            Inr (bytes_of (''number of rows:'' @ dec_int num_rows) @ [10] @
                 bytes_of (''number of fields'' @ dec_int num_fields) @ [10] @ res)))"

subsection \<open>The state of \<open>TcpMysqlServer\<close>\<close>

definition SIZECONN :: nat where
  "SIZECONN = 1000"

datatype server_effect =
    ShutdownConn nat
  | SendConn nat "byte list"

text \<open>
  \<open>lrulist_\<close> is a list of nodes, with the connection each holds; \<open>lrumap_\<close> has an iterator, that is
  a node, for a connection.  \<open>ms_stmts\<close> are the \<open>SqlStmt\<close> objects that are alive: the query and the
  answer they still refer to, if any.  \<open>sqlstmtlist_\<close> is the wheel, from \<open>front()\<close> to \<open>back()\<close>, and
  \<open>sqlchecklist_\<close> maps a query to a weak pointer to a statement.
\<close>

record mysql_server =
  ms_next :: nat
  ms_lrulist :: "(nat \<times> nat) list"
  ms_lrumap :: "nat \<rightharpoonup> nat"
  ms_stmts :: "nat \<rightharpoonup> (byte list \<times> byte list) option"
  ms_sqlstmtlist :: "nat list list"
  ms_sqlchecklist :: "byte list \<rightharpoonup> nat"
  ms_effects :: "server_effect list"

definition new_mysql_server :: "nat \<Rightarrow> mysql_server" where
  "new_mysql_server idleSeconds =
     \<lparr>ms_next = 0, ms_lrulist = [], ms_lrumap = Map.empty, ms_stmts = Map.empty,
      ms_sqlstmtlist = replicate idleSeconds [], ms_sqlchecklist = Map.empty, ms_effects = []\<rparr>"

definition emit :: "server_effect \<Rightarrow> mysql_server \<Rightarrow> mysql_server" where
  "emit e s = s\<lparr>ms_effects := ms_effects s @ [e]\<rparr>"

subsection \<open>Connections\<close>

text \<open>\<open>lrulist_.push_front(conn)\<close> and \<open>lrumap_[conn] = lrulist_.begin()\<close>.\<close>

definition lru_push :: "nat \<Rightarrow> mysql_server \<Rightarrow> mysql_server" where
  "lru_push conn s =
     s\<lparr>ms_next := Suc (ms_next s), ms_lrulist := (ms_next s, conn) # ms_lrulist s,
       ms_lrumap := (ms_lrumap s)(conn \<mapsto> ms_next s)\<rparr>"

definition onConnection :: "nat \<Rightarrow> mysql_server \<Rightarrow> mysql_server" where
  "onConnection conn s =
     (if SIZECONN \<le> length (ms_lrulist s) then
        let old = snd (last (ms_lrulist s));
            s1 = emit (ShutdownConn old) s;
            s2 = s1\<lparr>ms_lrumap := (ms_lrumap s1)(old := None)\<rparr>;
            s3 = s2\<lparr>ms_lrulist := butlast (ms_lrulist s2)\<rparr> in
        lru_push conn s3
      else lru_push conn s)"

text \<open>The first lines of \<open>onMessage\<close>.  \<open>lrumap_[conn]\<close> of a connection that has no entry is a
  singular iterator.\<close>

definition lru_touch :: "nat \<Rightarrow> mysql_server \<Rightarrow> mysql_server res" where
  "lru_touch conn s =
     (case ms_lrumap s conn of
        None \<Rightarrow> Inl Undefined
      | Some n \<Rightarrow>
          (case find (\<lambda>e. fst e = n) (ms_lrulist s) of
             None \<Rightarrow> Inl Undefined
           | Some e \<Rightarrow> Inr (s\<lparr>ms_lrulist := e # filter (\<lambda>e. fst e \<noteq> n) (ms_lrulist s),
                              ms_lrumap := (ms_lrumap s)(conn \<mapsto> n)\<rparr>)))"

subsection \<open>Messages\<close>

text \<open>
  What \<open>boost::any\<close> is used with: the shared pointer the code puts in, and the weak pointer it
  asks for.  \<open>None\<close> is the exception \<open>bad_any_cast\<close>.
\<close>

datatype any_value =
    AnySqlPtr "byte list \<times> byte list"
  | AnyWeakStmt nat

type_synonym any_cast_call = "any_value \<Rightarrow> nat option"

text \<open>\<open>sqlstmtlist_.back().insert(p)\<close>; there is no last bucket in an empty wheel.\<close>

definition wheel_insert :: "nat \<Rightarrow> mysql_server \<Rightarrow> mysql_server res" where
  "wheel_insert p s =
     (if ms_sqlstmtlist s = [] then Inl Undefined
      else Inr (s\<lparr>ms_sqlstmtlist := butlast (ms_sqlstmtlist s) @ [List.insert p (last (ms_sqlstmtlist s))]\<rparr>))"

definition onMessage ::
  "mysql_db \<Rightarrow> any_cast_call \<Rightarrow> nat \<Rightarrow> net_buffer \<Rightarrow> mysql_server \<Rightarrow> (net_buffer \<times> mysql_server) res" where
  "onMessage db any_cast conn buf s =
     bindR (retrieveAllAsString buf) (\<lambda>(msg, buf).
     bindR (lru_touch conn s) (\<lambda>s.
     bindR
       (case ms_sqlchecklist s msg of
          Some p \<Rightarrow>
            (case ms_stmts s p of
               Some (Some (query, answer)) \<Rightarrow> bindR (wheel_insert p s) (\<lambda>s. Inr (answer, s))
             | _ \<Rightarrow> Inl Undefined)
        | None \<Rightarrow>
            bindR (process db msg) (\<lambda>echo.
              case any_cast (AnySqlPtr (msg, echo)) of
                None \<Rightarrow> Inl BadAnyCast
              | Some p \<Rightarrow>
                  let s1 = s\<lparr>ms_sqlchecklist := (ms_sqlchecklist s)(msg \<mapsto> p)\<rparr> in
                  if ms_stmts s1 p \<noteq> None then bindR (wheel_insert p s1) (\<lambda>s. Inr (echo, s))
                  else Inr (echo, s1)))
       (\<lambda>(echo, s). Inr (buf, emit (SendConn conn echo) s))))"

subsection \<open>The wheel\<close>

type_synonym circ_push_call = "nat list list \<Rightarrow> nat list \<Rightarrow> nat list list"

fun erase_bucket :: "nat list \<Rightarrow> mysql_server \<Rightarrow> mysql_server res" where
  "erase_bucket [] s = Inr s"
| "erase_bucket (p # ps) s =
     (case ms_stmts s p of
        Some (Some (query, answer)) \<Rightarrow>
          erase_bucket ps (s\<lparr>ms_sqlchecklist := (ms_sqlchecklist s)(query := None)\<rparr>)
      | _ \<Rightarrow> Inl Undefined)"

text \<open>The bucket that falls out of the wheel may hold the last reference to a statement.\<close>

definition onTimer :: "circ_push_call \<Rightarrow> mysql_server \<Rightarrow> mysql_server res" where
  "onTimer circ_push s =
     (if ms_sqlstmtlist s = [] then Inl Undefined
      else bindR (erase_bucket (hd (ms_sqlstmtlist s)) s) (\<lambda>s.
        let wheel = circ_push (ms_sqlstmtlist s) [] in
        Inr (s\<lparr>ms_sqlstmtlist := wheel, ms_stmts := ms_stmts s |` set (concat wheel)\<rparr>)))"

subsection \<open>Documented behaviour of the parameters\<close>

text \<open>\<open>any_cast\<close> returns the value when the type asked for is the type it holds, and throws otherwise.
  A full \<open>circular_buffer\<close> drops its first element on \<open>push_back\<close>; the wheel is always full, because the
  constructor resizes it to its capacity.\<close>

definition any_cast_ok :: "any_cast_call \<Rightarrow> bool" where
  "any_cast_ok any_cast \<longleftrightarrow> (\<forall>p. any_cast (AnyWeakStmt p) = Some p) \<and> (\<forall>x. any_cast (AnySqlPtr x) = None)"

definition circ_ok :: "circ_push_call \<Rightarrow> bool" where
  "circ_ok circ_push \<longleftrightarrow> (\<forall>bs b. bs \<noteq> [] \<longrightarrow> circ_push bs b = tl bs @ [b])"

subsection \<open>The order of use\<close>














subsection \<open>The cache\<close>

text \<open>The wheel as it was meant to be used: what the buckets hold is alive and knows its query.\<close>

definition wheel_ok :: "mysql_server \<Rightarrow> bool" where
  "wheel_ok s \<longleftrightarrow> ms_sqlstmtlist s \<noteq> [] \<and>
     (\<forall>p \<in> set (concat (ms_sqlstmtlist s)). \<exists>x. ms_stmts s p = Some (Some x))"

definition query_of :: "mysql_server \<Rightarrow> nat \<Rightarrow> byte list" where
  "query_of s p = fst (the (the (ms_stmts s p)))"

lemma erase_bucket_ok:
  assumes "\<forall>p \<in> set ps. \<exists>x. ms_stmts s p = Some (Some x)"
  shows "erase_bucket ps s =
    Inr (s\<lparr>ms_sqlchecklist := (\<lambda>q. if q \<in> query_of s ` set ps then None else ms_sqlchecklist s q)\<rparr>)"
  using assms
proof (induction ps arbitrary: s)
  case (Cons p ps)
  obtain q a where p: "ms_stmts s p = Some (Some (q, a))"
    using Cons.prems by auto
  let ?s = "s\<lparr>ms_sqlchecklist := (ms_sqlchecklist s)(q := None)\<rparr>"
  have "query_of ?s = query_of s"
    by (simp add: query_of_def fun_eq_iff)
  with Cons.IH [of ?s] Cons.prems p show ?case
    by (auto simp: query_of_def fun_eq_iff intro!: mysql_server.equality)
qed simp

lemma onTimer_ok:
  assumes "wheel_ok s" and "circ_ok circ_push"
  obtains s' where "onTimer circ_push s = Inr s'" and "wheel_ok s'"
    and "ms_sqlstmtlist s' = tl (ms_sqlstmtlist s) @ [[]]"
    and "\<And>p. p \<in> set (concat (tl (ms_sqlstmtlist s))) \<Longrightarrow> ms_stmts s' p = ms_stmts s p"
    and "ms_sqlchecklist s' = (\<lambda>q. if q \<in> query_of s ` set (hd (ms_sqlstmtlist s)) then None
           else ms_sqlchecklist s q)"
proof -
  obtain b bs where b: "ms_sqlstmtlist s = b # bs"
    using assms(1) by (cases "ms_sqlstmtlist s") (auto simp: wheel_ok_def)
  have alive: "\<forall>p \<in> set b. \<exists>x. ms_stmts s p = Some (Some x)"
    using assms(1) b by (simp add: wheel_ok_def)
  let ?s = "s\<lparr>ms_sqlchecklist := (\<lambda>q. if q \<in> query_of s ` set b then None else ms_sqlchecklist s q),
              ms_sqlstmtlist := bs @ [[]], ms_stmts := ms_stmts s |` set (concat bs)\<rparr>"
  have "onTimer circ_push s = Inr ?s"
    using assms(2) b erase_bucket_ok [OF alive]
    by (simp add: onTimer_def Let_def circ_ok_def restrict_map_def cong: if_cong)
  moreover have "wheel_ok ?s"
    using assms(1) b by (auto simp: wheel_ok_def restrict_map_def)
  moreover have "ms_stmts ?s p = ms_stmts s p" if "p \<in> set (concat (tl (ms_sqlstmtlist s)))" for p
    using that b by (simp add: restrict_map_def)
  ultimately show thesis
    using that [of ?s] b by simp
qed

fun ticks :: "circ_push_call \<Rightarrow> nat \<Rightarrow> mysql_server \<Rightarrow> mysql_server res" where
  "ticks circ_push 0 s = Inr s"
| "ticks circ_push (Suc n) s = bindR (onTimer circ_push s) (ticks circ_push n)"

text \<open>Queries of different statements differ, as far as the wheel holds them.\<close>

definition queries_distinct :: "mysql_server \<Rightarrow> bool" where
  "queries_distinct s \<longleftrightarrow> inj_on (query_of s) (set (concat (ms_sqlstmtlist s)))"

lemma ticks_ok:
  assumes "wheel_ok s" and circ: "circ_ok circ_push" and "queries_distinct s"
    and "i < length (ms_sqlstmtlist s)" and "p \<in> set (ms_sqlstmtlist s ! i)"
    and "\<forall>j < i. p \<notin> set (ms_sqlstmtlist s ! j)" and "n \<le> i"
  shows "\<exists>s' s''. ticks circ_push n s = Inr s' \<and> ms_sqlchecklist s' (query_of s p) = ms_sqlchecklist s (query_of s p) \<and>
    ticks circ_push (Suc i) s = Inr s'' \<and> ms_sqlchecklist s'' (query_of s p) = None"
  using assms(1,3-)
proof (induction i arbitrary: s n)
  case 0
  obtain s' where "onTimer circ_push s = Inr s'"
      "ms_sqlchecklist s' = (\<lambda>q. if q \<in> query_of s ` set (hd (ms_sqlstmtlist s)) then None
           else ms_sqlchecklist s q)"
    using onTimer_ok [OF 0(1) circ] .
  then show ?case
    using 0 by (cases "ms_sqlstmtlist s") auto
next
  case (Suc i)
  obtain b bs where b: "ms_sqlstmtlist s = b # bs"
    using Suc.prems(3) by (cases "ms_sqlstmtlist s") auto
  obtain s1 where s1: "onTimer circ_push s = Inr s1" "wheel_ok s1" "ms_sqlstmtlist s1 = bs @ [[]]"
      "\<And>p. p \<in> set (concat bs) \<Longrightarrow> ms_stmts s1 p = ms_stmts s p"
      "ms_sqlchecklist s1 = (\<lambda>q. if q \<in> query_of s ` set b then None else ms_sqlchecklist s q)"
    using onTimer_ok [OF Suc.prems(1) circ] b by auto
  have q1: "query_of s1 x = query_of s x" if "x \<in> set (concat bs)" for x
    using s1(4) [OF that] by (simp add: query_of_def)
  have i: "i < length bs" "p \<in> set (bs ! i)"
    using Suc.prems(3,4) b by simp_all
  then have p: "p \<in> set (concat bs)"
    by (metis UN_I nth_mem set_concat)
  have "p \<notin> set b"
    using Suc.prems(5) b by force
  moreover have "inj_on (query_of s) (insert p (set b))"
    using Suc.prems(2) p b by (auto simp: queries_distinct_def inj_on_def)
  ultimately have keep: "ms_sqlchecklist s1 (query_of s p) = ms_sqlchecklist s (query_of s p)"
    using s1(5) by (auto simp: inj_on_def)
  have "queries_distinct s1"
    using Suc.prems(2) q1 s1(3) b by (auto simp: queries_distinct_def inj_on_def)
  moreover have "i < length (ms_sqlstmtlist s1)" "p \<in> set (ms_sqlstmtlist s1 ! i)"
    "\<forall>j < i. p \<notin> set (ms_sqlstmtlist s1 ! j)"
    using s1(3) i Suc.prems(5) b by (auto simp: nth_append dest: spec [of _ "Suc _"])
  ultimately have ih: "\<exists>s' s''. ticks circ_push m s1 = Inr s' \<and>
      ms_sqlchecklist s' (query_of s p) = ms_sqlchecklist s1 (query_of s p) \<and>
      ticks circ_push (Suc i) s1 = Inr s'' \<and> ms_sqlchecklist s'' (query_of s p) = None" if "m \<le> i" for m
    using Suc.IH [OF s1(2) _ _ _ _ that] q1 [OF p] by (simp del: ticks.simps(2))
  show ?case
  proof (cases n)
    case 0
    then show ?thesis
      using ih [of 0] s1(1) by simp
  next
    case (Suc m)
    then show ?thesis
      using ih [of m] s1(1) keep Suc.prems(6) by (simp del: ticks.simps(2) add: ticks.simps(2) [of _ _ s])
  qed
qed

subsection \<open>Runs of the server\<close>

inductive server_reach :: "mysql_db \<Rightarrow> any_cast_call \<Rightarrow> circ_push_call \<Rightarrow> nat \<Rightarrow> mysql_server \<Rightarrow> bool"
  for db any_cast circ_push idleSeconds where
  start: "server_reach db any_cast circ_push idleSeconds (new_mysql_server idleSeconds)"
| connection: "server_reach db any_cast circ_push idleSeconds s \<Longrightarrow>
     server_reach db any_cast circ_push idleSeconds (onConnection conn s)"
| timer: "server_reach db any_cast circ_push idleSeconds s \<Longrightarrow> onTimer circ_push s = Inr s' \<Longrightarrow>
     server_reach db any_cast circ_push idleSeconds s'"
| message: "server_reach db any_cast circ_push idleSeconds s \<Longrightarrow>
     onMessage db any_cast conn buf s = Inr (buf', s') \<Longrightarrow>
     server_reach db any_cast circ_push idleSeconds s'"

definition cache_empty :: "mysql_server \<Rightarrow> bool" where
  "cache_empty s \<longleftrightarrow> ms_sqlchecklist s = Map.empty \<and> ms_stmts s = Map.empty \<and> concat (ms_sqlstmtlist s) = []"

lemma onConnection_cache: "cache_empty (onConnection c s) = cache_empty s"
  by (simp add: cache_empty_def onConnection_def lru_push_def emit_def Let_def)

lemma lru_touch_cache: "lru_touch c s = Inr s' \<Longrightarrow> cache_empty s' = cache_empty s"
  by (auto simp: lru_touch_def cache_empty_def split: option.splits)

lemma onTimer_cache:
  assumes "onTimer circ_push s = Inr s'" and "circ_ok circ_push" and "cache_empty s"
  shows "cache_empty s'"
proof -
  have "ms_sqlstmtlist s \<noteq> []"
    using assms(1) by (auto simp: onTimer_def)
  then have wheel: "wheel_ok s"
    using assms(3) by (simp add: wheel_ok_def cache_empty_def del: set_concat concat_eq_Nil_conv)
  obtain s1 where s1: "onTimer circ_push s = Inr s1" "ms_sqlstmtlist s1 = tl (ms_sqlstmtlist s) @ [[]]"
    "ms_sqlchecklist s1 = (\<lambda>q. if q \<in> query_of s ` set (hd (ms_sqlstmtlist s)) then None
       else ms_sqlchecklist s q)"
    using onTimer_ok [OF wheel assms(2)] by blast
  have "hd (ms_sqlstmtlist s) = []"
    using assms(3) \<open>ms_sqlstmtlist s \<noteq> []\<close> by (cases "ms_sqlstmtlist s") (auto simp: cache_empty_def)
  then have "erase_bucket (hd (ms_sqlstmtlist s)) s = Inr s"
    by simp
  then have "ms_stmts s1 = Map.empty"
    using s1(1) assms(3) by (auto simp: onTimer_def Let_def cache_empty_def split: if_splits)
  moreover have "concat (tl (ms_sqlstmtlist s)) = []"
    using assms(3) by (cases "ms_sqlstmtlist s") (auto simp: cache_empty_def)
  ultimately show ?thesis
    using s1 assms(1,3) by (auto simp: cache_empty_def)
qed

lemma onMessage_throws:
  assumes "cache_empty s" and "any_cast_ok any_cast"
  shows "onMessage db any_cast conn buf s \<noteq> Inr r"
proof
  assume "onMessage db any_cast conn buf s = Inr r"
  then obtain msg buf' s1 where "lru_touch conn s = Inr s1"
    and "\<exists>e. (case ms_sqlchecklist s1 msg of
          Some p \<Rightarrow>
            (case ms_stmts s1 p of
               Some (Some (query, answer)) \<Rightarrow> bindR (wheel_insert p s1) (\<lambda>s. Inr (answer, s))
             | _ \<Rightarrow> Inl Undefined)
        | None \<Rightarrow>
            bindR (process db msg) (\<lambda>echo.
              case any_cast (AnySqlPtr (msg, echo)) of
                None \<Rightarrow> Inl BadAnyCast
              | Some p \<Rightarrow>
                  let s2 = s1\<lparr>ms_sqlchecklist := (ms_sqlchecklist s1)(msg \<mapsto> p)\<rparr> in
                  if ms_stmts s2 p \<noteq> None then bindR (wheel_insert p s2) (\<lambda>s. Inr (echo, s))
                  else Inr (echo, s2))) = Inr e"
    unfolding onMessage_def by (auto simp: bindR_eq_Inr split: prod.splits)
  then show False
    using assms lru_touch_cache [of conn s s1]
    by (auto simp: cache_empty_def any_cast_ok_def res_simps)
qed

lemma server_reach_cache:
  assumes "server_reach db any_cast circ_push idleSeconds s" and "any_cast_ok any_cast"
    and "circ_ok circ_push"
  shows "cache_empty s"
  using assms(1)
proof (induction rule: server_reach.induct)
  case start
  then show ?case by (simp add: cache_empty_def new_mysql_server_def)
next
  case (connection s conn)
  then show ?case by (simp add: onConnection_cache)
next
  case (timer s s')
  then show ?case using onTimer_cache assms(3) by blast
next
  case (message s conn buf buf' s')
  then show ?case using onMessage_throws [OF _ assms(2)] by blast
qed

subsection \<open>Properties\<close>

text \<open>C18: Whatever happened before, no request is ever answered: in a server that is running, handling a
  message does not succeed, and for a connection that the server has in its list, a well-formed
  buffer and a database that answers, it ends in the exception \<open>bad_any_cast\<close>, which nothing
  catches.\<close>

theorem no_query_answered:
  assumes "server_reach db any_cast circ_push idleSeconds s" and "any_cast_ok any_cast"
    and "circ_ok circ_push"
  shows "onMessage db any_cast conn buf s \<noteq> Inr r \<and>
    (buf_ok buf \<and> (\<exists>s1. lru_touch conn s = Inr s1) \<and> (\<exists>echo. process db (readable buf) = Inr echo) \<longrightarrow>
       onMessage db any_cast conn buf s = Inl BadAnyCast)"
proof (intro conjI impI)
  note empty = server_reach_cache [OF assms]
  show "onMessage db any_cast conn buf s \<noteq> Inr r"
    by (rule onMessage_throws [OF empty assms(2)])
  assume "buf_ok buf \<and> (\<exists>s1. lru_touch conn s = Inr s1) \<and> (\<exists>echo. process db (readable buf) = Inr echo)"
  then obtain s1 echo where s1: "buf_ok buf" "lru_touch conn s = Inr s1" "process db (readable buf) = Inr echo"
    by blast
  obtain buf' where "retrieveAllAsString buf = Inr (readable buf, buf')"
    using retrieveAllAsString_ok [OF s1(1)] by blast
  moreover have "ms_sqlchecklist s1 = Map.empty"
    using lru_touch_cache [OF s1(2)] empty by (simp add: cache_empty_def)
  ultimately show "onMessage db any_cast conn buf s = Inl BadAnyCast"
    using s1 assms(2) by (simp add: onMessage_def any_cast_ok_def)
qed

text \<open>The library as documented, on a database that reports an error for everything.\<close>

definition down_db :: mysql_db where
  "down_db sql = MysqlError 2006 ''MySQL server has gone away''"

fun typed_any_cast :: any_cast_call where
  "typed_any_cast (AnyWeakStmt p) = Some p"
| "typed_any_cast (AnySqlPtr x) = None"

definition ring_push :: circ_push_call where
  "ring_push bs b = tl bs @ [b]"

lemma parameters_ok: "any_cast_ok typed_any_cast" "circ_ok ring_push"
  by (simp_all add: any_cast_ok_def circ_ok_def ring_push_def)

theorem no_query_answered_witness:
  "\<exists>buf. new_buffer kInitialSize = Inr buf \<and>
     onMessage down_db typed_any_cast 7 buf (onConnection 7 (new_mysql_server 5)) = Inl BadAnyCast"
proof -
  obtain buf where buf: "new_buffer kInitialSize = Inr buf" "buf_ok buf"
    using new_buffer_ok [of kInitialSize] by (auto simp: kCheapPrepend_def kInitialSize_def max_size_def)
  have "server_reach down_db typed_any_cast ring_push 5 (onConnection 7 (new_mysql_server 5))"
    by (intro server_reach.intros)
  moreover have "\<exists>s1. lru_touch 7 (onConnection 7 (new_mysql_server 5)) = Inr s1"
    by (simp add: lru_touch_def onConnection_def lru_push_def new_mysql_server_def SIZECONN_def)
  ultimately show ?thesis
    using no_query_answered [of down_db typed_any_cast ring_push 5 _ 7 buf] parameters_ok buf
    by (auto simp: process_def down_db_def)
qed



text \<open>An answer leaves the cache when the first bucket of the wheel that holds its statement comes
  to the front, and not before; having been used again, which puts it into a later bucket as
  well, does not keep it.\<close>

theorem cache_expires:
  assumes "wheel_ok s" and "circ_ok circ_push" and "queries_distinct s"
    and "i < length (ms_sqlstmtlist s)" and "p \<in> set (ms_sqlstmtlist s ! i)"
    and "\<forall>j < i. p \<notin> set (ms_sqlstmtlist s ! j)" and "n \<le> i"
  shows "\<exists>s' s''. ticks circ_push n s = Inr s' \<and>
    ms_sqlchecklist s' (query_of s p) = ms_sqlchecklist s (query_of s p) \<and>
    ticks circ_push (Suc i) s = Inr s'' \<and> ms_sqlchecklist s'' (query_of s p) = None"
  by (rule ticks_ok [OF assms])

definition sample_cache :: mysql_server where
  "sample_cache = (new_mysql_server 3)\<lparr>ms_stmts := [1 \<mapsto> Some ([65], [66])],
     ms_sqlstmtlist := [[], [1], [1]], ms_sqlchecklist := [[65] \<mapsto> 1]\<rparr>"

theorem cache_expires_witness:
  "\<exists>s' s''. ticks ring_push 1 sample_cache = Inr s' \<and> ms_sqlchecklist s' [65] = Some 1 \<and>
     ticks ring_push 2 sample_cache = Inr s'' \<and> ms_sqlchecklist s'' [65] = None"
  using cache_expires [of sample_cache ring_push 1 1 1] parameters_ok(2)
  by (simp add: sample_cache_def wheel_ok_def queries_distinct_def query_of_def numeral_2_eq_2 less_Suc_eq)

text \<open>A connection that has come and gone is still in the list, twice: the server does not look
  whether the callback reports the connection as up or as down.\<close>

lemma closed_connection_kept:
  "map snd (ms_lrulist (onConnection c (onConnection c (new_mysql_server idleSeconds)))) = [c, c]"
  by (simp add: onConnection_def lru_push_def new_mysql_server_def SIZECONN_def)

end
