(* ===== verification/Connector.thy ===== *)
theory Connector
  imports Channel "HOL-Library.Multiset"
begin

section \<open>Connecting: \<open>src/src/muduo/net/Connector.cc\<close>\<close>

text \<open>
  A \<open>Connector\<close> makes a non-blocking connection, waits for its descriptor to become writable, hands
  it over, and tries again with a growing delay when that fails.  Functors it queues in its loop
  are \<open>cn_tasks\<close>, the timers it starts are \<open>cn_timers\<close> (their delays), and what it does to
  descriptors is recorded in \<open>cn_effects\<close>.  The system calls are parameters of the operations: the
  descriptor \<open>socket\<close> returns, the error of \<open>connect\<close>, and what the socket says about itself.
\<close>

datatype connector_state = CnDisconnected | CnConnecting | CnConnected

datatype connector_task = StartInLoopTask | StopInLoopTask | ResetChannelTask

datatype connector_effect =
    SockOpened int
  | SockClosed int
  | SockHandedOver int
  | RetryAfter int

record connector =
  cn_connect :: bool
  cn_state :: connector_state
  cn_channel :: "channel option"
  cn_retryDelayMs :: int
  cn_tasks :: "connector_task list"
  cn_timers :: "int list"
  cn_effects :: "connector_effect list"

definition kMaxRetryDelayMs :: int where
  "kMaxRetryDelayMs = 30 * 1000"

definition kInitRetryDelayMs :: int where
  "kInitRetryDelayMs = 500"

text \<open>The error numbers of \<open>connect(2)\<close> the code distinguishes.\<close>

definition connecting_errors :: "int list" where
  "connecting_errors = [0, 115, 4, 106]"       \<comment> \<open>none, EINPROGRESS, EINTR, EISCONN\<close>

definition retry_errors :: "int list" where
  "retry_errors = [11, 98, 99, 111, 101]"
    \<comment> \<open>EAGAIN, EADDRINUSE, EADDRNOTAVAIL, ECONNREFUSED, ENETUNREACH\<close>

definition new_connector :: connector where
  "new_connector = \<lparr>cn_connect = False, cn_state = CnDisconnected, cn_channel = None,
     cn_retryDelayMs = kInitRetryDelayMs, cn_tasks = [], cn_timers = [], cn_effects = []\<rparr>"

definition destroy_connector :: "connector \<Rightarrow> unit res" where
  "destroy_connector c = asserting (cn_channel c = None) (Inr ())"

definition cn_effect :: "connector_effect \<Rightarrow> connector \<Rightarrow> connector" where
  "cn_effect e c = c\<lparr>cn_effects := cn_effects c @ [e]\<rparr>"

definition cn_queue :: "connector_task \<Rightarrow> connector \<Rightarrow> connector" where
  "cn_queue t c = c\<lparr>cn_tasks := cn_tasks c @ [t]\<rparr>"

definition cn_setState :: "connector_state \<Rightarrow> connector \<Rightarrow> connector" where
  "cn_setState s c = c\<lparr>cn_state := s\<rparr>"

subsection \<open>The operations\<close>

definition retry :: "int \<Rightarrow> connector \<Rightarrow> connector" where
  "retry sockfd c =
     (let c1 = cn_setState CnDisconnected (cn_effect (SockClosed sockfd) c) in
      if cn_connect c1 then
        cn_effect (RetryAfter (cn_retryDelayMs c1))
          (c1\<lparr>cn_timers := cn_timers c1 @ [cn_retryDelayMs c1],
              cn_retryDelayMs := min (cn_retryDelayMs c1 * 2) kMaxRetryDelayMs\<rparr>)
      else c1)"

definition connecting :: "int \<Rightarrow> connector \<Rightarrow> connector res" where
  "connecting sockfd c =
     (let c1 = cn_setState CnConnecting c in
      asserting (cn_channel c1 = None)
        (Inr (c1\<lparr>cn_channel := Some (enableWriting
           (fold setCallback [WriteCallback, ErrorCallback] (new_channel sockfd)))\<rparr>)))"

text \<open>\<open>connect\<close>, with what \<open>socket\<close> returned and the \<open>savedErrno\<close> of \<open>connect(2)\<close>.\<close>

definition connect :: "int \<Rightarrow> int \<Rightarrow> connector \<Rightarrow> connector res" where
  "connect sockfd savedErrno c =
     (if sockfd < 0 then Inl Fatal
      else
        let c1 = cn_effect (SockOpened sockfd) c in
        if savedErrno \<in> set connecting_errors then connecting sockfd c1
        else if savedErrno \<in> set retry_errors then Inr (retry sockfd c1)
        else Inr (cn_effect (SockClosed sockfd) c1))"

definition startInLoop :: "int \<Rightarrow> int \<Rightarrow> connector \<Rightarrow> connector res" where
  "startInLoop sockfd savedErrno c =
     asserting (cn_state c = CnDisconnected)
       (if cn_connect c then connect sockfd savedErrno c else Inr c)"

definition start :: "bool \<Rightarrow> int \<Rightarrow> int \<Rightarrow> connector \<Rightarrow> connector res" where
  "start inLoopThread sockfd savedErrno c =
     (let c1 = c\<lparr>cn_connect := True\<rparr> in
      if inLoopThread then startInLoop sockfd savedErrno c1 else Inr (cn_queue StartInLoopTask c1))"

definition stop :: "connector \<Rightarrow> connector" where
  "stop c = cn_queue StopInLoopTask (c\<lparr>cn_connect := False\<rparr>)"

definition removeAndResetChannel :: "connector \<Rightarrow> (int \<times> connector) res" where
  "removeAndResetChannel c =
     (case cn_channel c of
        None \<Rightarrow> Inl Undefined
      | Some ch \<Rightarrow>
          bindR (channel_remove (disableAll ch)) (\<lambda>ch.
            Inr (ch_fd ch, cn_queue ResetChannelTask (c\<lparr>cn_channel := Some ch\<rparr>))))"

definition resetChannel :: "connector \<Rightarrow> connector" where
  "resetChannel c = c\<lparr>cn_channel := None\<rparr>"

definition stopInLoop :: "connector \<Rightarrow> connector res" where
  "stopInLoop c =
     (if cn_state c = CnConnecting then
        bindR (removeAndResetChannel (cn_setState CnDisconnected c)) (\<lambda>(sockfd, c). Inr (retry sockfd c))
      else Inr c)"

definition restart_connector :: "int \<Rightarrow> int \<Rightarrow> connector \<Rightarrow> connector res" where
  "restart_connector sockfd savedErrno c =
     startInLoop sockfd savedErrno
       ((cn_setState CnDisconnected c)\<lparr>cn_retryDelayMs := kInitRetryDelayMs, cn_connect := True\<rparr>)"

text \<open>The channel's callbacks; \<open>err\<close> and \<open>selfConnect\<close> are what the socket reports.\<close>

definition handleConnectWrite :: "int \<Rightarrow> bool \<Rightarrow> connector \<Rightarrow> connector res" where
  "handleConnectWrite err selfConnect c =
     (if cn_state c = CnConnecting then
        bindR (removeAndResetChannel c) (\<lambda>(sockfd, c).
          if err \<noteq> 0 then Inr (retry sockfd c)
          else if selfConnect then Inr (retry sockfd c)
          else
            let c1 = cn_setState CnConnected c in
            Inr (cn_effect (if cn_connect c1 then SockHandedOver sockfd else SockClosed sockfd) c1))
      else asserting (cn_state c = CnDisconnected) (Inr c))"

definition handleConnectError :: "connector \<Rightarrow> connector res" where
  "handleConnectError c =
     (if cn_state c = CnConnecting
      then bindR (removeAndResetChannel c) (\<lambda>(sockfd, c). Inr (retry sockfd c))
      else Inr c)"

subsection \<open>Runs\<close>

fun run_connector_task :: "int \<Rightarrow> int \<Rightarrow> connector_task \<Rightarrow> connector \<Rightarrow> connector res" where
  "run_connector_task sockfd savedErrno StartInLoopTask c = startInLoop sockfd savedErrno c"
| "run_connector_task sockfd savedErrno StopInLoopTask c = stopInLoop c"
| "run_connector_task sockfd savedErrno ResetChannelTask c = Inr (resetChannel c)"

text \<open>
  What can happen to a connector.  \<open>RestartEv\<close> is what \<open>TcpClient\<close> does when the connection that was
  handed over has ended.
\<close>

datatype connector_event =
    StartEv bool int int
  | StopEv
  | TaskEv int int
  | TimerEv int int
  | WriteEv int bool
  | ErrorEv
  | RestartEv int int

fun connector_step :: "connector_event \<Rightarrow> connector \<Rightarrow> connector res" where
  "connector_step (StartEv inLoop sockfd err) c = start inLoop sockfd err c"
| "connector_step StopEv c = Inr (stop c)"
| "connector_step (TaskEv sockfd err) c =
     (case cn_tasks c of
        [] \<Rightarrow> Inr c
      | t # ts \<Rightarrow> run_connector_task sockfd err t (c\<lparr>cn_tasks := ts\<rparr>))"
| "connector_step (TimerEv sockfd err) c =
     (case cn_timers c of
        [] \<Rightarrow> Inr c
      | d # ds \<Rightarrow> startInLoop sockfd err (c\<lparr>cn_timers := ds\<rparr>))"
| "connector_step (WriteEv err selfConnect) c = handleConnectWrite err selfConnect c"
| "connector_step ErrorEv c = handleConnectError c"
| "connector_step (RestartEv sockfd err) c = restart_connector sockfd err c"

fun connector_event_ok :: "connector_event \<Rightarrow> connector \<Rightarrow> bool" where
  "connector_event_ok (RestartEv sockfd err) c \<longleftrightarrow> cn_state c = CnConnected"
| "connector_event_ok _ c \<longleftrightarrow> True"

inductive connector_reach :: "connector \<Rightarrow> bool" where
  fresh: "connector_reach new_connector"
| event: "connector_reach c \<Longrightarrow> connector_event_ok e c \<Longrightarrow> connector_step e c = Inr c' \<Longrightarrow>
     connector_reach c'"

subsection \<open>The invariant\<close>

text \<open>What became of descriptors, from the record of effects.\<close>

definition opened :: "connector \<Rightarrow> int list" where
  "opened c = concat (map (\<lambda>e. case e of SockOpened fd \<Rightarrow> [fd] | _ \<Rightarrow> []) (cn_effects c))"

definition closed :: "connector \<Rightarrow> int list" where
  "closed c = concat (map (\<lambda>e. case e of SockClosed fd \<Rightarrow> [fd] | _ \<Rightarrow> []) (cn_effects c))"

definition handed_over :: "connector \<Rightarrow> int list" where
  "handed_over c = concat (map (\<lambda>e. case e of SockHandedOver fd \<Rightarrow> [fd] | _ \<Rightarrow> []) (cn_effects c))"

definition in_flight :: "connector \<Rightarrow> int list" where
  "in_flight c = (if cn_state c = CnConnecting then [ch_fd (the (cn_channel c))] else [])"

definition sockets_accounted :: "connector \<Rightarrow> bool" where
  "sockets_accounted c \<longleftrightarrow>
     mset (opened c) = mset (closed c) + mset (handed_over c) + mset (in_flight c)"

text \<open>While connecting there is a channel and nobody is about to reset it; otherwise a channel that is
  still there is about to be reset.\<close>

definition resets :: "connector \<Rightarrow> nat" where
  "resets c = count_list (cn_tasks c) ResetChannelTask"

definition channel_accounted :: "connector \<Rightarrow> bool" where
  "channel_accounted c \<longleftrightarrow>
     (if cn_state c = CnConnecting
      then cn_channel c \<noteq> None \<and> resets c = 0
      else resets c = (if cn_channel c = None then 0 else 1))"

definition delay_ok :: "connector \<Rightarrow> bool" where
  "delay_ok c \<longleftrightarrow> kInitRetryDelayMs \<le> cn_retryDelayMs c \<and> cn_retryDelayMs c \<le> kMaxRetryDelayMs"

definition connector_inv :: "connector \<Rightarrow> bool" where
  "connector_inv c \<longleftrightarrow> sockets_accounted c \<and> channel_accounted c \<and> delay_ok c"

lemmas connector_defs = cn_effect_def cn_queue_def cn_setState_def

lemmas account_defs = sockets_accounted_def opened_def closed_def handed_over_def in_flight_def

lemmas connector_invs = connector_inv_def resets_def channel_accounted_def delay_ok_def account_defs

definition loose :: "int \<Rightarrow> connector \<Rightarrow> bool" where
  "loose fd c \<longleftrightarrow> mset (opened c) = mset (closed c) + mset (handed_over c) + {#fd#}"

lemma retry_ok:
  assumes "loose fd c" and "delay_ok c"
  shows "sockets_accounted (retry fd c)" and "delay_ok (retry fd c)"
    and "cn_state (retry fd c) = CnDisconnected" and "cn_channel (retry fd c) = cn_channel c"
    and "cn_tasks (retry fd c) = cn_tasks c"
  using assms
  by (auto simp: retry_def Let_def connector_defs account_defs loose_def delay_ok_def
      kMaxRetryDelayMs_def kInitRetryDelayMs_def)

lemma connecting_ok:
  assumes "loose fd c" and "delay_ok c" and "connecting fd c = Inr c'"
    and "resets c = (if cn_channel c = None then 0 else 1)"
  shows "connector_inv c'"
proof -
  have "ch_fd (enableWriting (fold setCallback [WriteCallback, ErrorCallback] (new_channel fd))) = fd"
    by (simp add: channel_ops new_channel_def setCallback_def)
  then show ?thesis
    using assms
    by (auto simp: connecting_def Let_def connector_defs connector_invs loose_def res_simps)
qed

lemma connect_ok:
  assumes inv: "sockets_accounted c" "delay_ok c" and conn: "connect fd err c = Inr c'"
    and st: "cn_state c = CnDisconnected"
    and ch: "resets c = (if cn_channel c = None then 0 else 1)"
  shows "connector_inv c'"
proof -
  let ?c = "cn_effect (SockOpened fd) c"
  have l: "loose fd ?c" "delay_ok ?c"
    using inv st by (simp_all add: loose_def account_defs delay_ok_def cn_effect_def)
  have same: "cn_channel ?c = cn_channel c" "cn_tasks ?c = cn_tasks c" "cn_state ?c = cn_state c"
    by (simp_all add: connector_defs)
  consider "connecting fd ?c = Inr c'" | "c' = retry fd ?c" | "c' = cn_effect (SockClosed fd) ?c"
    using conn unfolding connect_def Let_def by (metis Inl_Inr_False Inr_inject)
  then show ?thesis
  proof cases
    case 1
    then show ?thesis
      using connecting_ok [OF l] ch same by (simp add: resets_def)
  next
    case 2
    then show ?thesis
      using retry_ok [OF l] ch same by (simp add: connector_inv_def channel_accounted_def resets_def)
  next
    case 3
    then show ?thesis
      using l ch st
      by (simp add: connector_inv_def channel_accounted_def resets_def delay_ok_def account_defs loose_def
          cn_effect_def)
  qed
qed

lemma startInLoop_ok:
  assumes "connector_inv c" and "startInLoop fd err c = Inr c'"
  shows "connector_inv c'"
  using assms connect_ok [of c fd err c']
  by (auto simp: startInLoop_def res_simps connector_inv_def channel_accounted_def split: if_splits)

lemma connector_inv_cong:
  "cn_state c' = cn_state c \<Longrightarrow> cn_channel c' = cn_channel c \<Longrightarrow> resets c' = resets c \<Longrightarrow>
   cn_effects c' = cn_effects c \<Longrightarrow> cn_retryDelayMs c' = cn_retryDelayMs c \<Longrightarrow>
   connector_inv c' = connector_inv c"
  by (simp add: connector_inv_def channel_accounted_def delay_ok_def account_defs)

lemma removeAndResetChannel_ok:
  assumes inv: "connector_inv c" and st: "cn_state c = CnConnecting"
    and same: "cn_channel c1 = cn_channel c" "cn_tasks c1 = cn_tasks c" "cn_effects c1 = cn_effects c"
      "cn_retryDelayMs c1 = cn_retryDelayMs c" "cn_connect c1 = cn_connect c"
  obtains fd c' where "removeAndResetChannel c1 = Inr (fd, c')" and "loose fd c'" and "delay_ok c'"
    and "cn_channel c' \<noteq> None" and "cn_tasks c' = cn_tasks c @ [ResetChannelTask]"
    and "cn_connect c' = cn_connect c" and "cn_effects c' = cn_effects c" and "cn_state c' = cn_state c1"
proof -
  obtain ch where ch: "cn_channel c = Some ch"
    using inv st by (auto simp: connector_inv_def channel_accounted_def)
  obtain ch' where ch': "channel_remove (disableAll ch) = Inr ch'" "ch_fd ch' = ch_fd ch"
    by (auto simp: channel_remove_def channel_ops isNoneEvent_def)
  let ?c = "cn_queue ResetChannelTask (c1\<lparr>cn_channel := Some ch'\<rparr>)"
  have "removeAndResetChannel c1 = Inr (ch_fd ch, ?c)"
    using ch ch' same by (simp add: removeAndResetChannel_def)
  moreover have "loose (ch_fd ch) ?c"
    using inv st ch same by (simp add: connector_invs loose_def connector_defs)
  moreover have "delay_ok ?c"
    using inv same by (simp add: connector_inv_def delay_ok_def connector_defs)
  ultimately show thesis
    using that [of "ch_fd ch" ?c] same by (simp add: connector_defs)
qed

text \<open>Taking the channel away and trying again, the common end of three operations.\<close>

lemma remove_retry_ok:
  assumes inv: "connector_inv c" and st: "cn_state c = CnConnecting"
    and same: "cn_channel c1 = cn_channel c" "cn_tasks c1 = cn_tasks c" "cn_effects c1 = cn_effects c"
      "cn_retryDelayMs c1 = cn_retryDelayMs c" "cn_connect c1 = cn_connect c"
  obtains fd c' where "removeAndResetChannel c1 = Inr (fd, c')" and "connector_inv (retry fd c')"
proof -
  obtain fd c' where c': "removeAndResetChannel c1 = Inr (fd, c')" "loose fd c'" "delay_ok c'"
      "cn_channel c' \<noteq> None" "cn_tasks c' = cn_tasks c @ [ResetChannelTask]"
    using removeAndResetChannel_ok [OF inv st same] by blast
  moreover have "resets c = 0"
    using inv st by (simp add: connector_inv_def channel_accounted_def)
  ultimately have "connector_inv (retry fd c')"
    using retry_ok [OF c'(2,3)]
    by (simp add: connector_inv_def channel_accounted_def resets_def)
  with c'(1) that show thesis by blast
qed

lemma stopInLoop_ok:
  assumes inv: "connector_inv c"
  shows "\<exists>c'. stopInLoop c = Inr c' \<and> connector_inv c'"
proof (cases "cn_state c = CnConnecting")
  case True
  let ?c = "cn_setState CnDisconnected c"
  have same: "cn_channel ?c = cn_channel c" "cn_tasks ?c = cn_tasks c" "cn_effects ?c = cn_effects c"
      "cn_retryDelayMs ?c = cn_retryDelayMs c" "cn_connect ?c = cn_connect c"
    by (simp_all add: cn_setState_def)
  obtain fd c' where "removeAndResetChannel ?c = Inr (fd, c')" "connector_inv (retry fd c')"
    using remove_retry_ok [OF inv True same] .
  with True show ?thesis by (simp add: stopInLoop_def)
qed (use inv in \<open>simp add: stopInLoop_def\<close>)

lemma handleConnectError_ok:
  assumes inv: "connector_inv c"
  shows "\<exists>c'. handleConnectError c = Inr c' \<and> connector_inv c'"
proof (cases "cn_state c = CnConnecting")
  case True
  obtain fd c' where "removeAndResetChannel c = Inr (fd, c')" "connector_inv (retry fd c')"
    using remove_retry_ok [OF inv True refl refl refl refl refl] .
  with True show ?thesis by (simp add: handleConnectError_def)
qed (use inv in \<open>simp add: handleConnectError_def\<close>)

lemma handleConnectWrite_ok:
  assumes inv: "connector_inv c" and step: "handleConnectWrite err self c = Inr c'"
  shows "connector_inv c'"
proof (cases "cn_state c = CnConnecting")
  case False
  then show ?thesis
    using inv step by (simp add: handleConnectWrite_def res_simps)
next
  case True
  have no: "resets c = 0"
    using inv True by (simp add: connector_inv_def channel_accounted_def)
  show ?thesis
  proof (cases "err \<noteq> 0 \<or> self")
    case retries: True
    obtain fd c1 where "removeAndResetChannel c = Inr (fd, c1)" "connector_inv (retry fd c1)"
      using remove_retry_ok [OF inv True refl refl refl refl refl] .
    with True retries step show ?thesis
      by (auto simp: handleConnectWrite_def split: if_splits)
  next
    case False
    obtain fd c1 where c1: "removeAndResetChannel c = Inr (fd, c1)" "loose fd c1" "delay_ok c1"
      "cn_channel c1 \<noteq> None" "cn_tasks c1 = cn_tasks c @ [ResetChannelTask]"
      using removeAndResetChannel_ok [OF inv True refl refl refl refl refl] by blast
    then have "c' = cn_effect (if cn_connect c1 then SockHandedOver fd else SockClosed fd)
        (cn_setState CnConnected c1)"
      using True False step by (simp add: handleConnectWrite_def Let_def cn_setState_def)
    then show ?thesis
      using c1 no by (auto simp: connector_invs connector_defs loose_def)
  qed
qed

lemma run_connector_task_ok:
  assumes inv: "connector_inv c" and tasks: "cn_tasks c = t # ts"
    and run: "run_connector_task fd err t (c\<lparr>cn_tasks := ts\<rparr>) = Inr c'"
  shows "connector_inv c'"
proof (cases t)
  case StartInLoopTask
  have "connector_inv (c\<lparr>cn_tasks := ts\<rparr>)"
    using inv connector_inv_cong [of "c\<lparr>cn_tasks := ts\<rparr>" c] tasks StartInLoopTask by (simp add: resets_def)
  with run StartInLoopTask show ?thesis
    using startInLoop_ok by simp
next
  case StopInLoopTask
  have "connector_inv (c\<lparr>cn_tasks := ts\<rparr>)"
    using inv connector_inv_cong [of "c\<lparr>cn_tasks := ts\<rparr>" c] tasks StopInLoopTask by (simp add: resets_def)
  with run StopInLoopTask show ?thesis
    using stopInLoop_ok by fastforce
next
  case ResetChannelTask
  then have "c' = c\<lparr>cn_tasks := ts, cn_channel := None\<rparr>"
    using run by (simp add: resetChannel_def)
  moreover have "cn_state c \<noteq> CnConnecting" "resets c = Suc (count_list ts ResetChannelTask)"
    using inv tasks ResetChannelTask by (auto simp: connector_inv_def channel_accounted_def resets_def)
  ultimately show ?thesis
    using inv by (auto simp: connector_inv_def channel_accounted_def resets_def delay_ok_def account_defs
        split: if_splits)
qed

lemma connector_step_ok:
  assumes inv: "connector_inv c" and ok: "connector_event_ok e c" and step: "connector_step e c = Inr c'"
  shows "connector_inv c'"
proof (cases e)
  case (StartEv inLoop fd err)
  have "connector_inv (c\<lparr>cn_connect := True\<rparr>)"
    using inv connector_inv_cong [of "c\<lparr>cn_connect := True\<rparr>" c] by (simp add: resets_def)
  moreover have "connector_inv (cn_queue StartInLoopTask (c\<lparr>cn_connect := True\<rparr>))"
    using inv connector_inv_cong [of "cn_queue StartInLoopTask (c\<lparr>cn_connect := True\<rparr>)" c]
    by (simp add: resets_def cn_queue_def)
  ultimately show ?thesis
    using step StartEv startInLoop_ok by (auto simp: start_def Let_def split: if_splits)
next
  case StopEv
  then show ?thesis
    using inv step connector_inv_cong [of "stop c" c] by (auto simp: stop_def resets_def cn_queue_def)
next
  case (TaskEv fd err)
  then show ?thesis
    using inv step run_connector_task_ok [OF inv] by (cases "cn_tasks c") simp_all
next
  case (TimerEv fd err)
  have "connector_inv (c\<lparr>cn_timers := ds\<rparr>)" for ds
    using inv connector_inv_cong [of "c\<lparr>cn_timers := ds\<rparr>" c] by (simp add: resets_def)
  with step TimerEv inv show ?thesis
    using startInLoop_ok by (cases "cn_timers c") (simp, fastforce)
next
  case (WriteEv err self)
  with step inv show ?thesis
    using handleConnectWrite_ok by simp
next
  case ErrorEv
  with step inv show ?thesis
    using handleConnectError_ok by fastforce
next
  case (RestartEv fd err)
  let ?c = "(cn_setState CnDisconnected c)\<lparr>cn_retryDelayMs := kInitRetryDelayMs, cn_connect := True\<rparr>"
  have "connector_inv ?c"
    using inv ok RestartEv
    by (simp add: connector_inv_def channel_accounted_def delay_ok_def account_defs resets_def cn_setState_def
        kInitRetryDelayMs_def kMaxRetryDelayMs_def)
  with step RestartEv show ?thesis
    using startInLoop_ok by (simp add: restart_connector_def)
qed

lemma connector_reach_inv: "connector_reach c \<Longrightarrow> connector_inv c"
proof (induction rule: connector_reach.induct)
  case fresh
  then show ?case
    by (simp add: connector_invs new_connector_def kInitRetryDelayMs_def kMaxRetryDelayMs_def)
next
  case (event c e c')
  then show ?case using connector_step_ok by blast
qed

subsection \<open>Delays\<close>

definition retry_delays :: "connector \<Rightarrow> int list" where
  "retry_delays c = concat (map (\<lambda>e. case e of RetryAfter d \<Rightarrow> [d] | _ \<Rightarrow> []) (cn_effects c))"

text \<open>Attempts that the peer refuses, each made when the timer of the previous one fires.\<close>

definition ECONNREFUSED :: int where
  "ECONNREFUSED = 111"

fun refused_attempts :: "int list \<Rightarrow> connector \<Rightarrow> connector res" where
  "refused_attempts [] c = Inr c"
| "refused_attempts (fd # fds) c = bindR (startInLoop fd ECONNREFUSED c) (refused_attempts fds)"

lemma refused_attempt:
  assumes "cn_state c = CnDisconnected" and "cn_connect c" and "0 \<le> fd"
  obtains c' where "startInLoop fd ECONNREFUSED c = Inr c'" and "cn_state c' = CnDisconnected"
    and "cn_connect c'" and "retry_delays c' = retry_delays c @ [cn_retryDelayMs c]"
    and "cn_retryDelayMs c' = min (cn_retryDelayMs c * 2) kMaxRetryDelayMs"
proof -
  let ?c = "retry fd (cn_effect (SockOpened fd) c)"
  have "startInLoop fd ECONNREFUSED c = Inr ?c"
    using assms by (simp add: startInLoop_def connect_def ECONNREFUSED_def connecting_errors_def
        retry_errors_def Let_def)
  moreover have "cn_state ?c = CnDisconnected" "cn_connect ?c"
    "retry_delays ?c = retry_delays c @ [cn_retryDelayMs c]"
    "cn_retryDelayMs ?c = min (cn_retryDelayMs c * 2) kMaxRetryDelayMs"
    using assms(2) by (simp_all add: retry_def Let_def connector_defs retry_delays_def)
  ultimately show thesis
    using that by blast
qed

definition backoff :: "nat \<Rightarrow> int" where
  "backoff i = min (kInitRetryDelayMs * 2 ^ i) kMaxRetryDelayMs"

lemma backoff_Suc: "min (backoff i * 2) kMaxRetryDelayMs = backoff (Suc i)"
  by (auto simp: backoff_def kMaxRetryDelayMs_def min_def)

lemma refused_attempts_delays:
  assumes "cn_state c = CnDisconnected" and "cn_connect c" and "cn_retryDelayMs c = backoff i"
    and "\<forall>fd \<in> set fds. 0 \<le> fd"
  shows "\<exists>c'. refused_attempts fds c = Inr c' \<and>
    retry_delays c' = retry_delays c @ map backoff [i..<i + length fds]"
  using assms
proof (induction fds arbitrary: c i)
  case (Cons fd fds)
  have "0 \<le> fd"
    using Cons.prems(4) by simp
  with Cons.prems(1,2) obtain c1 where c1: "startInLoop fd ECONNREFUSED c = Inr c1"
      "cn_state c1 = CnDisconnected" "cn_connect c1"
      "retry_delays c1 = retry_delays c @ [backoff i]" "cn_retryDelayMs c1 = backoff (Suc i)"
    using Cons.prems(3) refused_attempt backoff_Suc by metis
  from Cons.IH [OF c1(2,3,5)] Cons.prems(4) obtain c' where
    "refused_attempts fds c1 = Inr c'"
    "retry_delays c' = retry_delays c1 @ map backoff [Suc i..<Suc i + length fds]"
    by auto
  moreover have "[i..<i + length (fd # fds)] = i # [Suc i..<Suc i + length fds]"
    using upt_conv_Cons [of i "i + length (fd # fds)"] by simp
  ultimately show ?case
    using c1(1,4) by simp
qed simp

fun connector_run :: "connector_event list \<Rightarrow> connector \<Rightarrow> connector res" where
  "connector_run [] c = Inr c"
| "connector_run (e # es) c = bindR (connector_step e c) (connector_run es)"

lemma connector_run_reach:
  "connector_reach c \<Longrightarrow> connector_run es c = Inr c' \<Longrightarrow>
     \<forall>e \<in> set es. \<forall>c. connector_event_ok e c \<Longrightarrow> connector_reach c'"
  by (induction es arbitrary: c) (auto simp: res_simps intro: connector_reach.event simp del: connector_step.simps)

subsection \<open>Properties\<close>

text \<open>C20: Whatever starts, stops, restarts, errors and timers do, every socket a connector opened has been
  closed once, or handed over once, or is the one it is waiting for: no descriptor leaks and none
  is closed twice or closed after it was handed over.\<close>

theorem sockets_never_leak:
  assumes "connector_reach c"
  shows "mset (opened c) = mset (closed c) + mset (handed_over c) + mset (in_flight c)"
  using connector_reach_inv [OF assms] by (simp add: connector_inv_def sockets_accounted_def)

theorem sockets_never_leak_witness:
  "\<exists>c. connector_run [StartEv True 3 115, WriteEv 111 False, TaskEv 0 0, TimerEv 4 115, WriteEv 0 False]
         new_connector = Inr c \<and>
     mset (opened c) = mset (closed c) + mset (handed_over c) + mset (in_flight c) \<and>
     opened c = [3, 4] \<and> closed c = [3] \<and> handed_over c = [4]"
proof -
  let ?es = "[StartEv True 3 115, WriteEv 111 False, TaskEv 0 0, TimerEv 4 115, WriteEv 0 False]"
  obtain c where c: "connector_run ?es new_connector = Inr c" "opened c = [3, 4]" "closed c = [3]"
      "handed_over c = [4]"
    by (simp add: new_connector_def start_def startInLoop_def connect_def connecting_def connecting_errors_def
        retry_errors_def Let_def connector_defs handleConnectWrite_def removeAndResetChannel_def channel_remove_def
        retry_def resetChannel_def channel_ops isNoneEvent_def new_channel_def setCallback_def
        opened_def closed_def handed_over_def asserting_def)
  have "connector_reach c"
    by (rule connector_run_reach [OF connector_reach.fresh c(1)]) auto
  from sockets_never_leak [OF this] c show ?thesis by blast
qed

text \<open>The delays of consecutive retries double from half a second up to thirty seconds and stay
  there.\<close>

theorem retry_backoff:
  assumes "cn_state c = CnDisconnected" and "cn_connect c" and "cn_retryDelayMs c = kInitRetryDelayMs"
    and "\<forall>fd \<in> set fds. 0 \<le> fd"
  shows "\<exists>c'. refused_attempts fds c = Inr c' \<and>
    retry_delays c' = retry_delays c @
      map (\<lambda>i. min (kInitRetryDelayMs * 2 ^ i) kMaxRetryDelayMs) [0..<length fds]"
proof -
  have "cn_retryDelayMs c = backoff 0"
    using assms(3) by (simp add: backoff_def kInitRetryDelayMs_def kMaxRetryDelayMs_def)
  from refused_attempts_delays [OF assms(1,2) this assms(4)] show ?thesis
    by (simp add: backoff_def [abs_def])
qed

theorem retry_backoff_witness:
  "\<exists>c'. refused_attempts [3, 3, 3, 3, 3, 3, 3, 3] (new_connector\<lparr>cn_connect := True\<rparr>) = Inr c' \<and>
     retry_delays c' = [500, 1000, 2000, 4000, 8000, 16000, 30000, 30000]"
  using retry_backoff [of "new_connector\<lparr>cn_connect := True\<rparr>" "[3, 3, 3, 3, 3, 3, 3, 3]"]
  by (simp add: new_connector_def retry_delays_def kInitRetryDelayMs_def kMaxRetryDelayMs_def upt_rec)

text \<open>Stopping does not cancel the retry timer: when a connector is stopped and started again before
  the timer of an earlier failure fires, the timer finds it connecting and its assertion fails.\<close>

theorem stale_retry_timer:
  assumes "0 \<le> fd" and "0 \<le> fd'" and "err \<in> set retry_errors" and "err' \<in> set connecting_errors"
  shows "connector_run [StartEv True fd err, StopEv, TaskEv f1 e1, StartEv True fd' err', TimerEv f2 e2]
    new_connector = Inl Assertion"
proof -
  have "err \<notin> set connecting_errors"
    using assms(3) by (auto simp: connecting_errors_def retry_errors_def)
  then show ?thesis
    using assms
    by (simp add: new_connector_def start_def stop_def stopInLoop_def startInLoop_def connect_def connecting_def
        Let_def connector_defs retry_def)
qed

theorem stale_retry_timer_witness:
  "connector_run [StartEv True 3 111, StopEv, TaskEv 0 0, StartEv True 4 115, TimerEv 5 115] new_connector =
     Inl Assertion"
  using stale_retry_timer [of 3 4 111 115 0 0 5 115]
  by (simp add: retry_errors_def connecting_errors_def del: connector_run.simps)

end
