(* ===== verification/Connection_Owner.thy ===== *)
theory Connection_Owner
  imports Tcp_Connection
begin

section \<open>Connections as seen by their owner\<close>

text \<open>
  What \<open>TcpServer\<close> and \<open>TcpClient\<close> rely on: which events happen to a connection besides the calls of its owner, that a
  connection which goes down by itself tells its owner, once, and that construction and establishment succeed.
\<close>

text \<open>
  What the owner does at the beginning and at the end is not among the events of a connection, and
  nothing happens to it before it is established: nobody has it, and its channel is not enabled.
\<close>

fun user_label :: "conn_label \<Rightarrow> bool" where
  "user_label ConnectEstablished \<longleftrightarrow> False"
| "user_label ConnectDestroyed \<longleftrightarrow> False"
| "user_label l \<longleftrightarrow> label_ok l"

subsection \<open>What a step of a connection adds\<close>

text \<open>Only the owner's calls remove the channel, and a connection that goes down by itself tells its
  owner.\<close>

definition tells_owner :: "conn \<Rightarrow> conn \<Rightarrow> bool" where
  "tells_owner c c' \<longleftrightarrow>
     (\<exists>es. c_effects c' = c_effects c @ es \<and> RemoveChannel \<notin> set es \<and>
        (ConnectionCallback False \<in> set es \<longrightarrow> CloseConnCallback \<in> set es))"

lemma tells_owner_same: "c_effects c' = c_effects c \<Longrightarrow> tells_owner c c'"
  by (simp add: tells_owner_def)

lemma tells_owner_from: "tells_owner c c' \<Longrightarrow> c_effects c0 = c_effects c \<Longrightarrow> tells_owner c0 c'"
  by (simp add: tells_owner_def)

lemma sendInLoop_tells:
  assumes "sendInLoop write data c = Inr c'"
  shows "tells_owner c c'"
proof -
  have "\<exists>es. c_effects (after_direct_write write data c) = c_effects c @ es \<and> RemoveChannel \<notin> set es \<and>
      ConnectionCallback False \<notin> set es"
    by (auto simp: after_direct_write_def conn_parts Let_def split: sum.splits)
  then obtain es where es: "c_effects (after_direct_write write data c) = c_effects c @ es"
      "RemoveChannel \<notin> set es" "ConnectionCallback False \<notin> set es"
    by blast
  have "c_effects c' \<in> (\<lambda>xs. c_effects (after_direct_write write data c) @ xs) ` {[], [UpdateChannel (ch_events (enableWriting (c_channel c)))]} \<or> c' = c"
    using assms by (auto simp: sendInLoop_def Let_def conn_parts res_simps split: if_splits)
  with es show ?thesis
    by (auto simp: tells_owner_def)
qed

lemma shutdownInLoop_tells: "tells_owner c (shutdownInLoop c)"
  by (auto simp: tells_owner_def shutdownInLoop_def conn_parts)

lemma handleClose_tells: "handleClose c = Inr c' \<Longrightarrow> tells_owner c c'"
  by (auto simp: tells_owner_def handleClose_def conn_parts Let_def res_simps)

lemma handleWrite_tells: "handleWrite write c = Inr c' \<Longrightarrow> tells_owner c c'"
  by (auto simp: tells_owner_def handleWrite_def shutdownInLoop_def conn_parts Let_def
      res_simps split: if_splits sum.splits)

lemma handleRead_tells:
  assumes "handleRead readv c = Inr c'"
  shows "tells_owner c c'"
proof -
  obtain n e input where "readFd readv (c_inputBuffer c) = Inr (n, e, input)"
    using assms by (auto simp: handleRead_def res_simps)
  with assms handleClose_tells [of "c\<lparr>c_inputBuffer := input\<rparr>" c'] show ?thesis
    by (auto simp: handleRead_def Let_def handleError_def conn_parts tells_owner_def split: if_splits)
qed

lemma run_task_tells:
  assumes "run_task write t c = Inr c'"
  shows "tells_owner c c'"
proof (cases t)
  case (SendTask s)
  with assms sendInLoop_tells show ?thesis by simp
next
  case ShutdownTask
  with assms shutdownInLoop_tells show ?thesis by auto
next
  case ForceCloseTask
  with assms handleClose_tells show ?thesis
    by (auto simp: forceCloseInLoop_def tells_owner_same split: if_splits)
qed (use assms in \<open>auto simp: startReadInLoop_def stopReadInLoop_def conn_parts tells_owner_def
      split: if_splits\<close>)

lemma conn_step_tells:
  assumes "conn_step l c = Inr c'" and "user_label l"
  shows "tells_owner c c'"
proof (cases l)
  case (Send inLoop w message)
  with assms sendInLoop_tells show ?thesis
    by (auto simp: send_def res_simps conn_parts tells_owner_same split: if_splits)
next
  case (SendBuffer inLoop w buf)
  with assms sendInLoop_tells show ?thesis
    by (auto simp: send_buffer_def res_simps conn_parts tells_owner_same split: if_splits)
next
  case (Shutdown inLoop)
  with assms(1) shutdownInLoop_tells [of "setState kDisconnecting c"] show ?thesis
    by (auto simp: shutdown_def conn_parts tells_owner_def Let_def split: if_splits)
next
  case (Callback cb readv w)
  with assms(1) show ?thesis
    using handleRead_tells handleWrite_tells handleClose_tells
    by (cases cb) (auto simp: handleError_def tells_owner_same)
next
  case (RunTask w)
  with assms(1) show ?thesis
    using tells_owner_from [OF run_task_tells]
    by (cases "c_tasks c") (auto simp: tells_owner_same)
qed (use assms in \<open>auto simp: forceClose_def forceCloseWithDelay_def startRead_def stopRead_def
      startReadInLoop_def stopReadInLoop_def setWriteCompleteCallback_def setHighWaterMarkCallback_def
      res_simps conn_parts tells_owner_def split: if_splits\<close>)

subsection \<open>The owner's calls\<close>

lemma new_conn_returns: "\<exists>c. new_conn sockfd = Inr c"
proof -
  have "kCheapPrepend + kInitialSize \<le> max_size"
    by (simp add: kCheapPrepend_def kInitialSize_def max_size_def)
  then obtain b where "new_buffer kInitialSize = Inr b"
    using new_buffer_ok by blast
  then show ?thesis
    by (simp add: new_conn_def)
qed

lemma new_conn_state: "new_conn sockfd = Inr c \<Longrightarrow> c_state c = kConnecting \<and> c_effects c = []"
  by (auto simp: new_conn_def res_simps)

lemma connectEstablished_ok:
  assumes "conn_inv c acc" and "c_state c = kConnecting"
  obtains c' where "connectEstablished c = Inr c'" and "conn_inv c' acc" and "c_state c' = kConnected"
    and "count_list (c_effects c') RemoveChannel = count_list (c_effects c) RemoveChannel"
proof -
  obtain c' where c': "connectEstablished c = Inr c'" "c_state c' = kConnected"
      "count_list (c_effects c') RemoveChannel = count_list (c_effects c) RemoveChannel"
    using assms(2) by (auto simp: connectEstablished_def Let_def conn_parts)
  moreover have "conn_inv c' acc"
    using conn_step_inv [OF assms(1), of ConnectEstablished c'] c'(1) by simp
  ultimately show thesis using that by blast
qed

subsection \<open>When the close callback is made\<close>

lemma conn_inv_fit: "conn_inv c acc \<Longrightarrow> callbacks_fit (c_state c) (filter owner_callback (c_effects c))"
  by (simp add: conn_inv_def)

text \<open>The state after a step says whether the close callback was made.\<close>

lemma fit_step:
  assumes "callbacks_fit a xs" and "callbacks_fit b (xs @ ys)" and "a \<noteq> kConnecting"
    and "ConnectionCallback False \<in> set ys \<longrightarrow> CloseConnCallback \<in> set ys"
    and "a = kDisconnected \<longrightarrow> CloseConnCallback \<in> set xs"
  shows "if CloseConnCallback \<in> set ys then a \<noteq> kDisconnected \<and> b = kDisconnected
         else if a = kDisconnected then b = kDisconnected else b = kConnected \<or> b = kDisconnecting"
  using assms by (cases a; cases b) (auto simp: callbacks_fit_def)

lemma step_closes:
  assumes c: "conn_inv c acc" "c_state c \<noteq> kConnecting" and c': "conn_inv c' acc'"
    and es: "c_effects c' = c_effects c @ es" "ConnectionCallback False \<in> set es \<longrightarrow> CloseConnCallback \<in> set es"
    and closed: "c_state c = kDisconnected \<longrightarrow> CloseConnCallback \<in> set (c_effects c)"
  shows "if CloseConnCallback \<in> set es then c_state c \<noteq> kDisconnected \<and> c_state c' = kDisconnected
         else if c_state c = kDisconnected then c_state c' = kDisconnected
         else c_state c' = kConnected \<or> c_state c' = kDisconnecting"
proof -
  let ?f = "filter owner_callback"
  have "callbacks_fit (c_state c') (?f (c_effects c) @ ?f es)"
    using conn_inv_fit [OF c'] es(1) by simp
  from fit_step [OF conn_inv_fit [OF c(1)] this c(2)] es(2) closed show ?thesis
    by simp
qed

end
