(* ===== verification/Loop_Thread_Pool.thy ===== *)
theory Loop_Thread_Pool
  imports Decimal
begin

section \<open>Loop threads: \<open>src/src/muduo/net/EventLoopThreadPool.cc\<close> and \<open>EventLoopThread.cc\<close>\<close>

text \<open>
  The pool starts one thread with a loop of its own per requested thread, and hands the loops out in
  turn.  A loop is a number, the base loop is \<open>0\<close>.  A loop thread is the handshake between
  \<open>startLoop\<close>, which waits until the new thread has published its loop, and \<open>threadFunc\<close>; the mutex
  and the condition are the atomicity of the steps.
\<close>

subsection \<open>The pool\<close>

record loop_pool =
  lp_started :: bool
  lp_numThreads :: nat
  lp_next :: nat
  lp_loops :: "nat list"
  lp_names :: "string list"     \<comment> \<open>names of the threads\<close>
  lp_inits :: "nat list"        \<comment> \<open>loops the initialisation callback was called with\<close>

definition new_loop_pool :: loop_pool where
  "new_loop_pool = \<lparr>lp_started = False, lp_numThreads = 0, lp_next = 0, lp_loops = [], lp_names = [],
     lp_inits = []\<rparr>"

definition setThreadNum :: "nat \<Rightarrow> loop_pool \<Rightarrow> loop_pool" where
  "setThreadNum numThreads p = p\<lparr>lp_numThreads := numThreads\<rparr>"

text \<open>The loop of \<open>start\<close>; the new thread calls the callback with its loop before publishing it.\<close>

fun start_threads :: "bool \<Rightarrow> string \<Rightarrow> nat \<Rightarrow> nat \<Rightarrow> loop_pool \<Rightarrow> loop_pool" where
  "start_threads cb name i 0 p = p"
| "start_threads cb name i (Suc n) p =
     start_threads cb name (Suc i) n
       (p\<lparr>lp_names := lp_names p @ [name @ dec_nat i], lp_loops := lp_loops p @ [Suc i],
          lp_inits := lp_inits p @ (if cb then [Suc i] else [])\<rparr>)"

definition pool_start :: "bool \<Rightarrow> string \<Rightarrow> loop_pool \<Rightarrow> loop_pool res" where
  "pool_start cb name p =
     asserting (\<not> lp_started p)
       (let p1 = start_threads cb name 0 (lp_numThreads p) (p\<lparr>lp_started := True\<rparr>) in
        Inr (if lp_numThreads p1 = 0 \<and> cb then p1\<lparr>lp_inits := lp_inits p1 @ [0]\<rparr> else p1))"

definition getNextLoop :: "loop_pool \<Rightarrow> (nat \<times> loop_pool) res" where
  "getNextLoop p =
     asserting (lp_started p)
       (if lp_loops p \<noteq> [] then
          if lp_next p < length (lp_loops p) then
            let loop = lp_loops p ! lp_next p;
                p1 = p\<lparr>lp_next := lp_next p + 1\<rparr> in
            Inr (loop, if length (lp_loops p1) \<le> lp_next p1 then p1\<lparr>lp_next := 0\<rparr> else p1)
          else Inl Undefined
        else Inr (0, p))"

definition getLoopForHash :: "nat \<Rightarrow> loop_pool \<Rightarrow> nat" where
  "getLoopForHash hashCode p =
     (if lp_loops p \<noteq> [] then lp_loops p ! (hashCode mod length (lp_loops p)) else 0)"

definition getAllLoops :: "loop_pool \<Rightarrow> nat list res" where
  "getAllLoops p = asserting (lp_started p) (Inr (if lp_loops p = [] then [0] else lp_loops p))"

text \<open>The pool after it was started: the next index is in range.\<close>

definition pool_ok :: "loop_pool \<Rightarrow> bool" where
  "pool_ok p \<longleftrightarrow> lp_started p \<and> (lp_loops p \<noteq> [] \<longrightarrow> lp_next p < length (lp_loops p))"

lemma start_threads_eq:
  "lp_loops (start_threads cb name i n p) = lp_loops p @ map Suc [i..<i + n]"
  "lp_next (start_threads cb name i n p) = lp_next p"
  "lp_started (start_threads cb name i n p) = lp_started p"
  "lp_numThreads (start_threads cb name i n p) = lp_numThreads p"
  by (induction n arbitrary: i p) (auto simp: upt_conv_Cons simp del: upt_Suc)

lemma pool_start_ok:
  assumes "pool_start cb name (setThreadNum n new_loop_pool) = Inr p"
  shows "pool_ok p" and "lp_loops p = map Suc [0..<n]" and "lp_next p = 0"
  using assms
  by (auto simp: pool_start_def setThreadNum_def new_loop_pool_def Let_def pool_ok_def start_threads_eq
      split: if_splits)

lemma getNextLoop_ok:
  assumes "pool_ok p"
  obtains loop p' where "getNextLoop p = Inr (loop, p')" and "pool_ok p'" and "lp_loops p' = lp_loops p"
    and "loop = (if lp_loops p = [] then 0 else lp_loops p ! lp_next p)"
    and "lp_loops p \<noteq> [] \<Longrightarrow> lp_next p' = Suc (lp_next p) mod length (lp_loops p)"
proof (cases "lp_loops p = []")
  case True
  with that assms show thesis by (simp add: getNextLoop_def pool_ok_def)
next
  case False
  let ?n = "length (lp_loops p)"
  let ?p = "p\<lparr>lp_next := Suc (lp_next p) mod ?n\<rparr>"
  have next_less: "lp_next p < ?n" and started: "lp_started p"
    using assms False by (simp_all add: pool_ok_def)
  have "getNextLoop p = Inr (lp_loops p ! lp_next p, ?p)"
    using False next_less started
    by (cases "Suc (lp_next p) = ?n") (simp_all add: getNextLoop_def Let_def)
  moreover have "pool_ok ?p"
    using False started by (simp add: pool_ok_def)
  ultimately show thesis
    using that [of "lp_loops p ! lp_next p" ?p] False by simp
qed

fun next_loops :: "nat \<Rightarrow> loop_pool \<Rightarrow> nat list res" where
  "next_loops 0 p = Inr []"
| "next_loops (Suc n) p =
     bindR (getNextLoop p) (\<lambda>(loop, p). bindR (next_loops n p) (\<lambda>loops. Inr (loop # loops)))"

lemma next_loops_ok:
  assumes "pool_ok p"
  shows "next_loops n p = Inr (map (\<lambda>i. if lp_loops p = [] then 0
      else lp_loops p ! ((lp_next p + i) mod length (lp_loops p))) [0..<n])"
  using assms
proof (induction n arbitrary: p)
  case (Suc n)
  obtain loop p' where p': "getNextLoop p = Inr (loop, p')" "pool_ok p'" "lp_loops p' = lp_loops p"
    "loop = (if lp_loops p = [] then 0 else lp_loops p ! lp_next p)"
    "lp_loops p \<noteq> [] \<Longrightarrow> lp_next p' = Suc (lp_next p) mod length (lp_loops p)"
    using getNextLoop_ok [OF Suc.prems] by metis
  have "(lp_next p' + i) mod length (lp_loops p) = (lp_next p + Suc i) mod length (lp_loops p)"
    if "lp_loops p \<noteq> []" for i
    using p'(5) [OF that] by (simp add: mod_add_left_eq)
  moreover have "lp_loops p \<noteq> [] \<Longrightarrow> lp_next p mod length (lp_loops p) = lp_next p"
    using Suc.prems by (simp add: pool_ok_def)
  ultimately show ?case
    using p'(1,3,4) Suc.IH [OF p'(2)]
    by (auto simp: map_upt_Suc simp del: upt_Suc)
qed simp

text \<open>A started pool hands its loops out in turn: the \<open>i\<close>-th request gets the loop of thread \<open>i mod n\<close>, and
  the base loop when there are no threads.\<close>

theorem round_robin:
  assumes "pool_start cb name (setThreadNum n new_loop_pool) = Inr p"
  shows "next_loops k p = Inr (map (\<lambda>i. if n = 0 then 0 else Suc (i mod n)) [0..<k])"
  using next_loops_ok [OF pool_start_ok(1) [OF assms], of k] pool_start_ok(2,3) [OF assms]
  by (cases "n = 0") (simp_all del: upt_Suc)

theorem round_robin_witness:
  "\<exists>p. pool_start True ''io'' (setThreadNum 3 new_loop_pool) = Inr p \<and> lp_names p = [''io0'', ''io1'', ''io2''] \<and>
     next_loops 5 p = Inr [1, 2, 3, 1, 2]"
proof -
  have "case pool_start True ''io'' (setThreadNum 3 new_loop_pool) of
      Inl e \<Rightarrow> False | Inr p \<Rightarrow> lp_names p = [''io0'', ''io1'', ''io2'']"
    by code_simp
  then have "\<exists>p. pool_start True ''io'' (setThreadNum 3 new_loop_pool) = Inr p \<and>
      lp_names p = [''io0'', ''io1'', ''io2'']"
    by (simp split: sum.splits)
  then show ?thesis
    using round_robin [of True "''io''" 3 _ 5] by (force simp: upt_rec)
qed

subsection \<open>The handshake of a loop thread\<close>

datatype starter_pc = StartNotCalled | Waiting | StartReturned nat | Joining | Destroyed

datatype func_pc = NotStarted | Constructing | Publishing | Entering | Looping | Leaving | Finished

record loop_thread =
  lt_loop :: "nat option"       \<comment> \<open>\<open>loop_\<close>\<close>
  lt_exiting :: bool
  lt_starter :: starter_pc
  lt_func :: func_pc
  lt_quit :: bool               \<comment> \<open>\<open>quit_\<close> of the thread's loop\<close>
  lt_inits :: nat               \<comment> \<open>calls of the initialisation callback\<close>


text \<open>\<open>~EventLoopThread\<close> up to the \<open>join\<close>, called after \<open>startLoop\<close> returned.\<close>

definition destroy_loop_thread :: "loop_thread \<Rightarrow> loop_thread" where
  "destroy_loop_thread t =
     (let t1 = t\<lparr>lt_exiting := True\<rparr> in
      if lt_loop t1 \<noteq> None then t1\<lparr>lt_quit := True, lt_starter := Joining\<rparr>
      else t1\<lparr>lt_starter := Destroyed\<rparr>)"

text \<open>
  The steps of the thread that calls \<open>startLoop\<close> and later the destructor, and of the thread that
  runs \<open>threadFunc\<close>, up to \<open>EventLoop::loop\<close>, which starts by resetting \<open>quit_\<close>, and after it.  \<open>loop\<close> is the
  address of the new thread's loop, \<open>cb\<close> whether there is a callback.  Nobody else quits the loop.
\<close>

inductive thread_step :: "nat \<Rightarrow> bool \<Rightarrow> loop_thread \<Rightarrow> loop_thread \<Rightarrow> bool" for loop cb where
  startLoop: "lt_starter t = StartNotCalled \<Longrightarrow>
     thread_step loop cb t (t\<lparr>lt_starter := Waiting, lt_func := Constructing\<rparr>)"
| startLoop_wakes: "lt_starter t = Waiting \<Longrightarrow> lt_loop t = Some l \<Longrightarrow>
     thread_step loop cb t (t\<lparr>lt_starter := StartReturned l\<rparr>)"
| callback: "lt_func t = Constructing \<Longrightarrow>
     thread_step loop cb t (t\<lparr>lt_func := Publishing, lt_inits := lt_inits t + (if cb then 1 else 0)\<rparr>)"
| publish: "lt_func t = Publishing \<Longrightarrow>
     thread_step loop cb t (t\<lparr>lt_loop := Some loop, lt_func := Entering\<rparr>)"
| enter_loop: "lt_func t = Entering \<Longrightarrow> thread_step loop cb t (t\<lparr>lt_quit := False, lt_func := Looping\<rparr>)"
| loop_returns: "lt_func t = Looping \<Longrightarrow> lt_quit t \<Longrightarrow> thread_step loop cb t (t\<lparr>lt_func := Leaving\<rparr>)"
| unpublish: "lt_func t = Leaving \<Longrightarrow> thread_step loop cb t (t\<lparr>lt_loop := None, lt_func := Finished\<rparr>)"
| destroy: "lt_starter t = StartReturned l \<Longrightarrow> thread_step loop cb t (destroy_loop_thread t)"
| joined: "lt_starter t = Joining \<Longrightarrow> lt_func t = Finished \<Longrightarrow>
     thread_step loop cb t (t\<lparr>lt_starter := Destroyed\<rparr>)"






text \<open>A destructor that finds the thread in its loop gets it out again.\<close>

lemma destroyed_from_loop:
  assumes "lt_func t = Looping" and "lt_starter t = StartReturned loop" and "lt_loop t = Some loop"
  shows "\<exists>t'. (thread_step loop cb)\<^sup>*\<^sup>* t t' \<and> lt_starter t' = Destroyed \<and> lt_func t' = Finished"
proof -
  let ?t1 = "t\<lparr>lt_exiting := True, lt_quit := True, lt_starter := Joining\<rparr>"
  let ?t2 = "?t1\<lparr>lt_func := Leaving\<rparr>"
  let ?t3 = "?t2\<lparr>lt_loop := None, lt_func := Finished\<rparr>"
  have "thread_step loop cb t ?t1"
    using thread_step.destroy [OF assms(2), of loop cb] assms(3) by (simp add: destroy_loop_thread_def)
  moreover have "thread_step loop cb ?t1 ?t2"
    using assms(1) by (intro thread_step.loop_returns) simp_all
  moreover have "thread_step loop cb ?t2 ?t3"
    by (intro thread_step.unpublish) simp
  moreover have "thread_step loop cb ?t3 (?t3\<lparr>lt_starter := Destroyed\<rparr>)"
    by (intro thread_step.joined) simp_all
  ultimately have "(thread_step loop cb)\<^sup>*\<^sup>* t (?t3\<lparr>lt_starter := Destroyed\<rparr>)"
    by (meson converse_rtranclp_into_rtranclp rtranclp.rtrancl_refl)
  then show ?thesis
    by (intro exI [of _ "?t3\<lparr>lt_starter := Destroyed\<rparr>"]) simp
qed




end
