(* ===== verification/Acceptor.thy ===== *)
theory Acceptor
  imports Channel
begin

section \<open>Accepting connections: \<open>src/src/muduo/net/Acceptor.cc\<close>\<close>

text \<open>
  The acceptor owns the listening socket with its channel and a spare descriptor, which it gives up
  for a moment when the process has run out of descriptors, so that it can accept and close a
  connection it cannot serve.  The system calls are parameters; the descriptors the process holds
  because of the acceptor are \<open>ac_open\<close>, and \<open>ac_delivered\<close> are the ones given to the callback.
\<close>

record acceptor =
  ac_channel :: channel
  ac_listenning :: bool
  ac_idleFd :: int
  ac_hasCallback :: bool
  ac_open :: "int list"
  ac_delivered :: "int list"

definition EMFILE :: int where
  "EMFILE = 24"

text \<open>The constructor, with what \<open>socket\<close> and \<open>open\<close> return.\<close>

definition new_acceptor :: "int \<Rightarrow> int \<Rightarrow> acceptor res" where
  "new_acceptor sockfd idleFd =
     (if sockfd < 0 then Inl Fatal
      else asserting (0 \<le> idleFd)
        (Inr \<lparr>ac_channel = setCallback ReadCallback (new_channel sockfd), ac_listenning = False,
              ac_idleFd = idleFd, ac_hasCallback = False, ac_open = [idleFd], ac_delivered = []\<rparr>))"

definition setNewConnectionCallback :: "acceptor \<Rightarrow> acceptor" where
  "setNewConnectionCallback a = a\<lparr>ac_hasCallback := True\<rparr>"

definition destroy_acceptor :: "acceptor \<Rightarrow> acceptor res" where
  "destroy_acceptor a =
     bindR (channel_remove (disableAll (ac_channel a))) (\<lambda>ch.
       Inr (a\<lparr>ac_channel := ch, ac_open := remove1 (ac_idleFd a) (ac_open a)\<rparr>))"

definition listen :: "acceptor \<Rightarrow> acceptor" where
  "listen a = a\<lparr>ac_listenning := True, ac_channel := enableReading (ac_channel a)\<rparr>"

text \<open>\<open>close\<close>, and what a call that returns a descriptor adds to those that are open.\<close>

definition ac_close :: "int \<Rightarrow> acceptor \<Rightarrow> acceptor" where
  "ac_close fd a = a\<lparr>ac_open := remove1 fd (ac_open a)\<rparr>"

definition ac_opened :: "int \<Rightarrow> acceptor \<Rightarrow> acceptor" where
  "ac_opened fd a = (if 0 \<le> fd then a\<lparr>ac_open := fd # ac_open a\<rparr> else a)"

text \<open>
  \<open>handleRead\<close>: \<open>accepted\<close> is what \<open>accept\<close> returns, a descriptor or the error; \<open>again\<close> and \<open>reopened\<close>
  are what the second \<open>accept\<close> and \<open>open\<close> return when there are no descriptors left.
\<close>

definition acceptor_handleRead :: "int + int \<Rightarrow> int \<Rightarrow> int \<Rightarrow> acceptor \<Rightarrow> acceptor" where
  "acceptor_handleRead accepted again reopened a =
     (case accepted of
        Inr connfd \<Rightarrow>
          let a1 = ac_opened connfd a in
          if ac_hasCallback a1
          then a1\<lparr>ac_delivered := ac_delivered a1 @ [connfd], ac_open := remove1 connfd (ac_open a1)\<rparr>
          else ac_close connfd a1
      | Inl err \<Rightarrow>
          if err = EMFILE then
            let a1 = ac_close (ac_idleFd a) a;
                a2 = (ac_opened again a1)\<lparr>ac_idleFd := again\<rparr>;
                a3 = ac_close (ac_idleFd a2) a2 in
            (ac_opened reopened a3)\<lparr>ac_idleFd := reopened\<rparr>
          else a)"

text \<open>
  Between events the acceptor holds one spare descriptor: it closes every connection it does not
  deliver, and takes the spare one back after an overload.
\<close>

definition acceptor_ok :: "acceptor \<Rightarrow> bool" where
  "acceptor_ok a \<longleftrightarrow> ac_open a = [ac_idleFd a] \<and> 0 \<le> ac_idleFd a"

lemma new_acceptor_ok: "new_acceptor sockfd idleFd = Inr a \<Longrightarrow> acceptor_ok a"
  by (auto simp: new_acceptor_def acceptor_ok_def res_simps split: if_splits)

lemma acceptor_handleRead_ok:
  assumes "acceptor_ok a" and "\<And>fd. accepted = Inr fd \<Longrightarrow> 0 \<le> fd"
    and "accepted = Inl EMFILE \<Longrightarrow> 0 \<le> reopened"
  shows "acceptor_ok (acceptor_handleRead accepted again reopened a)"
  using assms
  by (cases accepted)
    (auto simp: acceptor_ok_def acceptor_handleRead_def ac_close_def ac_opened_def Let_def)

end
