(* ===== verification/Tcp_Server.thy ===== *)
theory Tcp_Server
  imports Connection_Owner Loop_Thread_Pool Acceptor
begin

section \<open>The server: \<open>src/src/muduo/net/TcpServer.cc\<close>\<close>

text \<open>
  A \<open>TcpServer\<close> accepts connections in its own loop, which is loop \<open>0\<close>, hands each to a loop of its
  pool, and keeps them in a map by name until they are closed.  The connections are objects of the
  heap \<open>ts_heap\<close>, each with the state \<open>conn\<close> of \<open>Tcp_Connection\<close>; what the server binds and gives to
  a loop is in the functor queue of that loop, \<open>ts_queues\<close>.  Everything that happens to a connection
  itself is a step of its own transition system; the server takes part when the connection calls
  \<open>closeCallback_\<close>.
\<close>

datatype server_task =
    EstablishTask nat    \<comment> \<open>\<open>bind(&TcpConnection::connectEstablished, conn)\<close>\<close>
  | DestroyTask nat      \<comment> \<open>\<open>bind(&TcpConnection::connectDestroyed, conn)\<close>\<close>
  | RemoveTask nat       \<comment> \<open>\<open>bind(&TcpServer::removeConnectionInLoop, this, conn)\<close>\<close>

record server_conn =
  sc_conn :: conn
  sc_loop :: nat
  sc_name :: string

record tcp_server =
  ts_name :: string
  ts_ipPort :: string
  ts_started :: bool
  ts_pool :: loop_pool
  ts_acceptor :: acceptor
  ts_nextConnId :: nat
  ts_connections :: "string \<rightharpoonup> nat"
  ts_heap :: "nat \<rightharpoonup> server_conn"
  ts_next :: nat
  ts_queues :: "nat \<Rightarrow> server_task list"

subsection \<open>Construction and start\<close>




subsection \<open>Connections\<close>

definition ts_queue :: "nat \<Rightarrow> server_task \<Rightarrow> tcp_server \<Rightarrow> tcp_server" where
  "ts_queue loop t s = s\<lparr>ts_queues := (ts_queues s)(loop := ts_queues s loop @ [t])\<rparr>"

text \<open>An operation on the connection \<open>p\<close>.\<close>

definition on_server_conn :: "(conn \<Rightarrow> conn res) \<Rightarrow> nat \<Rightarrow> tcp_server \<Rightarrow> tcp_server res" where
  "on_server_conn f p s =
     (case ts_heap s p of
        None \<Rightarrow> Inl Undefined
      | Some sc \<Rightarrow>
          bindR (f (sc_conn sc)) (\<lambda>c. Inr (s\<lparr>ts_heap := (ts_heap s)(p \<mapsto> sc\<lparr>sc_conn := c\<rparr>)\<rparr>)))"

text \<open>\<open>snprintf\<close> into \<open>char buf[64]\<close>; \<open>nextConnId_\<close> is an \<open>int\<close>.\<close>

definition connName :: "tcp_server \<Rightarrow> nat \<Rightarrow> string" where
  "connName s connId = ts_name s @ take 63 (''-'' @ ts_ipPort s @ ''#'' @ dec_nat connId)"





text \<open>The destructor: connections of the server's loop are destroyed at once.\<close>

fun destroy_connections :: "nat list \<Rightarrow> tcp_server \<Rightarrow> tcp_server res" where
  "destroy_connections [] s = Inr s"
| "destroy_connections (p # ps) s =
     (case ts_heap s p of
        None \<Rightarrow> Inl Undefined
      | Some sc \<Rightarrow>
          bindR (if sc_loop sc = 0 then on_server_conn connectDestroyed p s
                 else Inr (ts_queue (sc_loop sc) (DestroyTask p) s))
            (destroy_connections ps))"

subsection \<open>The loops\<close>






subsection \<open>The invariant\<close>


text \<open>Where a task of a connection may be queued.\<close>

fun task_home :: "tcp_server \<Rightarrow> nat \<Rightarrow> server_task \<Rightarrow> bool" where
  "task_home s l (EstablishTask p) \<longleftrightarrow> (\<exists>sc. ts_heap s p = Some sc \<and> sc_loop sc = l)"
| "task_home s l (DestroyTask p) \<longleftrightarrow> (\<exists>sc. ts_heap s p = Some sc \<and> sc_loop sc = l)"
| "task_home s l (RemoveTask p) \<longleftrightarrow> l = 0 \<and> (\<exists>sc. ts_heap s p = Some sc \<and> sc_loop sc \<noteq> 0)"

text \<open>
  How far a connection is: the numbers of its queued tasks of each kind, how often its channel was
  removed, and whether the server has it in its map.
\<close>

definition progress :: "tcp_server \<Rightarrow> nat \<Rightarrow> server_conn \<Rightarrow> nat \<times> nat \<times> nat \<times> nat \<times> bool" where
  "progress s p sc =
     (count_list (ts_queues s (sc_loop sc)) (EstablishTask p),
      count_list (ts_queues s 0) (RemoveTask p),
      count_list (ts_queues s (sc_loop sc)) (DestroyTask p),
      count_list (c_effects (sc_conn sc)) RemoveChannel,
      ts_connections s (sc_name sc) = Some p)"

definition entry_ok :: "tcp_server \<Rightarrow> nat \<Rightarrow> server_conn \<Rightarrow> bool" where
  "entry_ok s p sc \<longleftrightarrow> (\<exists>acc. conn_inv (sc_conn sc) acc) \<and>
     (case c_state (sc_conn sc) of
        kConnecting \<Rightarrow> progress s p sc = (1, 0, 0, 0, True)
      | kConnected \<Rightarrow> progress s p sc = (0, 0, 0, 0, True)
      | kDisconnecting \<Rightarrow> progress s p sc = (0, 0, 0, 0, True)
      | kDisconnected \<Rightarrow> CloseConnCallback \<in> set (c_effects (sc_conn sc)) \<and>
          progress s p sc \<in> {(0, 1, 0, 0, True), (0, 0, 1, 0, False), (0, 0, 0, 1, False)})"

definition server_inv :: "tcp_server \<Rightarrow> bool" where
  "server_inv s \<longleftrightarrow>
     (\<forall>p sc. ts_heap s p = Some sc \<longrightarrow> entry_ok s p sc \<and> p < ts_next s \<and>
        (\<exists>i < ts_nextConnId s. sc_name sc = connName s i)) \<and>
     (\<forall>p p' sc sc'. ts_heap s p = Some sc \<longrightarrow> ts_heap s p' = Some sc' \<longrightarrow> sc_name sc = sc_name sc' \<longrightarrow> p = p') \<and>
     (\<forall>n p. ts_connections s n = Some p \<longrightarrow> (\<exists>sc. ts_heap s p = Some sc \<and> sc_name sc = n)) \<and>
     (\<forall>l. \<forall>t \<in> set (ts_queues s l). task_home s l t) \<and>
     length (ts_ipPort s) \<le> 51 \<and> ts_nextConnId s < 2 ^ 31 \<and> pool_ok (ts_pool s)"



subsection \<open>The tasks of the loops\<close>






subsection \<open>Events of a connection\<close>



subsection \<open>New connections\<close>


text \<open>The new connection before anything is done with it: its name is new and no task mentions it.\<close>








lemma server_inv_acceptor [simp]: "server_inv (s\<lparr>ts_acceptor := a\<rparr>) = server_inv s"
proof -
  have "task_home (s\<lparr>ts_acceptor := a\<rparr>) l t = task_home s l t" for l t
    by (cases t) simp_all
  moreover have "progress (s\<lparr>ts_acceptor := a\<rparr>) = progress s"
    by (intro ext) (simp add: progress_def)
  ultimately show ?thesis
    by (simp add: server_inv_def entry_ok_def connName_def cong: conn_state.case_cong)
qed







subsection \<open>Properties\<close>





end
