(* ===== verification/Calendar.thy ===== *)
theory Calendar
  imports Decimal
begin

section \<open>Dates and UTC time\<close>

text \<open>
  The model of \<open>Date\<close> (\<open>src/src/muduo/base/Date.h\<close>, \<open>Date.cc\<close>), \<open>Timestamp\<close> (\<open>Timestamp.h\<close>,
  \<open>Timestamp.cc\<close>) and of the UTC half of \<open>TimeZone\<close> (\<open>TimeZone.cc\<close>).  The arithmetic is that of a
  32-bit \<open>int\<close>, in which an overflow is undefined: each function lists its intermediate values, and
  is \<open>Undefined\<close> unless all of them are in range.  Division truncates.

  The reference is the Gregorian calendar, one day after the other.
\<close>

subsection \<open>Machine arithmetic\<close>

definition in_int32 :: "int \<Rightarrow> bool" where
  "in_int32 i \<longleftrightarrow> - (2 ^ 31) \<le> i \<and> i < 2 ^ 31"

definition int_arith :: "int list \<Rightarrow> 'a \<Rightarrow> 'a res" where
  "int_arith steps r = (if list_all in_int32 steps then Inr r else Inl Undefined)"

text \<open>\<open>static_cast<int>\<close> of a 64-bit value.\<close>

definition int_cast :: "int \<Rightarrow> int" where
  "int_cast i = signed_take_bit 31 i"

subsection \<open>\<open>Date\<close>\<close>

record year_month_day =
  ymd_year :: int
  ymd_month :: int
  ymd_day :: int

definition getJulianDayNumber :: "int \<Rightarrow> int \<Rightarrow> int \<Rightarrow> int res" where
  "getJulianDayNumber year month day =
     (let a = (14 - month) sdiv 12;
          y = year + 4800 - a;
          m = month + 12 * a - 3;
          t1 = day + (153 * m + 2) sdiv 5;
          t2 = t1 + y * 365;
          t3 = t2 + y sdiv 4;
          t4 = t3 - y sdiv 100;
          t5 = t4 + y sdiv 400
      in int_arith [14 - month, year + 4800, y, 12 * a, month + 12 * a, m, 153 * m, 153 * m + 2,
           t1, y * 365, t2, t3, t4, t5, t5 - 32045] (t5 - 32045))"

definition getYearMonthDay :: "int \<Rightarrow> year_month_day res" where
  "getYearMonthDay julianDayNumber =
     (let a = julianDayNumber + 32044;
          b = (4 * a + 3) sdiv 146097;
          c = a - (b * 146097) sdiv 4;
          d = (4 * c + 3) sdiv 1461;
          e = c - (1461 * d) sdiv 4;
          m = (5 * e + 2) sdiv 153;
          day = e - (153 * m + 2) sdiv 5 + 1;
          month = m + 3 - 12 * (m sdiv 10);
          year = b * 100 + d - 4800 + m sdiv 10
      in int_arith [a, 4 * a, 4 * a + 3, b * 146097, c, 4 * c, 4 * c + 3, 1461 * d, e, 5 * e,
           5 * e + 2, 153 * m, 153 * m + 2, e - (153 * m + 2) sdiv 5, day, m + 3,
           12 * (m sdiv 10), month, b * 100, b * 100 + d, b * 100 + d - 4800, year]
         \<lparr>ymd_year = year, ymd_month = month, ymd_day = day\<rparr>)"

definition kJulianDayOf1970_01_01 :: "int res" where
  "kJulianDayOf1970_01_01 = getJulianDayNumber 1970 1 1"

text \<open>\<open>Date(const struct tm&)\<close>.\<close>

record tm =
  tm_sec :: int
  tm_min :: int
  tm_hour :: int
  tm_mday :: int
  tm_mon :: int
  tm_year :: int
  tm_wday :: int
  tm_yday :: int
  tm_isdst :: int
  tm_gmtoff :: int
  tm_zone :: string

definition date_of_tm :: "tm \<Rightarrow> int res" where
  "date_of_tm t =
     bindR (int_arith [tm_year t + 1900, tm_mon t + 1] ()) (\<lambda>_.
       getJulianDayNumber (tm_year t + 1900) (tm_mon t + 1) (tm_mday t))"

definition kDaysPerWeek :: int where
  "kDaysPerWeek = 7"

definition weekDay :: "int \<Rightarrow> int res" where
  "weekDay julianDayNumber = int_arith [julianDayNumber + 1] ((julianDayNumber + 1) smod kDaysPerWeek)"

definition date_valid :: "int \<Rightarrow> bool" where
  "date_valid julianDayNumber \<longleftrightarrow> 0 < julianDayNumber"

text \<open>The conversions \<open>%<w>d\<close> and \<open>%0<w>d\<close>.\<close>

definition fmt_d :: "nat \<Rightarrow> int \<Rightarrow> string" where
  "fmt_d w i = replicate (w - length (dec_int i)) CHR '' '' @ dec_int i"

definition fmt_0d :: "nat \<Rightarrow> int \<Rightarrow> string" where
  "fmt_0d w i =
     (let sign = (if i < 0 then ''-'' else []); digits = dec_nat (nat \<bar>i\<bar>) in
      sign @ replicate (w - length sign - length digits) CHR ''0'' @ digits)"

definition toIsoString :: "int \<Rightarrow> string res" where
  "toIsoString julianDayNumber =
     bindR (getYearMonthDay julianDayNumber) (\<lambda>ymd.
       Inr (take 31 (fmt_d 4 (ymd_year ymd) @ ''-'' @ fmt_0d 2 (ymd_month ymd) @ ''-'' @
         fmt_0d 2 (ymd_day ymd))))"

subsection \<open>UTC in \<open>TimeZone\<close>\<close>

definition kSecondsPerDay :: int where
  "kSecondsPerDay = 24 * 60 * 60"

definition fillHMS :: "int \<Rightarrow> tm \<Rightarrow> tm" where
  "fillHMS seconds utc =
     (let minutes = seconds div 60 in
      utc\<lparr>tm_sec := seconds mod 60, tm_min := minutes mod 60, tm_hour := minutes div 60\<rparr>)"

definition zero_tm :: tm where
  "zero_tm = \<lparr>tm_sec = 0, tm_min = 0, tm_hour = 0, tm_mday = 0, tm_mon = 0, tm_year = 0, tm_wday = 0,
     tm_yday = 0, tm_isdst = 0, tm_gmtoff = 0, tm_zone = []\<rparr>"

definition toUtcTime :: "int \<Rightarrow> bool \<Rightarrow> tm res" where
  "toUtcTime secondsSinceEpoch yday =
     (let utc = zero_tm\<lparr>tm_zone := ''GMT''\<rparr>;
          seconds0 = int_cast (secondsSinceEpoch smod kSecondsPerDay);
          days0 = int_cast (secondsSinceEpoch sdiv kSecondsPerDay);
          (seconds, days) =
            (if seconds0 < 0 then (seconds0 + kSecondsPerDay, days0 - 1) else (seconds0, days0));
          utc1 = fillHMS seconds utc
      in bindR kJulianDayOf1970_01_01 (\<lambda>k.
         bindR (int_arith [days, days + k] (days + k)) (\<lambda>date.
         bindR (getYearMonthDay date) (\<lambda>ymd.
         bindR (weekDay date) (\<lambda>wday.
         bindR (int_arith [ymd_year ymd - 1900]
             (utc1\<lparr>tm_year := ymd_year ymd - 1900, tm_mon := ymd_month ymd - 1,
                   tm_mday := ymd_day ymd, tm_wday := wday\<rparr>)) (\<lambda>utc2.
         if yday then
           bindR (getJulianDayNumber (ymd_year ymd) 1 1) (\<lambda>startOfYear.
             int_arith [date - startOfYear] (utc2\<lparr>tm_yday := date - startOfYear\<rparr>))
         else Inr utc2))))))"

definition fromUtcTime :: "int \<Rightarrow> int \<Rightarrow> int \<Rightarrow> int \<Rightarrow> int \<Rightarrow> int \<Rightarrow> int res" where
  "fromUtcTime year month day hour minute seconds =
     bindR (getJulianDayNumber year month day) (\<lambda>date.
     bindR (int_arith [hour * 3600, minute * 60, hour * 3600 + minute * 60, hour * 3600 + minute * 60 + seconds]
       (hour * 3600 + minute * 60 + seconds)) (\<lambda>secondsInDay.
     bindR kJulianDayOf1970_01_01 (\<lambda>k.
     bindR (int_arith [date - k] (date - k)) (\<lambda>days.
       Inr (days * kSecondsPerDay + secondsInDay)))))"

definition fromUtcTm :: "tm \<Rightarrow> int res" where
  "fromUtcTm utc =
     bindR (int_arith [tm_year utc + 1900, tm_mon utc + 1] ()) (\<lambda>_.
       fromUtcTime (tm_year utc + 1900) (tm_mon utc + 1) (tm_mday utc)
         (tm_hour utc) (tm_min utc) (tm_sec utc))"

subsection \<open>The Gregorian calendar\<close>

definition leap_year :: "int \<Rightarrow> bool" where
  "leap_year y \<longleftrightarrow> y mod 4 = 0 \<and> (y mod 100 \<noteq> 0 \<or> y mod 400 = 0)"

definition days_in_month :: "int \<Rightarrow> int \<Rightarrow> int" where
  "days_in_month y m =
     (if m = 2 then if leap_year y then 29 else 28 else if m \<in> {4, 6, 9, 11} then 30 else 31)"

type_synonym civil_date = "int \<times> int \<times> int"

fun civil_ok :: "civil_date \<Rightarrow> bool" where
  "civil_ok (y, m, d) \<longleftrightarrow> 1 \<le> m \<and> m \<le> 12 \<and> 1 \<le> d \<and> d \<le> days_in_month y m"

fun next_day :: "civil_date \<Rightarrow> civil_date" where
  "next_day (y, m, d) =
     (if d < days_in_month y m then (y, m, d + 1) else if m < 12 then (y, m + 1, 1) else (y + 1, 1, 1))"

fun prev_day :: "civil_date \<Rightarrow> civil_date" where
  "prev_day (y, m, d) =
     (if 1 < d then (y, m, d - 1)
      else if 1 < m then (y, m - 1, days_in_month y (m - 1)) else (y - 1, 12, 31))"

text \<open>The date of a day, counted from the first of January 1970.\<close>

definition civil :: "int \<Rightarrow> civil_date" where
  "civil n = (if 0 \<le> n then (next_day ^^ nat n) (1970, 1, 1) else (prev_day ^^ nat (- n)) (1970, 1, 1))"

definition civil_of_ymd :: "year_month_day \<Rightarrow> civil_date" where
  "civil_of_ymd ymd = (ymd_year ymd, ymd_month ymd, ymd_day ymd)"

text \<open>\<open>gmtime_r\<close> and \<open>timegm\<close> of the C library: the calendar date and the time of the day, and back; the
  fields of \<open>timegm\<close> need not be in range.\<close>

fun gmtime_date :: "civil_date \<Rightarrow> tm \<Rightarrow> tm" where
  "gmtime_date (y, m, d) t =
     t\<lparr>tm_year := y - 1900, tm_mon := m - 1, tm_mday := d,
       tm_yday := sum_list (map (days_in_month y) [1..m - 1]) + d - 1\<rparr>"

definition gmtime :: "int \<Rightarrow> tm" where
  "gmtime t =
     (let days = t div 86400; s = t mod 86400 in
      gmtime_date (civil days)
        (zero_tm\<lparr>tm_hour := s div 3600, tm_min := s div 60 mod 60, tm_sec := s mod 60,
                 tm_wday := (days + 4) mod 7, tm_zone := ''GMT''\<rparr>))"

subsection \<open>\<open>Timestamp\<close>\<close>

text \<open>A time stamp is its microseconds.\<close>

definition kMicroSecondsPerSecond :: int where
  "kMicroSecondsPerSecond = 1000 * 1000"

definition timestamp_toString :: "int \<Rightarrow> string" where
  "timestamp_toString us =
     (let seconds = us sdiv kMicroSecondsPerSecond; microseconds = us smod kMicroSecondsPerSecond in
      take 30 (dec_int seconds @ ''.'' @ fmt_0d 6 microseconds))"

definition toFormattedString :: "bool \<Rightarrow> int \<Rightarrow> string" where
  "toFormattedString showMicroseconds us =
     (let seconds = us sdiv kMicroSecondsPerSecond;
          t = gmtime seconds;
          date = fmt_d 4 (tm_year t + 1900) @ fmt_0d 2 (tm_mon t + 1) @ fmt_0d 2 (tm_mday t) @ '' '' @
            fmt_0d 2 (tm_hour t) @ '':'' @ fmt_0d 2 (tm_min t) @ '':'' @ fmt_0d 2 (tm_sec t)
      in take 63
        (if showMicroseconds then
           let microseconds = int_cast (us smod kMicroSecondsPerSecond) in
           date @ ''.'' @ fmt_0d 6 microseconds
         else date))"

definition fromUnixTime :: "int \<Rightarrow> int \<Rightarrow> int" where
  "fromUnixTime t microseconds = t * kMicroSecondsPerSecond + microseconds"

definition timestamp_seconds :: "int \<Rightarrow> int" where
  "timestamp_seconds us = us sdiv kMicroSecondsPerSecond"

subsection \<open>Division that truncates\<close>

lemma sdiv_pos [simp]: "0 \<le> x \<Longrightarrow> 0 < c \<Longrightarrow> x sdiv c = x div (c :: int)"
  by (cases "x = 0") (simp_all add: signed_divide_int_def)

lemma smod_pos [simp]: "0 \<le> x \<Longrightarrow> 0 < c \<Longrightarrow> x smod c = x mod (c :: int)"
  by (cases "x = 0") (simp_all add: signed_modulo_int_def minus_div_mult_eq_mod)

lemma int_arith_ok: "list_all in_int32 steps \<Longrightarrow> int_arith steps r = Inr r"
  by (simp add: int_arith_def)

lemma in_int32_small: "-2147483648 \<le> x \<Longrightarrow> x \<le> 2147483647 \<Longrightarrow> in_int32 x"
  by (simp add: in_int32_def)

subsection \<open>The day number\<close>

text \<open>The formula of the code, in years that start in March, over unbounded integers.\<close>

definition march_days :: "int \<Rightarrow> int" where
  "march_days y = 365 * y + y div 4 - y div 100 + y div 400"

fun day_number :: "civil_date \<Rightarrow> int" where
  "day_number (y, m, d) =
     (let a = (if m \<le> 2 then 1 else 0) in
      d - 1 + (153 * (m + 12 * a - 3) + 2) div 5 + march_days (y + 4800 - a) - 32044)"

lemma div_step:
  assumes "0 < (k :: int)"
  shows "y div k = (y - 1) div k + (if y mod k = 0 then 1 else 0)"
proof -
  have y: "y = k * (y div k) + y mod k" and r: "0 \<le> y mod k" "y mod k < k"
    using assms by simp_all
  show ?thesis
  proof (cases "y mod k = 0")
    case True
    have "y - 1 = k * (y div k - 1) + (k - 1)"
      using y True by (simp add: right_diff_distrib)
    from int_div_pos_eq [OF this] True assms show ?thesis by simp
  next
    case False
    have "y - 1 = k * (y div k) + (y mod k - 1)"
      using y by linarith
    from int_div_pos_eq [OF this] False r show ?thesis by simp
  qed
qed

lemma leap_counts:
  assumes "q4 = p4 + (if a then 1 else 0)" and "q100 = p100 + (if b then 1 else 0)"
    and "q400 = p400 + (if c then 1 else 0)" and "c \<Longrightarrow> b" and "b \<Longrightarrow> a"
  shows "365 * y + q4 - q100 + q400 =
    365 * (y - 1) + p4 - p100 + p400 + (if a \<and> (\<not> b \<or> c) then 366 else 365 :: int)"
  unfolding assms(1,2,3) using assms(4,5) by (cases a; cases b; cases c) simp_all

lemma march_days_step: "march_days y = march_days (y - 1) + (if leap_year y then 366 else 365)"
  unfolding march_days_def leap_year_def
proof (rule leap_counts [OF div_step div_step div_step])
  show "y mod 100 = 0" if "y mod 400 = 0"
    by (rule dvd_imp_mod_0 [OF dvd_trans [OF _ mod_0_imp_dvd [OF that]]]) simp
  show "y mod 4 = 0" if "y mod 100 = 0"
    by (rule dvd_imp_mod_0 [OF dvd_trans [OF _ mod_0_imp_dvd [OF that]]]) simp
qed simp_all

lemma leap_year_shift [simp]: "leap_year (y + 4800) = leap_year y" "leap_year (4800 + y) = leap_year y"
proof -
  have "(y + 4800) mod 4 = y mod 4" "(y + 4800) mod 100 = y mod 100" "(y + 4800) mod 400 = y mod 400"
    using mod_mult_self2 [of y 4 1200] mod_mult_self2 [of y 100 48] mod_mult_self2 [of y 400 12] by simp_all
  then show "leap_year (y + 4800) = leap_year y" "leap_year (4800 + y) = leap_year y"
    by (simp_all add: leap_year_def add.commute)
qed

lemma month_cases:
  assumes "1 \<le> (m :: int)" and "m \<le> 12"
  obtains "m = 1" | "m = 2" | "m = 3" | "m = 4" | "m = 5" | "m = 6" | "m = 7" | "m = 8" | "m = 9" | "m = 10"
    | "m = 11" | "m = 12"
proof -
  have "m \<in> set [1..12]"
    using assms by (simp only: set_upto atLeastAtMost_iff)
  also have "[1..12] = [1, 2, 3, 4, 5, 6, 7, 8, 9, 10, 11, 12 :: int]"
    by code_simp
  finally have "m \<in> {1, 2, 3, 4, 5, 6, 7, 8, 9, 10, 11, 12}"
    by simp
  then show thesis
    using that by blast
qed

lemma day_number_next_fields:
  assumes "civil_ok (y, m, d)"
  shows "day_number (next_day (y, m, d)) = day_number (y, m, d) + 1"
proof (cases "d < days_in_month y m")
  case False
  then have d: "d = days_in_month y m"
    using assms by simp
  have "1 \<le> m" "m \<le> 12"
    using assms by simp_all
  then show ?thesis
    using d march_days_step [of "y + 4800"]
    by (cases rule: month_cases) (simp_all add: days_in_month_def Let_def algebra_simps)
qed (simp add: Let_def)

lemma days_in_month_facts: "28 \<le> days_in_month y m" "days_in_month y 12 = 31"
  by (simp_all add: days_in_month_def)

lemma next_day_ok: "civil_ok c \<Longrightarrow> civil_ok (next_day c)"
proof (cases c rule: prod_cases3)
  case (fields y m d)
  assume "civil_ok c"
  with fields show ?thesis
    using days_in_month_facts(1) [of y "m + 1"] days_in_month_facts(1) [of "y + 1" 1] by auto
qed

lemma prev_day_ok: "civil_ok c \<Longrightarrow> civil_ok (prev_day c)"
proof (cases c rule: prod_cases3)
  case (fields y m d)
  assume "civil_ok c"
  with fields show ?thesis
    using days_in_month_facts(1) [of y "m - 1"] days_in_month_facts(2) [of "y - 1"] by auto
qed

lemma next_prev_day: "civil_ok c \<Longrightarrow> next_day (prev_day c) = c"
proof (cases c rule: prod_cases3)
  case (fields y m d)
  assume "civil_ok c"
  with fields show ?thesis
    using days_in_month_facts(2) [of "y - 1"] by auto
qed

lemma day_number_next: "civil_ok c \<Longrightarrow> day_number (next_day c) = day_number c + 1"
  by (cases c rule: prod_cases3) (simp only: day_number_next_fields)

lemma day_number_prev:
  assumes "civil_ok c"
  shows "day_number (prev_day c) = day_number c - 1"
proof -
  have "day_number (next_day (prev_day c)) = day_number (prev_day c) + 1"
    by (rule day_number_next [OF prev_day_ok [OF assms]])
  then show ?thesis
    by (simp only: next_prev_day [OF assms])
qed

lemma first_day: "civil_ok (1970, 1, 1)" "day_number (1970, 1, 1) = 2440588"
  by (simp_all add: days_in_month_def march_days_def)

lemma civil_iterate:
  "civil_ok ((next_day ^^ n) (1970, 1, 1)) \<and> day_number ((next_day ^^ n) (1970, 1, 1)) = 2440588 + int n"
  "civil_ok ((prev_day ^^ n) (1970, 1, 1)) \<and> day_number ((prev_day ^^ n) (1970, 1, 1)) = 2440588 - int n"
proof (induction n)
  case 0
  {
    case 1
    show ?case using first_day by (simp only: funpow_0) simp
  next
    case 2
    show ?case using first_day by (simp only: funpow_0) simp
  }
next
  case (Suc n)
  {
    case 1
    show ?case
      using Suc(1) next_day_ok [of "(next_day ^^ n) (1970, 1, 1)"] day_number_next [of "(next_day ^^ n) (1970, 1, 1)"]
      by (simp only: funpow.simps o_def of_nat_Suc) simp
  next
    case 2
    show ?case
      using Suc(2) prev_day_ok [of "(prev_day ^^ n) (1970, 1, 1)"] day_number_prev [of "(prev_day ^^ n) (1970, 1, 1)"]
      by (simp only: funpow.simps o_def of_nat_Suc) simp
  }
qed

lemma civil_facts: "civil_ok (civil n)" "day_number (civil n) = 2440588 + n"
  using civil_iterate [of "nat n"] civil_iterate [of "nat (- n)"] by (simp_all add: civil_def)

subsection \<open>Years that start in March\<close>

lemma century:
  assumes "0 \<le> (y :: int)"
  obtains q r where "y = 100 * q + r" and "0 \<le> q" and "0 \<le> r" and "r \<le> 99" and "y div 100 = q"
    and "march_days y = 146097 * q div 4 + 1461 * r div 4"
proof -
  define q r where "q = y div 100" and "r = y mod 100"
  have y: "y = 100 * q + r" and qr: "0 \<le> q" "0 \<le> r" "r < 100"
    using assms by (simp_all add: q_def r_def pos_imp_zdiv_nonneg_iff)
  have "y div 4 = 25 * q + r div 4"
    using div_mult_self4 [of 4 "25 * q" r] y by (simp add: algebra_simps)
  moreover have "y div 400 = q div 4"
    using zdiv_zmult2_eq [of 4 y 100] by (simp add: q_def)
  moreover have "146097 * q div 4 = 36524 * q + q div 4"
    using div_mult_self4 [of 4 "36524 * q" q] by (simp add: algebra_simps)
  moreover have "1461 * r div 4 = 365 * r + r div 4"
    using div_mult_self4 [of 4 "365 * r" r] by (simp add: algebra_simps)
  ultimately have "march_days y = 146097 * q div 4 + 1461 * r div 4"
    using y unfolding march_days_def q_def [symmetric] by linarith
  with y qr that q_def show thesis by force
qed

lemma quarter: "4 * (x div 4) = x - x mod (4 :: int)"
  by (simp add: minus_mod_eq_mult_div)

text \<open>From the days of a March year back to the year.\<close>

lemma march_year:
  assumes y: "0 \<le> y" and doy: "0 \<le> doy" "doy \<le> 365" "doy = 365 \<Longrightarrow> leap_year (y + 1)"
  defines "A \<equiv> march_days y + doy"
  defines "b \<equiv> (4 * A + 3) div 146097"
  defines "C \<equiv> A - (b * 146097) div 4"
  defines "d \<equiv> (4 * C + 3) div 1461"
  shows "b = y div 100" and "100 * b + d = y" and "C - (1461 * d) div 4 = doy"
proof -
  obtain q r where qr: "y = 100 * q + r" "0 \<le> q" "0 \<le> r" "r \<le> 99" "y div 100 = q"
      "march_days y = 146097 * q div 4 + 1461 * r div 4"
    using century [OF y] by blast
  have last: "r mod 4 = 3 \<and> (r = 99 \<longrightarrow> q mod 4 = 3)" if "doy = 365"
  proof -
    have leap: "(y + 1) mod 4 = 0" "(y + 1) mod 100 \<noteq> 0 \<or> (y + 1) mod 400 = 0"
      using doy(3) [OF that] by (simp_all add: leap_year_def)
    have "y + 1 = (r + 1) + 4 * (25 * q)"
      using qr(1) by simp
    then have "(r + 1) mod 4 = 0"
      using leap(1) by (metis mod_mult_self2)
    then have "r mod 4 = 3"
      by presburger
    moreover have "q mod 4 = 3" if "r = 99"
    proof -
      have century: "y + 1 = 100 * (q + 1)"
        using that qr(1) by simp
      then have "(y + 1) mod 400 = 0"
        using leap(2) by simp
      moreover have "(100 * (q + 1)) mod (100 * 4) = 100 * ((q + 1) mod 4)"
        by (rule mod_mult_mult1)
      ultimately have "(q + 1) mod 4 = 0"
        by (simp add: century)
      then show ?thesis
        by presburger
    qed
    ultimately show ?thesis by simp
  qed
  have m4: "0 \<le> q mod 4" "q mod 4 \<le> 3" "0 \<le> r mod 4" "r mod 4 \<le> 3"
    using pos_mod_bound [of 4 q] pos_mod_bound [of 4 r] by simp_all
  have "146097 * q = q + 4 * (36524 * q)" "1461 * r = r + 4 * (365 * r)"
    by simp_all
  then have "(146097 * q) mod 4 = q mod 4" "(1461 * r) mod 4 = r mod 4"
    by (metis mod_mult_self2)+
  then have fours: "4 * (146097 * q div 4) = 146097 * q - q mod 4" "4 * (1461 * r div 4) = 1461 * r - r mod 4"
    using quarter [of "146097 * q"] quarter [of "1461 * r"] by simp_all
  have "4 * A + 3 = 146097 * q + (1461 * r - q mod 4 - r mod 4 + 4 * doy + 3)"
    using fours qr(6) unfolding A_def by (simp only: distrib_left)
  moreover have "0 \<le> 1461 * r - q mod 4 - r mod 4 + 4 * doy + 3"
    using m4 qr(3) doy(1) by (cases "r = 0") auto
  moreover have "1461 * r - q mod 4 - r mod 4 + 4 * doy + 3 < 146097"
    using last m4 qr(4) doy(2) by (cases "doy = 365"; cases "r = 99") auto
  ultimately have b: "b = q"
    unfolding b_def by (rule int_div_pos_eq)
  have C: "C = 1461 * r div 4 + doy"
    using qr(6) unfolding C_def A_def b by (simp add: mult.commute)
  have "4 * C + 3 = 1461 * r + (4 * doy + 3 - r mod 4)"
    using fours C by linarith
  moreover have "0 \<le> 4 * doy + 3 - r mod 4"
    using m4 doy(1) by linarith
  moreover have "4 * doy + 3 - r mod 4 < 1461"
    using last m4 doy(2) by (cases "doy = 365") auto
  ultimately have d: "d = r"
    unfolding d_def by (rule int_div_pos_eq)
  show "b = y div 100" "100 * b + d = y" "C - (1461 * d) div 4 = doy"
    using b d C qr by simp_all
qed

text \<open>From the day of a March year back to the month and the day.\<close>

lemma march_month:
  assumes "civil_ok (y, m, d)"
  defines "a \<equiv> if m \<le> 2 then 1 else 0 :: int"
  defines "m' \<equiv> m + 12 * a - 3"
  defines "doy \<equiv> d - 1 + (153 * m' + 2) div 5"
  shows "(14 - m) sdiv 12 = a" and "0 \<le> m'" and "m' \<le> 11" and "0 \<le> doy" and "doy \<le> 365"
    and "doy = 365 \<Longrightarrow> leap_year (y + 4800 - a + 1)"
    and "(5 * doy + 2) div 153 = m'" and "m' div 10 = a"
proof -
  have m: "1 \<le> m" "m \<le> 12" and d: "1 \<le> d" "d \<le> days_in_month y m"
    using assms(1) by simp_all
  show "(14 - m) sdiv 12 = a" "0 \<le> m'" "m' \<le> 11" "m' div 10 = a"
    using m by (cases rule: month_cases; simp add: a_def m'_def)+
  show "0 \<le> doy" "doy \<le> 365"
    using m d by (cases rule: month_cases; simp add: doy_def a_def m'_def days_in_month_def split: if_splits)+
  show "leap_year (y + 4800 - a + 1)" if "doy = 365"
    using m d that
    by (cases rule: month_cases; simp add: doy_def a_def m'_def days_in_month_def split: if_splits)
  have "0 \<le> 5 * doy + 2 - 153 * m'" "5 * doy + 2 - 153 * m' < 153"
    using m d by (cases rule: month_cases; simp add: doy_def a_def m'_def days_in_month_def split: if_splits)+
  then show "(5 * doy + 2) div 153 = m'"
    by (intro int_div_pos_eq [where r = "5 * doy + 2 - 153 * m'"]) simp_all
qed

lemma march_days_bounds:
  assumes "0 \<le> y"
  shows "365 * y \<le> march_days y" and "0 \<le> y div 400" and "y div 400 \<le> y div 100" and "y div 100 \<le> y div 4"
    and "y div 4 \<le> y"
proof -
  show *: "0 \<le> y div 400" "y div 400 \<le> y div 100" "y div 100 \<le> y div 4" "y div 4 \<le> y"
    using assms by (auto intro: zdiv_mono2 simp: pos_imp_zdiv_nonneg_iff)
  then show "365 * y \<le> march_days y"
    by (simp add: march_days_def)
qed

text \<open>The dates whose day number the code computes without overflow.\<close>

definition day_in_range :: "int \<Rightarrow> bool" where
  "day_in_range n \<longleftrightarrow> -2472632 \<le> n \<and> n \<le> 534398279"

lemma march_form:
  assumes "civil_ok (y, m, d)" and "day_number (y, m, d) = 2440588 + n" and "day_in_range n"
  defines "a \<equiv> if m \<le> 2 then 1 else 0 :: int"
  defines "Y \<equiv> y + 4800 - a"
  defines "doy \<equiv> d - 1 + (153 * (m + 12 * a - 3) + 2) div 5"
  shows "day_number (y, m, d) + 32044 = march_days Y + doy" and "0 \<le> Y" and "Y \<le> 1470879"
    and "march_days Y + doy \<le> 536870911"
proof -
  show A: "day_number (y, m, d) + 32044 = march_days Y + doy"
    by (simp add: Let_def Y_def a_def doy_def)
  then show "march_days Y + doy \<le> 536870911"
    using assms(2,3) by (simp add: day_in_range_def)
  note month = march_month(4,5) [OF assms(1), folded a_def, folded doy_def]
  have pos: "0 \<le> march_days Y + doy"
    using A assms(2,3) by (simp add: day_in_range_def)
  show Y: "0 \<le> Y"
  proof (rule ccontr)
    assume "\<not> 0 \<le> Y"
    then have "march_days Y \<le> -366"
      using zdiv_mono2_neg [of Y 4 100] neg_imp_zdiv_neg_iff [of 400 Y] by (simp add: march_days_def)
    with pos month show False by linarith
  qed
  show "Y \<le> 1470879"
    using march_days_bounds(1) [OF Y] month(1) A assms(2,3) unfolding day_in_range_def by linarith
qed

lemma getJulianDayNumber_eq:
  assumes "civil_ok (y, m, d)" and "day_number (y, m, d) = 2440588 + n" and "day_in_range n"
  shows "getJulianDayNumber y m d = Inr (2440588 + n)"
proof -
  define a where "a = (if m \<le> 2 then 1 else 0 :: int)"
  define Y where "Y = y + 4800 - a"
  define M where "M = m + 12 * a - 3"
  have form: "day_number (y, m, d) + 32044 = march_days Y + (d - 1 + (153 * M + 2) div 5)" "0 \<le> Y" "Y \<le> 1470879"
    using march_form(1-3) [OF assms] by (simp_all add: a_def Y_def M_def)
  have month: "(14 - m) sdiv 12 = a" "0 \<le> M" "M \<le> 11" "0 \<le> d - 1 + (153 * M + 2) div 5"
      "d - 1 + (153 * M + 2) div 5 \<le> 365"
    using march_month(1-5) [OF assms(1)] by (simp_all add: a_def M_def)
  note Yb = march_days_bounds [OF form(2)]
  have m: "1 \<le> m" "m \<le> 12" "0 \<le> a" "a \<le> 1"
    using assms(1) by (simp_all add: a_def)
  have sdivs: "(153 * M + 2) sdiv 5 = (153 * M + 2) div 5" "Y sdiv 4 = Y div 4" "Y sdiv 100 = Y div 100"
      "Y sdiv 400 = Y div 400"
    using form(2) month(2) by simp_all
  have val: "d + (153 * M + 2) div 5 + Y * 365 + Y div 4 - Y div 100 + Y div 400 - 32045 = 2440588 + n"
    using form(1) assms(2) unfolding march_days_def by linarith
  have "list_all in_int32 [14 - m, y + 4800, Y, 12 * a, m + 12 * a, M, 153 * M, 153 * M + 2,
      d + (153 * M + 2) div 5, Y * 365, d + (153 * M + 2) div 5 + Y * 365,
      d + (153 * M + 2) div 5 + Y * 365 + Y div 4, d + (153 * M + 2) div 5 + Y * 365 + Y div 4 - Y div 100,
      d + (153 * M + 2) div 5 + Y * 365 + Y div 4 - Y div 100 + Y div 400, 2440588 + n]"
    using m month(2-5) form(2,3) Yb(2-5) assms(3) Y_def M_def unfolding list.pred_inject day_in_range_def
    by (intro conjI list.pred_inject(1) in_int32_small; linarith)
  then show ?thesis
    unfolding getJulianDayNumber_def Let_def month(1) Y_def [symmetric] M_def [symmetric] sdivs val
    by (rule int_arith_ok)
qed

lemma getYearMonthDay_eq:
  assumes "civil_ok (y, m, d)" and "day_number (y, m, d) = 2440588 + n" and "day_in_range n"
  shows "getYearMonthDay (2440588 + n) = Inr \<lparr>ymd_year = y, ymd_month = m, ymd_day = d\<rparr>"
proof -
  define a where "a = (if m \<le> 2 then 1 else 0 :: int)"
  define Y where "Y = y + 4800 - a"
  define M where "M = m + 12 * a - 3"
  define e where "e = d - 1 + (153 * M + 2) div 5"
  define A where "A = march_days Y + e"
  define b where "b = (4 * A + 3) div 146097"
  define c where "c = A - (b * 146097) div 4"
  define D where "D = (4 * c + 3) div 1461"
  note form' = march_form [OF assms(1-3), folded a_def, folded Y_def M_def, folded e_def, folded A_def]
  have form: "2440588 + n + 32044 = A" "0 \<le> Y" "Y \<le> 1470879" "A \<le> 536870911"
    using form' unfolding assms(2) .
  note month = march_month(2-5,7,8) [OF assms(1), folded a_def, folded M_def, folded e_def]
  note leap = march_month(6) [OF assms(1), folded a_def, folded M_def Y_def, folded e_def]
  note year' = march_year [OF form(2) month(3,4) leap, folded A_def, folded b_def, folded c_def, folded D_def]
  have year: "b = Y div 100" "100 * b + D = Y" "c - 1461 * D div 4 = e"
    using year' by blast+
  have D: "D = Y mod 100"
    using year(1,2) minus_mult_div_eq_mod [of Y 100] by linarith
  have Ab: "0 \<le> A" "0 \<le> b" "0 \<le> D" "D \<le> 99" "0 \<le> a" "a \<le> 1"
    using form(1,2) assms(3) D pos_mod_bound [of 100 Y] year(1) unfolding day_in_range_def a_def
    by (auto simp only: pos_imp_zdiv_nonneg_iff pos_mod_sign split: if_split)
  have "1461 * D div 4 \<le> 1461 * 99 div 4" "0 \<le> 1461 * D div 4"
    using zdiv_mono1 [of "1461 * D" "1461 * 99" 4] zdiv_mono1 [of 0 "1461 * D" 4] Ab(3,4) by linarith+
  then have c: "0 \<le> c" "c \<le> 40000"
    using year(3) month(3,4) by linarith+
  have "0 \<le> 4 * A + 3" "0 \<le> b * 146097" "0 \<le> 4 * c + 3" "0 \<le> 1461 * D" "0 \<le> 5 * e + 2" "0 \<le> 153 * M + 2"
    using Ab c month by linarith+
  then have sdivs: "(4 * A + 3) sdiv 146097 = b" "(b * 146097) sdiv 4 = b * 146097 div 4" "(4 * c + 3) sdiv 1461 = D"
      "(1461 * D) sdiv 4 = 1461 * D div 4" "(5 * e + 2) sdiv 153 = M" "(153 * M + 2) sdiv 5 = (153 * M + 2) div 5"
      "M sdiv 10 = a"
    using month(1,5,6) by (simp_all only: sdiv_pos zero_less_numeral b_def [symmetric] D_def [symmetric])
  have d: "1 \<le> d" "d \<le> 31"
    using assms(1) by (auto simp: days_in_month_def split: if_splits)
  have "b * 100 \<le> Y" "b * 146097 \<le> 4 * A + 3"
    using year(2) Ab(3) mult_div_mod_eq [of 146097 "4 * A + 3"] pos_mod_sign [of 146097 "4 * A + 3"]
    unfolding b_def [symmetric] by linarith+
  then have "list_all in_int32 [A, 4 * A, 4 * A + 3, b * 146097, c, 4 * c, 4 * c + 3, 1461 * D, e, 5 * e,
      5 * e + 2, 153 * M, 153 * M + 2, e - (153 * M + 2) div 5, e - (153 * M + 2) div 5 + 1, M + 3,
      12 * a, M + 3 - 12 * a, b * 100, b * 100 + D, b * 100 + D - 4800, b * 100 + D - 4800 + a]"
    using Ab c month(1-4) form year(2) d e_def unfolding list.pred_inject
    by (intro conjI list.pred_inject(1) in_int32_small; linarith)
  moreover have "b * 100 + D - 4800 + a = y" "M + 3 - 12 * a = m" "e - (153 * M + 2) div 5 + 1 = d"
    using year(2) by (simp_all add: Y_def M_def e_def)
  ultimately show ?thesis
    unfolding getYearMonthDay_def Let_def form(1) sdivs c_def [symmetric] year(3)
    by (simp only: int_arith_ok)
qed

subsection \<open>The time of a day\<close>

lemma sdiv_floor:
  assumes "0 < (k :: int)"
  shows "t sdiv k = (if 0 \<le> t \<or> t mod k = 0 then t div k else t div k + 1)"
    and "t smod k = (if 0 \<le> t \<or> t mod k = 0 then t mod k else t mod k - k)"
proof -
  show "t sdiv k = (if 0 \<le> t \<or> t mod k = 0 then t div k else t div k + 1)"
    using assms
    by (cases "t = 0"; cases "0 \<le> t") (auto simp: signed_divide_int_def zdiv_zminus1_eq_if [of k t])
  show "t smod k = (if 0 \<le> t \<or> t mod k = 0 then t mod k else t mod k - k)"
    using assms
    by (cases "t = 0"; cases "0 \<le> t") (auto simp: signed_modulo_int_def zmod_zminus1_eq_if)
qed

lemma int_cast_small: "in_int32 i \<Longrightarrow> int_cast i = i"
  by (simp add: int_cast_def in_int32_def signed_take_bit_int_eq_self)

lemma day_split:
  assumes "day_in_range (t div kSecondsPerDay)"
  defines "s0 \<equiv> int_cast (t smod kSecondsPerDay)" and "d0 \<equiv> int_cast (t sdiv kSecondsPerDay)"
  shows "(if s0 < 0 then (s0 + kSecondsPerDay, d0 - 1) else (s0, d0)) = (t mod kSecondsPerDay, t div kSecondsPerDay)"
proof -
  have mod: "0 \<le> t mod kSecondsPerDay" "t mod kSecondsPerDay < kSecondsPerDay" and k: "kSecondsPerDay = 86400"
    by (simp_all add: kSecondsPerDay_def)
  have "in_int32 (t smod kSecondsPerDay)" "in_int32 (t sdiv kSecondsPerDay)"
    using mod assms(1) by (auto simp: sdiv_floor k day_in_range_def intro!: in_int32_small)
  then have "s0 = t smod kSecondsPerDay" "d0 = t sdiv kSecondsPerDay"
    by (simp_all add: s0_def d0_def int_cast_small)
  then show ?thesis
    using mod unfolding k by (auto simp: sdiv_floor)
qed

lemma fillHMS_ok:
  assumes "0 \<le> s" and "s < kSecondsPerDay"
  shows "tm_hour (fillHMS s u) * 3600 + tm_min (fillHMS s u) * 60 + tm_sec (fillHMS s u) = s"
    and "0 \<le> tm_sec (fillHMS s u)" and "tm_sec (fillHMS s u) < 60" and "0 \<le> tm_min (fillHMS s u)"
    and "tm_min (fillHMS s u) < 60" and "0 \<le> tm_hour (fillHMS s u)" and "tm_hour (fillHMS s u) < 24"
proof -
  have "s div 60 div 60 * 3600 + s div 60 mod 60 * 60 + s mod 60 = s"
    using mult_div_mod_eq [of 60 "s div 60"] mult_div_mod_eq [of 60 s] by linarith
  then show "tm_hour (fillHMS s u) * 3600 + tm_min (fillHMS s u) * 60 + tm_sec (fillHMS s u) = s"
    by (simp add: fillHMS_def Let_def)
  show "tm_hour (fillHMS s u) < 24"
    using assms by (simp add: fillHMS_def Let_def kSecondsPerDay_def zdiv_zmult2_eq [symmetric])
qed (use assms in \<open>simp_all add: fillHMS_def Let_def pos_imp_zdiv_nonneg_iff\<close>)

lemma epoch_number: "kJulianDayOf1970_01_01 = Inr 2440588"
  using getJulianDayNumber_eq [of 1970 1 1 0] first_day
  by (simp add: kJulianDayOf1970_01_01_def day_in_range_def del: civil_ok.simps day_number.simps)

lemma toUtcTime_eq:
  assumes "day_in_range n" and "-2440588 \<le> n" and "t div kSecondsPerDay = n" and "civil n = (y, m, d)"
  shows "toUtcTime t False = Inr ((fillHMS (t mod kSecondsPerDay) (zero_tm\<lparr>tm_zone := ''GMT''\<rparr>))
    \<lparr>tm_year := y - 1900, tm_mon := m - 1, tm_mday := d, tm_wday := (n + 4) mod 7\<rparr>)"
proof -
  have c: "civil_ok (y, m, d)" "day_number (y, m, d) = 2440588 + n"
    using civil_facts [of n] assms(4) by (simp_all del: civil_ok.simps day_number.simps)
  note ymd = getYearMonthDay_eq [OF c assms(1)]
  have "0 \<le> y + 4800" "y \<le> 1470879"
    using march_form(2,3) [OF c assms(1)] by (simp_all split: if_splits)
  then have "in_int32 (y - 1900)" "in_int32 n" "in_int32 (n + 2440588)" "in_int32 (2440588 + n + 1)"
    using assms(1) by (auto simp: day_in_range_def intro: in_int32_small)
  moreover have "(2440588 + n + 1) smod 7 = (n + 4) mod 7"
  proof -
    have "(2440588 + n + 1) smod 7 = (2440588 + n + 1) mod 7"
      using assms(2) by (intro smod_pos) simp_all
    also have "\<dots> = (n + 4 + 7 * 348655) mod 7"
      by (simp add: add.commute)
    also have "\<dots> = (n + 4) mod 7"
      by (rule mod_mult_self2)
    finally show ?thesis .
  qed
  ultimately show ?thesis
    using day_split [of t] assms(1,3) ymd
    unfolding toUtcTime_def Let_def epoch_number
    by (simp add: int_arith_def weekDay_def kDaysPerWeek_def add.commute [of n])
qed

definition timegm :: "tm \<Rightarrow> int" where
  "timegm t =
     (let y = tm_year t + 1900 + tm_mon t div 12; m = tm_mon t mod 12 + 1 in
      (day_number (y, m, 1) + tm_mday t - 1 - 2440588) * 86400 +
      tm_hour t * 3600 + tm_min t * 60 + tm_sec t)"

lemma timegm_gmtime: "timegm (gmtime t) = t"
proof -
  obtain y m d where c: "civil (t div 86400) = (y, m, d)"
    by (rule prod_cases3)
  have ok: "1 \<le> m" "m \<le> 12" "day_number (y, m, d) = 2440588 + t div 86400"
    using civil_facts [of "t div 86400"] c by (simp_all del: day_number.simps)
  have m: "(m - 1) div 12 = 0" "(m - 1) mod 12 = m - 1"
    using ok(1,2) by (simp_all add: div_pos_pos_trivial)
  have day: "day_number (y, m, 1) + d - 1 - 2440588 = t div 86400"
    using ok(3) by (simp add: Let_def)
  have "t mod 86400 div 3600 = t mod 86400 div 60 div 60"
    using zdiv_zmult2_eq [of 60 "t mod 86400" 60] by simp
  then have s: "t mod 86400 div 3600 * 3600 + t mod 86400 div 60 mod 60 * 60 + t mod 86400 mod 60 = t mod 86400"
    using mult_div_mod_eq [of 60 "t mod 86400 div 60"] mult_div_mod_eq [of 60 "t mod 86400"] by linarith
  have "timegm (gmtime t) = (day_number (y, m, 1) + d - 1 - 2440588) * 86400 +
      (t mod 86400 div 3600 * 3600 + t mod 86400 div 60 mod 60 * 60 + t mod 86400 mod 60)"
    using m by (simp add: timegm_def gmtime_def c Let_def del: day_number.simps)
  then show ?thesis
    unfolding day s by (simp only: div_mult_mod_eq)
qed

lemma timegm_cong:
  "tm_year u = tm_year v \<Longrightarrow> tm_mon u = tm_mon v \<Longrightarrow> tm_mday u = tm_mday v \<Longrightarrow> tm_hour u = tm_hour v \<Longrightarrow>
   tm_min u = tm_min v \<Longrightarrow> tm_sec u = tm_sec v \<Longrightarrow> timegm u = timegm v"
  by (simp add: timegm_def)

text \<open>A time before 1970 prints with the sign in the wrong place.\<close>

lemma timestamp_toString_negative: "timestamp_toString (-1) = ''0.-00001''"
  by code_simp

lemma fromUtcTime_eq:
  assumes "day_in_range n" and "civil n = (y, m, d)" and "0 \<le> H" and "H < 24" and "0 \<le> M" and "M < 60"
    and "0 \<le> S" and "S < 60"
  shows "fromUtcTime y m d H M S = Inr (n * kSecondsPerDay + (H * 3600 + M * 60 + S))"
proof -
  have c: "civil_ok (y, m, d)" "day_number (y, m, d) = 2440588 + n"
    using civil_facts [of n] assms(2) by (simp_all del: civil_ok.simps day_number.simps)
  have "in_int32 (H * 3600)" "in_int32 (M * 60)" "in_int32 (H * 3600 + M * 60)" "in_int32 (H * 3600 + M * 60 + S)"
      "in_int32 n"
    using assms by (auto simp: day_in_range_def intro!: in_int32_small)
  then show ?thesis
    by (simp add: fromUtcTime_def getJulianDayNumber_eq [OF c assms(1)] epoch_number int_arith_def)
qed

subsection \<open>Properties\<close>

text \<open>C22: The day number of every date of the Gregorian calendar is its distance in days from the first of
  January 1970 plus the day number of that date, and the date is computed back from the day
  number, for the 1.47 million years in which no intermediate value overflows.\<close>

theorem dates_follow_calendar:
  assumes "day_in_range n" and "civil n = (y, m, d)"
  shows "\<exists>k. kJulianDayOf1970_01_01 = Inr k \<and> getJulianDayNumber y m d = Inr (k + n) \<and>
    getYearMonthDay (k + n) = Inr \<lparr>ymd_year = y, ymd_month = m, ymd_day = d\<rparr>"
proof -
  have "civil_ok (y, m, d)" "day_number (y, m, d) = 2440588 + n"
    using civil_facts [of n] assms(2) by (simp_all del: civil_ok.simps day_number.simps)
  then show ?thesis
    using getJulianDayNumber_eq [OF _ _ assms(1)] getYearMonthDay_eq [OF _ _ assms(1)] epoch_number by blast
qed

theorem dates_follow_calendar_witness:
  "\<exists>k. kJulianDayOf1970_01_01 = Inr k \<and> getJulianDayNumber 1970 3 1 = Inr (k + 59) \<and>
     getYearMonthDay (k + 59) = Inr \<lparr>ymd_year = 1970, ymd_month = 3, ymd_day = 1\<rparr>"
proof (rule dates_follow_calendar)
  show "day_in_range 59"
    by (simp add: day_in_range_def)
  show "civil 59 = (1970, 3, 1)"
    by code_simp
qed

text \<open>C23: \<open>toUtcTime\<close> gives the calendar date, the time of the day and the day of the week of a number of
  seconds, also before 1970, and \<open>fromUtcTime\<close> takes it back to the same number.\<close>

theorem utc_roundtrip:
  assumes "day_in_range n" and "-2440588 \<le> n" and "t div kSecondsPerDay = n"
  shows "\<exists>u. toUtcTime t False = Inr u \<and> fromUtcTm u = Inr t \<and>
    (tm_year u + 1900, tm_mon u + 1, tm_mday u) = civil n \<and> tm_wday u = (n + 4) mod 7 \<and>
    tm_hour u \<in> {0..23} \<and> tm_min u \<in> {0..59} \<and> tm_sec u \<in> {0..59} \<and>
    tm_hour u * 3600 + tm_min u * 60 + tm_sec u = t mod kSecondsPerDay"
proof -
  obtain y m d where c: "civil n = (y, m, d)"
    by (rule prod_cases3)
  define v where "v = fillHMS (t mod kSecondsPerDay) (zero_tm\<lparr>tm_zone := ''GMT''\<rparr>)"
  define u where "u = v\<lparr>tm_year := y - 1900, tm_mon := m - 1, tm_mday := d, tm_wday := (n + 4) mod 7\<rparr>"
  have "0 \<le> t mod kSecondsPerDay" "t mod kSecondsPerDay < kSecondsPerDay"
    by (simp_all add: kSecondsPerDay_def)
  note hms = fillHMS_ok [OF this, of "zero_tm\<lparr>tm_zone := ''GMT''\<rparr>", folded v_def]
  have ok: "civil_ok (y, m, d)" "day_number (y, m, d) = 2440588 + n"
    using civil_facts [of n] c by (simp_all del: civil_ok.simps day_number.simps)
  have "0 \<le> y + 4800" "y \<le> 1470879"
    using march_form(2,3) [OF ok assms(1)] by (simp_all split: if_splits)
  then have "in_int32 y" "in_int32 m"
    using ok(1) by (auto intro!: in_int32_small)
  then have "fromUtcTm u = Inr (n * kSecondsPerDay + t mod kSecondsPerDay)"
    using fromUtcTime_eq [OF assms(1) c hms(6,7,4,5,2,3)] hms(1)
    by (simp add: fromUtcTm_def u_def int_arith_def)
  then have "fromUtcTm u = Inr t"
    using assms(3) div_mult_mod_eq [of t kSecondsPerDay] by simp
  moreover have "toUtcTime t False = Inr u"
    using toUtcTime_eq [OF assms c] by (simp add: u_def v_def)
  ultimately show ?thesis
    using hms c by (intro exI [of _ u]) (simp add: u_def)
qed

theorem utc_roundtrip_witness:
  "\<exists>u. toUtcTime (-1) False = Inr u \<and> fromUtcTm u = Inr (-1) \<and> tm_wday u = 3 \<and>
     (tm_year u + 1900, tm_mon u + 1, tm_mday u) = civil (-1)"
  using utc_roundtrip [of "-1" "-1"] by (auto simp: day_in_range_def kSecondsPerDay_def)

end
