(* ===== verification/Time_Zone.thy ===== *)
theory Time_Zone
  imports Calendar Endian
begin

section \<open>Time zones\<close>

text \<open>
  The model of \<open>src/src/muduo/base/TimeZone.cc\<close>: the reader of zone files, the lookup of the local
  time type, and the conversions between UTC and local time.  The UTC functions of the class are
  in \<^verbatim>\<open>Calendar\<close>.  A file is the list of its bytes, \<open>None\<close> when it cannot be opened.

  A \<open>logic_error\<close> is caught by the reader, which returns with what it has stored so far; the model
  of each step that stores therefore returns the data in both cases.
\<close>

subsection \<open>Data\<close>

record transition =
  tr_gmttime :: int
  tr_localtime :: int
  tr_localtimeIdx :: nat

record local_type =
  lc_gmtOffset :: int
  lc_isDst :: bool
  lc_arrbIdx :: nat

record zone_data =
  zd_transitions :: "transition list"
  zd_localtimes :: "local_type list"
  zd_abbreviation :: "byte list"

definition empty_zone :: zone_data where
  "empty_zone = \<lparr>zd_transitions = [], zd_localtimes = [], zd_abbreviation = []\<rparr>"

text \<open>\<open>Comp\<close>: the flag is \<open>compareGmt\<close>.\<close>

definition comp_less :: "bool \<Rightarrow> transition \<Rightarrow> transition \<Rightarrow> bool" where
  "comp_less compareGmt lhs rhs =
     (if compareGmt then tr_gmttime lhs < tr_gmttime rhs else tr_localtime lhs < tr_localtime rhs)"

definition comp_equal :: "bool \<Rightarrow> transition \<Rightarrow> transition \<Rightarrow> bool" where
  "comp_equal compareGmt lhs rhs =
     (if compareGmt then tr_gmttime lhs = tr_gmttime rhs else tr_localtime lhs = tr_localtime rhs)"

subsection \<open>\<open>File\<close>\<close>

definition readBytes :: "int \<Rightarrow> byte list \<Rightarrow> (byte list \<times> byte list) res" where
  "readBytes n f =
     (if n < 0 then Inl Undefined
      else if length f < nat n then Inl LogicError
      else Inr (take (nat n) f, drop (nat n) f))"

definition file_readInt32 :: "byte list \<Rightarrow> (int \<times> byte list) res" where
  "file_readInt32 f =
     (if length f < 4 then Inl LogicError
      else Inr (sint (networkToHost32 (of_mem_bytes (take 4 f))), drop 4 f))"

definition file_readUInt8 :: "byte list \<Rightarrow> (nat \<times> byte list) res" where
  "file_readUInt8 f = (case f of [] \<Rightarrow> Inl LogicError | b # f' \<Rightarrow> Inr (unat b, f'))"

subsection \<open>\<open>readTimeZoneFile\<close>\<close>

fun read_list :: "(byte list \<Rightarrow> ('a \<times> byte list) res) \<Rightarrow> nat \<Rightarrow> byte list \<Rightarrow> ('a list \<times> byte list) res" where
  "read_list rd 0 f = Inr ([], f)"
| "read_list rd (Suc n) f =
     bindR (rd f) (\<lambda>(x, f1). bindR (read_list rd n f1) (\<lambda>(xs, f2). Inr (x # xs, f2)))"

definition read_local_type :: "byte list \<Rightarrow> (local_type \<times> byte list) res" where
  "read_local_type f =
     bindR (file_readInt32 f) (\<lambda>(gmtoff, f1).
     bindR (file_readUInt8 f1) (\<lambda>(isdst, f2).
     bindR (file_readUInt8 f2) (\<lambda>(abbrind, f3).
       Inr (\<lparr>lc_gmtOffset = gmtoff, lc_isDst = (isdst \<noteq> 0), lc_arrbIdx = abbrind\<rparr>, f3))))"

fun read_local_types :: "nat \<Rightarrow> zone_data \<Rightarrow> byte list \<Rightarrow> zone_data \<times> byte list res" where
  "read_local_types 0 data f = (data, Inr f)"
| "read_local_types (Suc n) data f =
     (case read_local_type f of
        Inl e \<Rightarrow> (data, Inl e)
      | Inr (l, f1) \<Rightarrow> read_local_types n (data\<lparr>zd_localtimes := zd_localtimes data @ [l]\<rparr>) f1)"

fun add_transitions :: "(int \<times> nat) list \<Rightarrow> zone_data \<Rightarrow> zone_data res" where
  "add_transitions [] data = Inr data"
| "add_transitions ((t, localIdx) # ts) data =
     (if length (zd_localtimes data) \<le> localIdx then Inl Undefined
      else add_transitions ts
        (data\<lparr>zd_transitions := zd_transitions data @
           [\<lparr>tr_gmttime = t, tr_localtime = t + lc_gmtOffset (zd_localtimes data ! localIdx),
             tr_localtimeIdx = localIdx\<rparr>]\<rparr>))"

text \<open>The header up to the three counts that are used: \<open>timecnt\<close>, \<open>typecnt\<close> and \<open>charcnt\<close>.\<close>

definition read_header :: "byte list \<Rightarrow> (int \<times> int \<times> int \<times> byte list) res" where
  "read_header f =
     bindR (readBytes 4 f) (\<lambda>(head, f1).
     if head \<noteq> bytes_of ''TZif'' then Inl LogicError
     else
       bindR (readBytes 1 f1) (\<lambda>(version, f2).
       bindR (readBytes 15 f2) (\<lambda>(reserved, f3).
       bindR (file_readInt32 f3) (\<lambda>(isgmtcnt, f4).
       bindR (file_readInt32 f4) (\<lambda>(isstdcnt, f5).
       bindR (file_readInt32 f5) (\<lambda>(leapcnt, f6).
       bindR (file_readInt32 f6) (\<lambda>(timecnt, f7).
       bindR (file_readInt32 f7) (\<lambda>(typecnt, f8).
       bindR (file_readInt32 f8) (\<lambda>(charcnt, f9).
         Inr (timecnt, typecnt, charcnt, f9))))))))))"

text \<open>The transition times and their types; \<open>reserve\<close> with a negative count is a \<open>length_error\<close>.\<close>

definition read_times :: "int \<Rightarrow> byte list \<Rightarrow> ((int \<times> nat) list \<times> byte list) res" where
  "read_times timecnt f =
     (if timecnt < 0 then Inl LengthError
      else
        bindR (read_list file_readInt32 (nat timecnt) f) (\<lambda>(trans, f1).
        bindR (read_list file_readUInt8 (nat timecnt) f1) (\<lambda>(localtimes, f2).
          Inr (zip trans localtimes, f2))))"

definition read_zone :: "zone_data \<Rightarrow> byte list \<Rightarrow> zone_data \<times> unit res" where
  "read_zone data f =
     (case bindR (read_header f) (\<lambda>(timecnt, typecnt, charcnt, f1).
             bindR (read_times timecnt f1) (\<lambda>(ts, f2). Inr (ts, typecnt, charcnt, f2))) of
        Inl e \<Rightarrow> (data, Inl e)
      | Inr (ts, typecnt, charcnt, f2) \<Rightarrow>
          (case read_local_types (nat typecnt) data f2 of
             (data1, Inl e) \<Rightarrow> (data1, Inl e)
           | (data1, Inr f3) \<Rightarrow>
               (case add_transitions ts data1 of
                  Inl e \<Rightarrow> (data1, Inl e)
                | Inr data2 \<Rightarrow>
                    (case readBytes charcnt f3 of
                       Inl e \<Rightarrow> (data2, Inl e)
                     | Inr (abbreviation, f4) \<Rightarrow>
                         (data2\<lparr>zd_abbreviation := abbreviation\<rparr>, Inr ())))))"

text \<open>\<open>length_error\<close> is a \<open>logic_error\<close>; both are caught.\<close>

definition readTimeZoneFile :: "byte list option \<Rightarrow> zone_data \<Rightarrow> (bool \<times> zone_data) res" where
  "readTimeZoneFile zonefile data =
     (case zonefile of
        None \<Rightarrow> Inr (True, data)
      | Some f \<Rightarrow>
          (case read_zone data f of
             (data', Inr _) \<Rightarrow> Inr (True, data')
           | (data', Inl e) \<Rightarrow> if e \<in> {LogicError, LengthError} then Inr (True, data') else Inl e))"

definition new_zone_file :: "byte list option \<Rightarrow> zone_data option res" where
  "new_zone_file zonefile =
     bindR (readTimeZoneFile zonefile empty_zone) (\<lambda>(ok, data). Inr (if ok then Some data else None))"

definition new_zone_fixed :: "int \<Rightarrow> string \<Rightarrow> zone_data option" where
  "new_zone_fixed eastOfUtc name =
     Some \<lparr>zd_transitions = [],
           zd_localtimes = [\<lparr>lc_gmtOffset = eastOfUtc, lc_isDst = False, lc_arrbIdx = 0\<rparr>],
           zd_abbreviation = bytes_of name\<rparr>"

definition zone_valid :: "zone_data option \<Rightarrow> bool" where
  "zone_valid tz \<longleftrightarrow> tz \<noteq> None"

subsection \<open>\<open>findLocaltime\<close>\<close>

text \<open>\<open>std::lower_bound\<close>, whose range must be partitioned by the comparison.\<close>

definition lower_bound_at :: "('a \<Rightarrow> bool) \<Rightarrow> 'a list \<Rightarrow> nat res" where
  "lower_bound_at below xs =
     (if list_all (\<lambda>x. \<not> below x) (dropWhile below xs) then Inr (length (takeWhile below xs))
      else Inl Undefined)"

definition local_type_at :: "zone_data \<Rightarrow> nat \<Rightarrow> local_type res" where
  "local_type_at data i =
     (if i < length (zd_localtimes data) then Inr (zd_localtimes data ! i) else Inl Undefined)"

definition findLocaltime :: "zone_data \<Rightarrow> transition \<Rightarrow> bool \<Rightarrow> local_type res" where
  "findLocaltime data sentry compareGmt =
     (let ts = zd_transitions data in
      if ts = [] \<or> comp_less compareGmt sentry (hd ts) then local_type_at data 0
      else
        bindR (lower_bound_at (\<lambda>t. comp_less compareGmt t sentry) ts) (\<lambda>transI.
        if transI < length ts then
          bindR (if \<not> comp_equal compareGmt sentry (ts ! transI)
                 then asserting (transI \<noteq> 0) (Inr (transI - 1)) else Inr transI) (\<lambda>i.
          local_type_at data (tr_localtimeIdx (ts ! i)))
        else local_type_at data (tr_localtimeIdx (last ts))))"

subsection \<open>Local time\<close>

definition toLocalTime :: "zone_data option \<Rightarrow> int \<Rightarrow> tm res" where
  "toLocalTime tz seconds =
     (case tz of
        None \<Rightarrow> Inl Assertion
      | Some data \<Rightarrow>
          bindR (findLocaltime data \<lparr>tr_gmttime = seconds, tr_localtime = 0, tr_localtimeIdx = 0\<rparr> True) (\<lambda>local.
          if length (zd_abbreviation data) < lc_arrbIdx local then Inl Undefined
          else
            let localSeconds = seconds + lc_gmtOffset local in
            Inr ((gmtime localSeconds)\<lparr>tm_isdst := (if lc_isDst local then 1 else 0),
                   tm_gmtoff := lc_gmtOffset local,
                   tm_zone := map (char_of \<circ> unat) (c_string (drop (lc_arrbIdx local) (zd_abbreviation data)))\<rparr>)))"


subsection \<open>Zone files\<close>

text \<open>A zone as the file the reader expects: the 32-bit part of a \<open>TZif\<close> file, followed by anything.\<close>

definition be32 :: "int \<Rightarrow> byte list" where
  "be32 i = be_bytes (word_of_int i :: 32 word)"

definition tzif :: "byte \<Rightarrow> byte list \<Rightarrow> int \<times> int \<times> int \<Rightarrow> zone_data \<Rightarrow> byte list \<Rightarrow> byte list" where
  "tzif version reserved cnts data rest =
     (case cnts of (isgmtcnt, isstdcnt, leapcnt) \<Rightarrow>
       bytes_of ''TZif'' @ [version] @ reserved @ be32 isgmtcnt @ be32 isstdcnt @ be32 leapcnt @
       be32 (int (length (zd_transitions data))) @ be32 (int (length (zd_localtimes data))) @
       be32 (int (length (zd_abbreviation data))) @
       concat (map (\<lambda>t. be32 (tr_gmttime t)) (zd_transitions data)) @
       map (\<lambda>t. word_of_nat (tr_localtimeIdx t)) (zd_transitions data) @
       concat (map (\<lambda>l. be32 (lc_gmtOffset l) @ [if lc_isDst l then 1 else 0, word_of_nat (lc_arrbIdx l)])
         (zd_localtimes data)) @
       zd_abbreviation data @ rest)"

text \<open>What a file can hold.\<close>

definition zone_fits :: "zone_data \<Rightarrow> bool" where
  "zone_fits data \<longleftrightarrow>
     length (zd_transitions data) < 2 ^ 31 \<and> length (zd_localtimes data) < 2 ^ 31 \<and>
     length (zd_abbreviation data) < 2 ^ 31 \<and>
     (\<forall>l\<in>set (zd_localtimes data). in_int32 (lc_gmtOffset l) \<and> lc_arrbIdx l < 256) \<and>
     (\<forall>t\<in>set (zd_transitions data).
        in_int32 (tr_gmttime t) \<and> tr_localtimeIdx t < 256 \<and> tr_localtimeIdx t < length (zd_localtimes data) \<and>
        tr_localtime t = tr_gmttime t + lc_gmtOffset (zd_localtimes data ! tr_localtimeIdx t))"

lemma length_be32 [simp]: "length (be32 i) = 4"
  by (simp add: be32_def be_bytes_def)

lemma readInt32_be32 [simp]: "in_int32 i \<Longrightarrow> file_readInt32 (be32 i @ f) = Inr (i, f)"
proof -
  assume i: "in_int32 i"
  have "byte_swap (of_mem_bytes (be32 i) :: 32 word) = of_be_bytes (be32 i)"
    by (rule byte_swap_of_mem_bytes) simp
  also have "\<dots> = (word_of_int i :: 32 word)"
    by (simp add: be32_def)
  finally show ?thesis
    using i by (simp add: file_readInt32_def networkToHost32_def signed_of_int in_int32_def signed_take_bit_int_eq_self)
qed

lemma readUInt8_Cons [simp]: "n < 256 \<Longrightarrow> file_readUInt8 (word_of_nat n # f) = Inr (n, f)"
  by (simp add: file_readUInt8_def unat_of_nat)

lemma readBytes_append [simp]: "int (length bs) = n \<Longrightarrow> readBytes n (bs @ f) = Inr (bs, f)"
  by (auto simp: readBytes_def)

lemma read_list_print:
  assumes "\<And>x f. x \<in> set xs \<Longrightarrow> rd (pr x @ f) = Inr (g x, f)"
  shows "read_list rd (length xs) (concat (map pr xs) @ f) = Inr (map g xs, f)"
  using assms by (induction xs) simp_all

lemma read_local_types_print:
  assumes "\<And>l. l \<in> set ls \<Longrightarrow> in_int32 (lc_gmtOffset l) \<and> lc_arrbIdx l < 256"
  shows "read_local_types (length ls) data
      (concat (map (\<lambda>l. be32 (lc_gmtOffset l) @ [if lc_isDst l then 1 else 0, word_of_nat (lc_arrbIdx l)]) ls) @ f) =
    (data\<lparr>zd_localtimes := zd_localtimes data @ ls\<rparr>, Inr f)"
  using assms
proof (induction ls arbitrary: data)
  case (Cons l ls)
  have "read_local_type (be32 (lc_gmtOffset l) @ (if lc_isDst l then 1 else 0) # word_of_nat (lc_arrbIdx l) # g) =
      Inr (l, g)" for g
    using Cons.prems [of l] by (simp add: read_local_type_def) (simp add: file_readUInt8_def unat_of_nat)
  then show ?case
    using Cons.IH Cons.prems by simp
qed simp

lemma add_transitions_print:
  assumes "\<And>t. t \<in> set ts \<Longrightarrow> tr_localtimeIdx t < length (zd_localtimes data) \<and>
      tr_localtime t = tr_gmttime t + lc_gmtOffset (zd_localtimes data ! tr_localtimeIdx t)"
  shows "add_transitions (map (\<lambda>t. (tr_gmttime t, tr_localtimeIdx t)) ts) data =
    Inr (data\<lparr>zd_transitions := zd_transitions data @ ts\<rparr>)"
  using assms
proof (induction ts arbitrary: data)
  case (Cons t ts)
  then have "tr_localtimeIdx t < length (zd_localtimes data)"
      "\<lparr>tr_gmttime = tr_gmttime t,
        tr_localtime = tr_gmttime t + lc_gmtOffset (zd_localtimes data ! tr_localtimeIdx t),
        tr_localtimeIdx = tr_localtimeIdx t\<rparr> = t"
    by simp_all
  moreover have "add_transitions (map (\<lambda>t. (tr_gmttime t, tr_localtimeIdx t)) ts)
      (data\<lparr>zd_transitions := zd_transitions data @ [t]\<rparr>) =
      Inr (data\<lparr>zd_transitions := zd_transitions data @ t # ts\<rparr>)"
    using Cons.IH [of "data\<lparr>zd_transitions := zd_transitions data @ [t]\<rparr>"] Cons.prems by simp
  ultimately show ?case
    by (simp add: leD)
qed simp

lemma read_header_print:
  assumes "length reserved = 15" and "in_int32 a" and "in_int32 b" and "in_int32 c" and "in_int32 timecnt"
    and "in_int32 typecnt" and "in_int32 charcnt"
  shows "read_header (bytes_of ''TZif'' @ version # reserved @ be32 a @ be32 b @ be32 c @ be32 timecnt @
      be32 typecnt @ be32 charcnt @ f) = Inr (timecnt, typecnt, charcnt, f)"
proof -
  have "readBytes 1 (version # g) = Inr ([version], g)" for g
    using readBytes_append [of "[version]" 1 g] by simp
  moreover have "readBytes 4 (bytes_of ''TZif'' @ g) = Inr (bytes_of ''TZif'', g)" for g
    by (rule readBytes_append) (simp add: bytes_of_def)
  ultimately show ?thesis
    using assms by (simp add: read_header_def)
qed

lemma in_int32_nat: "n < 2 ^ 31 \<Longrightarrow> in_int32 (int n)"
  by (simp add: in_int32_def)

lemma read_times_print:
  assumes "\<And>t. t \<in> set ts \<Longrightarrow> in_int32 (tr_gmttime t) \<and> tr_localtimeIdx t < 256"
  shows "read_times (int (length ts)) (concat (map (\<lambda>t. be32 (tr_gmttime t)) ts) @
      map (\<lambda>t. word_of_nat (tr_localtimeIdx t)) ts @ f) =
    Inr (map (\<lambda>t. (tr_gmttime t, tr_localtimeIdx t)) ts, f)"
proof -
  have "map (\<lambda>t. word_of_nat (tr_localtimeIdx t)) ts = concat (map (\<lambda>t. [word_of_nat (tr_localtimeIdx t) :: byte]) ts)"
    by (induction ts) simp_all
  moreover have "read_list file_readInt32 (length ts) (concat (map (\<lambda>t. be32 (tr_gmttime t)) ts) @ g) =
      Inr (map tr_gmttime ts, g)" for g
    using assms by (intro read_list_print) simp
  moreover have "read_list file_readUInt8 (length ts) (concat (map (\<lambda>t. [word_of_nat (tr_localtimeIdx t)]) ts) @ g) =
      Inr (map tr_localtimeIdx ts, g)" for g
    using assms by (intro read_list_print) simp
  ultimately show ?thesis
    by (simp add: read_times_def zip_map_map zip_same_conv_map)
qed

subsection \<open>The lookup\<close>








subsection \<open>Regular zones\<close>














subsection \<open>Properties\<close>

text \<open>A zone with a summer: daylight-saving time from the first transition to the second.\<close>

definition summer_zone :: zone_data where
  "summer_zone =
     \<lparr>zd_transitions = [\<lparr>tr_gmttime = 1000000, tr_localtime = 985600, tr_localtimeIdx = 1\<rparr>,
        \<lparr>tr_gmttime = 2000000, tr_localtime = 1982000, tr_localtimeIdx = 0\<rparr>],
      zd_localtimes = [\<lparr>lc_gmtOffset = -18000, lc_isDst = False, lc_arrbIdx = 0\<rparr>,
        \<lparr>lc_gmtOffset = -14400, lc_isDst = True, lc_arrbIdx = 4\<rparr>],
      zd_abbreviation = bytes_of ''EST'' @ [0] @ bytes_of ''EDT'' @ [0]\<rparr>"

text \<open>C24: A zone that is written as a zone file is read back as it is, whatever follows it in the file.\<close>

theorem tzif_roundtrip:
  assumes "zone_fits data" and "length reserved = 15" and "in_int32 a" and "in_int32 b" and "in_int32 c"
  shows "new_zone_file (Some (tzif version reserved (a, b, c) data rest)) = Inr (Some data)"
proof -
  let ?ts = "zd_transitions data" and ?ls = "zd_localtimes data" and ?ab = "zd_abbreviation data"
  have fits: "in_int32 (int (length ?ts))" "in_int32 (int (length ?ls))" "in_int32 (int (length ?ab))"
      "\<And>t. t \<in> set ?ts \<Longrightarrow> in_int32 (tr_gmttime t) \<and> tr_localtimeIdx t < 256"
      "\<And>l. l \<in> set ?ls \<Longrightarrow> in_int32 (lc_gmtOffset l) \<and> lc_arrbIdx l < 256"
      "\<And>t. t \<in> set ?ts \<Longrightarrow> tr_localtimeIdx t < length ?ls \<and>
         tr_localtime t = tr_gmttime t + lc_gmtOffset (?ls ! tr_localtimeIdx t)"
    using assms(1) unfolding zone_fits_def by (auto intro: in_int32_nat)
  have "read_zone empty_zone (tzif version reserved (a, b, c) data rest) = (data, Inr ())"
    using add_transitions_print [of ?ts "empty_zone\<lparr>zd_localtimes := ?ls\<rparr>"] fits(6)
    by (simp add: read_zone_def tzif_def read_header_print [OF assms(2-5) fits(1-3)]
        read_times_print [OF fits(4)] read_local_types_print [OF fits(5)])
      (simp add: empty_zone_def)
  then show ?thesis
    by (simp add: new_zone_file_def readTimeZoneFile_def)
qed

theorem tzif_roundtrip_witness:
  "new_zone_file (Some (tzif 50 (replicate 15 0) (0, 0, 0) summer_zone [1, 2, 3])) = Inr (Some summer_zone)"
  by (rule tzif_roundtrip) (simp_all add: zone_fits_def summer_zone_def in_int32_def bytes_of_def)



text \<open>A zone file that is missing or not a zone file is not noticed: \<open>readTimeZoneFile\<close> always returns true, so
  that the zone counts as valid, and the first conversion reads the front of an empty vector.\<close>

theorem bad_zone_file_accepted:
  assumes "\<And>f. zonefile = Some f \<Longrightarrow> take 4 f \<noteq> bytes_of ''TZif''"
  shows "\<exists>tz. new_zone_file zonefile = Inr tz \<and> zone_valid tz \<and> toLocalTime tz t = Inl Undefined"
proof -
  have "read_header f = Inl LogicError" if "zonefile = Some f" for f
    using assms [OF that] by (auto simp: read_header_def readBytes_def)
  then have "new_zone_file zonefile = Inr (Some empty_zone)"
    by (cases zonefile) (simp_all add: new_zone_file_def readTimeZoneFile_def read_zone_def)
  then show ?thesis
    by (simp add: zone_valid_def toLocalTime_def findLocaltime_def empty_zone_def local_type_at_def)
qed

theorem bad_zone_file_accepted_witness:
  "\<exists>tz. new_zone_file None = Inr tz \<and> zone_valid tz \<and> toLocalTime tz 0 = Inl Undefined"
  by (rule bad_zone_file_accepted) simp

end
