(* ===== verification/Log_File.thy ===== *)
theory Log_File
  imports Calendar
begin

section \<open>Files\<close>

text \<open>
  The model of \<open>src/src/muduo/base/FileUtil.cc\<close> (\<open>AppendFile\<close>, \<open>ReadSmallFile\<close>) and of \<open>LogFile.cc\<close>, which
  starts a new file when the current one is large enough or a new day has begun.  The calls of
  the C library are parameters: \<open>fwrite\<close> gives the number of bytes taken, \<open>fopen\<close> whether the file
  could be opened, \<open>time\<close> is the argument \<open>now\<close> of the operations that read the clock.
\<close>

subsection \<open>\<open>AppendFile\<close>\<close>

record append_file =
  af_name :: string
  af_stream :: "byte list"        \<comment> \<open>what the stream has taken\<close>
  af_writtenBytes :: nat
  af_calls :: nat                 \<comment> \<open>calls of \<open>fwrite_unlocked\<close> so far\<close>
  af_errors :: nat                \<comment> \<open>times a line was given up\<close>
  af_flushes :: nat

text \<open>\<open>fwrite\<close>: the number of the call, the number of bytes offered, and the number taken.\<close>

type_synonym fwrite_call = "nat \<Rightarrow> nat \<Rightarrow> nat"

definition new_append_file :: "bool \<Rightarrow> string \<Rightarrow> append_file res" where
  "new_append_file fopen filename =
     asserting fopen
       (Inr \<lparr>af_name = filename, af_stream = [], af_writtenBytes = 0, af_calls = 0, af_errors = 0,
             af_flushes = 0\<rparr>)"

definition af_write :: "fwrite_call \<Rightarrow> byte list \<Rightarrow> append_file \<Rightarrow> nat \<times> append_file" where
  "af_write fwrite logline f =
     (let x = fwrite (af_calls f) (length logline) in
      (x, f\<lparr>af_calls := Suc (af_calls f), af_stream := af_stream f @ take x logline\<rparr>))"

text \<open>The loop of \<open>append\<close>: \<open>rest\<close> is what remains.\<close>

function append_loop :: "fwrite_call \<Rightarrow> byte list \<Rightarrow> append_file \<Rightarrow> append_file" where
  "append_loop fwrite rest f =
     (if rest = [] then f
      else
        let (x, f1) = af_write fwrite rest f in
        if x = 0 then f1\<lparr>af_errors := Suc (af_errors f1)\<rparr> else append_loop fwrite (drop x rest) f1)"
  by auto
termination append_loop
  by (relation "measure (\<lambda>(fw, rest, f). length rest)") auto

declare append_loop.simps [simp del]

definition af_append :: "fwrite_call \<Rightarrow> byte list \<Rightarrow> append_file \<Rightarrow> append_file" where
  "af_append fwrite logline f =
     (let (n, f1) = af_write fwrite logline f;
          f2 = append_loop fwrite (drop n logline) f1
      in f2\<lparr>af_writtenBytes := af_writtenBytes f2 + length logline\<rparr>)"

definition af_flush :: "append_file \<Rightarrow> append_file" where
  "af_flush f = f\<lparr>af_flushes := Suc (af_flushes f)\<rparr>"

subsection \<open>\<open>ReadSmallFile\<close>\<close>

record read_small_file =
  rs_fd :: int
  rs_err :: int

definition kBufferSize :: nat where
  "kBufferSize = 64 * 1024"

text \<open>\<open>opened\<close> is the descriptor, or the error of \<open>open\<close>.\<close>

definition new_read_small_file :: "int + int \<Rightarrow> read_small_file" where
  "new_read_small_file opened =
     (case opened of Inr fd \<Rightarrow> \<lparr>rs_fd = fd, rs_err = 0\<rparr> | Inl err \<Rightarrow> \<lparr>rs_fd = -1, rs_err = err\<rparr>)"

datatype file_kind = Regular | Directory | Other

record stat_buf =
  st_kind :: file_kind
  st_size :: int
  st_mtime :: int
  st_ctime :: int

definition EISDIR :: int where
  "EISDIR = 21"

text \<open>\<open>fstat\<close> with the results it stores: the error, the size, and the times.\<close>

definition stat_part :: "int + stat_buf \<Rightarrow> int \<Rightarrow> int \<times> int option \<times> int option \<times> int option" where
  "stat_part fstat err =
     (case fstat of
        Inr st \<Rightarrow>
          (if st_kind st = Directory then EISDIR else err,
           if st_kind st = Regular then Some (st_size st) else None, Some (st_mtime st), Some (st_ctime st))
      | Inl e \<Rightarrow> (e, None, None, None))"

text \<open>\<open>read\<close>: the position and the number of bytes asked for; an error, or the bytes.\<close>

type_synonym read_call = "nat \<Rightarrow> nat \<Rightarrow> int + byte list"

function read_loop :: "read_call \<Rightarrow> nat \<Rightarrow> byte list \<Rightarrow> int \<Rightarrow> int \<times> byte list" where
  "read_loop read maxSize content err =
     (if length content < maxSize then
        let toRead = min (maxSize - length content) kBufferSize in
        case read (length content) toRead of
          Inl e \<Rightarrow> (e, content)
        | Inr [] \<Rightarrow> (err, content)
        | Inr bs \<Rightarrow> read_loop read maxSize (content @ bs) err
      else (err, content))"
  by pat_completeness auto
termination read_loop
  by (relation "measure (\<lambda>(rd, m, c, e). m - length c)") auto

declare read_loop.simps [simp del]

definition readToString ::
  "int + stat_buf \<Rightarrow> read_call \<Rightarrow> nat \<Rightarrow> bool \<Rightarrow> read_small_file \<Rightarrow>
     (int \<times> byte list) \<times> int option \<times> int option \<times> int option" where
  "readToString fstat read maxSize fileSize f =
     (let err = rs_err f in
      if 0 \<le> rs_fd f then
        let (err1, size, mtime, ctime) = (if fileSize then stat_part fstat err else (err, None, None, None))
        in (read_loop read maxSize [] err1, size, mtime, ctime)
      else ((err, []), None, None, None))"

text \<open>\<open>pread\<close> at the start of the file; the buffer ends with a zero.\<close>

definition readToBuffer :: "int + byte list \<Rightarrow> read_small_file \<Rightarrow> int \<times> int option \<times> byte list" where
  "readToBuffer pread f =
     (let err = rs_err f in
      if 0 \<le> rs_fd f then
        case pread of
          Inr bs \<Rightarrow> (err, Some (int (length bs)), bs @ [0])
        | Inl e \<Rightarrow> (e, None, [0])
      else (err, None, [0]))"

subsection \<open>\<open>LogFile\<close>\<close>

record log_env =
  le_fwrite :: fwrite_call
  le_fopen :: bool
  le_hostname :: string
  le_pid :: int

record log_file =
  lf_basename :: string
  lf_rollSize :: int
  lf_flushInterval :: int
  lf_checkEveryN :: int
  lf_count :: int
  lf_startOfPeriod :: int
  lf_lastRoll :: int
  lf_lastFlush :: int
  lf_file :: "append_file option"
  lf_closed :: "append_file list"    \<comment> \<open>the files before the current one, oldest first\<close>

definition kRollPerSeconds :: int where
  "kRollPerSeconds = 60 * 60 * 24"

text \<open>\<open>strftime\<close> with \<open>.%Y%m%d-%H%M%S.\<close>.\<close>

definition time_part :: "int \<Rightarrow> string" where
  "time_part now =
     (let t = gmtime now in
      ''.'' @ dec_int (tm_year t + 1900) @ fmt_0d 2 (tm_mon t + 1) @ fmt_0d 2 (tm_mday t) @ ''-'' @
      fmt_0d 2 (tm_hour t) @ fmt_0d 2 (tm_min t) @ fmt_0d 2 (tm_sec t) @ ''.'')"

definition getLogFileName :: "log_env \<Rightarrow> string \<Rightarrow> int \<Rightarrow> string" where
  "getLogFileName env basename now =
     basename @ time_part now @ le_hostname env @ ''.'' @ dec_int (le_pid env) @ ''.log''"

definition rollFile :: "log_env \<Rightarrow> int \<Rightarrow> log_file \<Rightarrow> (bool \<times> log_file) res" where
  "rollFile env now l =
     (let filename = getLogFileName env (lf_basename l) now;
          start = now sdiv kRollPerSeconds * kRollPerSeconds
      in if lf_lastRoll l < now then
           bindR (new_append_file (le_fopen env) filename) (\<lambda>f.
             Inr (True, l\<lparr>lf_lastRoll := now, lf_lastFlush := now, lf_startOfPeriod := start,
               lf_closed := lf_closed l @ (case lf_file l of None \<Rightarrow> [] | Some old \<Rightarrow> [old]),
               lf_file := Some f\<rparr>))
         else Inr (False, l))"

definition new_log_file :: "log_env \<Rightarrow> string \<Rightarrow> int \<Rightarrow> int \<Rightarrow> int \<Rightarrow> int \<Rightarrow> log_file res" where
  "new_log_file env basename rollSize flushInterval checkEveryN now =
     asserting (CHR ''/'' \<notin> set basename)
       (bindR (rollFile env now
          \<lparr>lf_basename = basename, lf_rollSize = rollSize, lf_flushInterval = flushInterval,
           lf_checkEveryN = checkEveryN, lf_count = 0, lf_startOfPeriod = 0, lf_lastRoll = 0,
           lf_lastFlush = 0, lf_file = None, lf_closed = []\<rparr>) (\<lambda>(rolled, l). Inr l))"

text \<open>\<open>now\<close> is the clock at the check, \<open>now'\<close> the clock when \<open>rollFile\<close> reads it.\<close>

definition append_unlocked :: "log_env \<Rightarrow> int \<Rightarrow> int \<Rightarrow> byte list \<Rightarrow> log_file \<Rightarrow> log_file res" where
  "append_unlocked env now now' logline l =
     (case lf_file l of
        None \<Rightarrow> Inl Undefined
      | Some f \<Rightarrow>
          let f1 = af_append (le_fwrite env) logline f;
              l1 = l\<lparr>lf_file := Some f1\<rparr>
          in if lf_rollSize l1 < int (af_writtenBytes f1) then
               bindR (rollFile env now' l1) (\<lambda>(rolled, l2). Inr l2)
             else
               let l2 = l1\<lparr>lf_count := lf_count l1 + 1\<rparr> in
               if lf_checkEveryN l2 \<le> lf_count l2 then
                 let l3 = l2\<lparr>lf_count := 0\<rparr>;
                     thisPeriod = now sdiv kRollPerSeconds * kRollPerSeconds
                 in if thisPeriod \<noteq> lf_startOfPeriod l3 then
                      bindR (rollFile env now' l3) (\<lambda>(rolled, l4). Inr l4)
                    else if lf_flushInterval l3 < now - lf_lastFlush l3 then
                      Inr (l3\<lparr>lf_lastFlush := now, lf_file := Some (af_flush f1)\<rparr>)
                    else Inr l3
               else Inr l2)"

text \<open>\<open>append\<close> and \<open>flush\<close> with or without the mutex do the same to the file.\<close>

definition log_append :: "log_env \<Rightarrow> int \<Rightarrow> int \<Rightarrow> byte list \<Rightarrow> log_file \<Rightarrow> log_file res" where
  "log_append env now now' logline l = append_unlocked env now now' logline l"

definition log_flush :: "log_file \<Rightarrow> log_file res" where
  "log_flush l =
     (case lf_file l of None \<Rightarrow> Inl Undefined | Some f \<Rightarrow> Inr (l\<lparr>lf_file := Some (af_flush f)\<rparr>))"

fun log_appends :: "log_env \<Rightarrow> (int \<times> int \<times> byte list) list \<Rightarrow> log_file \<Rightarrow> log_file res" where
  "log_appends env [] l = Inr l"
| "log_appends env ((now, now', logline) # ls) l =
     bindR (log_append env now now' logline l) (log_appends env ls)"

definition log_files :: "log_file \<Rightarrow> append_file list" where
  "log_files l = lf_closed l @ (case lf_file l of None \<Rightarrow> [] | Some f \<Rightarrow> [f])"

subsection \<open>Appending\<close>

text \<open>A stream that takes at least one of the bytes it is offered.\<close>

definition fwrite_works :: "fwrite_call \<Rightarrow> bool" where
  "fwrite_works fwrite \<longleftrightarrow> (\<forall>c n. 0 < n \<longrightarrow> 0 < fwrite c n) \<and> (\<forall>c n. fwrite c n \<le> n)"

lemma append_loop_all:
  assumes "fwrite_works fwrite"
  shows "af_stream (append_loop fwrite rest f) = af_stream f @ rest \<and>
    af_name (append_loop fwrite rest f) = af_name f"
  using assms
proof (induction fwrite rest f rule: append_loop.induct)
  case (1 fwrite rest f)
  show ?case
  proof (cases "rest = []")
    case False
    define x where "x = fwrite (af_calls f) (length rest)"
    define f1 where "f1 = f\<lparr>af_calls := Suc (af_calls f), af_stream := af_stream f @ take x rest\<rparr>"
    have x: "0 < x"
      using 1(2) False by (simp add: fwrite_works_def x_def)
    have step: "af_write fwrite rest f = (x, f1)"
      by (simp add: af_write_def x_def f1_def Let_def)
    have "append_loop fwrite rest f = append_loop fwrite (drop x rest) f1"
      using False x step by (simp add: append_loop.simps [of fwrite rest f])
    then show ?thesis
      using 1(1) [OF False step [symmetric] refl _ 1(2)] x by (simp add: f1_def)
  qed (simp add: append_loop.simps)
qed

lemma af_append_all:
  assumes "fwrite_works fwrite"
  shows "af_stream (af_append fwrite line f) = af_stream f @ line" "af_name (af_append fwrite line f) = af_name f"
  using append_loop_all [OF assms] by (simp_all add: af_append_def af_write_def Let_def)

text \<open>Otherwise the part that was taken is a prefix, and that the rest was given up is counted; the size counts
  the whole line.\<close>

lemma append_loop_prefix:
  "\<exists>k. af_stream (append_loop fwrite rest f) = af_stream f @ take k rest \<and>
     (k < length rest \<longrightarrow> af_errors (append_loop fwrite rest f) = Suc (af_errors f))"
proof (induction fwrite rest f rule: append_loop.induct)
  case (1 fwrite rest f)
  define x where "x = fwrite (af_calls f) (length rest)"
  define f1 where "f1 = f\<lparr>af_calls := Suc (af_calls f), af_stream := af_stream f @ take x rest\<rparr>"
  have step: "af_write fwrite rest f = (x, f1)"
    by (simp add: af_write_def x_def f1_def Let_def)
  consider "rest = []" | "rest \<noteq> []" "x = 0" | "rest \<noteq> []" "x \<noteq> 0"
    by blast
  then show ?case
  proof cases
    case 1
    then show ?thesis by (simp add: append_loop.simps)
  next
    case 2
    then show ?thesis
      using step by (intro exI [of _ 0]) (simp add: append_loop.simps [of fwrite rest f] f1_def)
  next
    case 3
    then obtain k where "af_stream (append_loop fwrite (drop x rest) f1) = af_stream f1 @ take k (drop x rest)"
        "k < length (drop x rest) \<longrightarrow> af_errors (append_loop fwrite (drop x rest) f1) = Suc (af_errors f1)"
      using 1 [OF _ step [symmetric] refl] by blast
    then show ?thesis
      using 3 step by (intro exI [of _ "x + k"])
        (auto simp: append_loop.simps [of fwrite rest f] f1_def take_add)
  qed
qed

subsection \<open>Reading\<close>

text \<open>A \<open>read\<close> of a file with this content: some of the bytes asked for, none only at the end.\<close>

definition reads_file :: "byte list \<Rightarrow> read_call \<Rightarrow> bool" where
  "reads_file file read \<longleftrightarrow>
     (\<forall>pos n. \<exists>k \<le> n. read pos n = Inr (take k (drop pos file)) \<and> (0 < n \<longrightarrow> pos < length file \<longrightarrow> 0 < k))"

lemma read_loop_file:
  assumes "reads_file file read" and "file = content @ rest" and "length content \<le> maxSize"
  shows "read_loop read maxSize content err = (err, take maxSize file)"
  using assms
proof (induction read maxSize content err arbitrary: rest rule: read_loop.induct)
  case (1 read maxSize content err)
  show ?case
  proof (cases "length content < maxSize")
    case True
    define n where "n = min (maxSize - length content) kBufferSize"
    have n: "0 < n" "n \<le> maxSize - length content"
      using True by (simp_all add: n_def kBufferSize_def)
    have "\<exists>k \<le> n. read (length content) n = Inr (take k rest) \<and> (rest \<noteq> [] \<longrightarrow> 0 < k)"
      using 1(2) n(1) 1(3) unfolding reads_file_def by (metis append_eq_conv_conj length_append length_greater_0_conv less_add_same_cancel1)
    then obtain k where k: "k \<le> n" "read (length content) n = Inr (take k rest)" "rest \<noteq> [] \<longrightarrow> 0 < k"
      by blast
    have unfold: "read_loop read maxSize content err = (case read (length content) n of
          Inl e \<Rightarrow> (e, content) | Inr [] \<Rightarrow> (err, content) | Inr bs \<Rightarrow> read_loop read maxSize (content @ bs) err)"
      using True by (subst read_loop.simps) (simp add: n_def Let_def)
    show ?thesis
    proof (cases "take k rest")
      case Nil
      then have "content = take maxSize file"
        using k(3) 1(3) True by (cases rest) auto
      then show ?thesis
        unfolding unfold k(2) Nil by simp
    next
      case (Cons b bs)
      have "file = (content @ b # bs) @ drop k rest"
        using 1(3) Cons by (metis append.assoc append_take_drop_id)
      moreover have "length (b # bs) \<le> k"
        unfolding Cons [symmetric] by simp
      then have "length (content @ b # bs) \<le> maxSize"
        using k(1) n(2) True by simp
      ultimately show ?thesis
        using 1(1) [OF True n_def k(2) [unfolded Cons] refl 1(2)] unfolding unfold k(2) Cons by simp
    qed
  next
    case False
    then have "content = take maxSize file"
      using 1(3,4) by simp
    with False show ?thesis
      by (subst read_loop.simps) simp
  qed
qed

lemma readToString_file:
  assumes "reads_file file read" and "0 \<le> rs_fd f"
  shows "fst (readToString fstat read maxSize False f) = (rs_err f, take maxSize file)"
  using read_loop_file [OF assms(1), where content = "[]"] assms(2) by (simp add: readToString_def)

subsection \<open>File names\<close>

lemma dec_val_zeros: "dec_val (replicate k CHR ''0'' @ ds) = dec_val ds"
  by (induction k) (simp_all add: dec_val_def digit_val_def)

lemma fmt_2:
  assumes "0 \<le> i" and "i < 100"
  shows "length (fmt_0d 2 i) = 2" and "dec_val (fmt_0d 2 i) = nat i"
proof -
  have "length (dec_nat (nat i)) \<le> 2"
    using assms dec_nat_length [of "nat i" 1] by (simp add: nat_less_iff numeral_2_eq_2)
  then show "length (fmt_0d 2 i) = 2"
    using assms by (simp add: fmt_0d_def Let_def)
  show "dec_val (fmt_0d 2 i) = nat i"
    using assms by (simp add: fmt_0d_def Let_def dec_val_zeros)
qed

lemma fmt_2_inj:
  assumes "0 \<le> i" "i < 100" "0 \<le> j" "j < 100" and "fmt_0d 2 i = fmt_0d 2 j"
  shows "i = j"
  using fmt_2(2) [OF assms(1,2)] fmt_2(2) [OF assms(3,4)] assms by simp

lemma gmtime_ranges:
  "0 \<le> tm_mon (gmtime t) + 1" "tm_mon (gmtime t) + 1 < 100" "0 \<le> tm_mday (gmtime t)" "tm_mday (gmtime t) < 100"
  "0 \<le> tm_hour (gmtime t)" "tm_hour (gmtime t) < 100" "0 \<le> tm_min (gmtime t)" "tm_min (gmtime t) < 100"
  "0 \<le> tm_sec (gmtime t)" "tm_sec (gmtime t) < 100"
proof -
  obtain y m d where c: "civil (t div 86400) = (y, m, d)"
    by (rule prod_cases3)
  have ok: "1 \<le> m" "m \<le> 12" "1 \<le> d" "d \<le> days_in_month y m"
    using civil_facts(1) [of "t div 86400"] c by simp_all
  moreover have "days_in_month y m \<le> 31"
    by (simp add: days_in_month_def)
  moreover have "0 \<le> t mod 86400" "t mod 86400 < 86400"
    by simp_all
  moreover from this have "0 \<le> t mod 86400 div 3600" "t mod 86400 div 3600 \<le> 86399 div 3600"
    by (simp_all only: pos_imp_zdiv_nonneg_iff zdiv_mono1)
  ultimately show "0 \<le> tm_mon (gmtime t) + 1" "tm_mon (gmtime t) + 1 < 100" "0 \<le> tm_mday (gmtime t)"
      "tm_mday (gmtime t) < 100" "0 \<le> tm_hour (gmtime t)" "tm_hour (gmtime t) < 100" "0 \<le> tm_min (gmtime t)"
      "tm_min (gmtime t) < 100" "0 \<le> tm_sec (gmtime t)" "tm_sec (gmtime t) < 100"
    by (simp_all add: gmtime_def c Let_def order.strict_trans [OF pos_mod_bound])
qed

lemma time_part_inj:
  assumes "time_part a = time_part b"
  shows "a = b"
proof -
  note len = fmt_2(1) [OF gmtime_ranges(1,2)] fmt_2(1) [OF gmtime_ranges(3,4)] fmt_2(1) [OF gmtime_ranges(5,6)]
    fmt_2(1) [OF gmtime_ranges(7,8)] fmt_2(1) [OF gmtime_ranges(9,10)]
  note inj = fmt_2_inj [OF gmtime_ranges(1,2,1,2)] fmt_2_inj [OF gmtime_ranges(3,4,3,4)]
    fmt_2_inj [OF gmtime_ranges(5,6,5,6)] fmt_2_inj [OF gmtime_ranges(7,8,7,8)]
    fmt_2_inj [OF gmtime_ranges(9,10,9,10)]
  have "dec_int (tm_year (gmtime a) + 1900) = dec_int (tm_year (gmtime b) + 1900)"
    "fmt_0d 2 (tm_mon (gmtime a) + 1) = fmt_0d 2 (tm_mon (gmtime b) + 1)"
    "fmt_0d 2 (tm_mday (gmtime a)) = fmt_0d 2 (tm_mday (gmtime b))"
    "fmt_0d 2 (tm_hour (gmtime a)) = fmt_0d 2 (tm_hour (gmtime b))"
    "fmt_0d 2 (tm_min (gmtime a)) = fmt_0d 2 (tm_min (gmtime b))"
    "fmt_0d 2 (tm_sec (gmtime a)) = fmt_0d 2 (tm_sec (gmtime b))"
    using assms by (simp_all add: time_part_def Let_def append_eq_append_conv len)
  then have "tm_year (gmtime a) = tm_year (gmtime b)" "tm_mon (gmtime a) = tm_mon (gmtime b)"
    "tm_mday (gmtime a) = tm_mday (gmtime b)" "tm_hour (gmtime a) = tm_hour (gmtime b)"
    "tm_min (gmtime a) = tm_min (gmtime b)" "tm_sec (gmtime a) = tm_sec (gmtime b)"
    using dec_int_inj inj by simp_all
  then have "timegm (gmtime a) = timegm (gmtime b)"
    by (rule timegm_cong)
  then show ?thesis
    by (simp add: timegm_gmtime)
qed

lemma getLogFileName_inj: "getLogFileName env basename a = getLogFileName env basename b \<longleftrightarrow> a = b"
  using time_part_inj by (auto simp: getLogFileName_def)

subsection \<open>Rolling\<close>

text \<open>The lines, in groups: one group for each file; and the times at which the files were started.\<close>

definition log_inv :: "log_env \<Rightarrow> byte list list \<Rightarrow> log_file \<Rightarrow> bool" where
  "log_inv env lines l \<longleftrightarrow>
     lf_file l \<noteq> None \<and>
     (\<exists>groups. concat groups = lines \<and> map af_stream (log_files l) = map concat groups) \<and>
     (\<exists>ts. map af_name (log_files l) = map (getLogFileName env (lf_basename l)) ts \<and>
        sorted_wrt (<) ts \<and> (\<forall>t\<in>set ts. t \<le> lf_lastRoll l))"

lemma rollFile_inv:
  assumes "log_inv env lines l" and "le_fopen env"
  shows "\<exists>r l'. rollFile env now l = Inr (r, l') \<and> log_inv env lines l'"
proof (cases "lf_lastRoll l < now")
  case True
  obtain old where old: "lf_file l = Some old"
    using assms(1) by (auto simp: log_inv_def)
  obtain groups ts where g: "concat groups = lines" "map af_stream (log_files l) = map concat groups"
      "map af_name (log_files l) = map (getLogFileName env (lf_basename l)) ts" "sorted_wrt (<) ts"
      "\<forall>t\<in>set ts. t \<le> lf_lastRoll l"
    using assms(1) by (auto simp: log_inv_def)
  obtain f where f: "new_append_file (le_fopen env) (getLogFileName env (lf_basename l) now) = Inr f"
      "af_stream f = []" "af_name f = getLogFileName env (lf_basename l) now"
    using assms(2) by (simp add: new_append_file_def)
  obtain l' where l': "rollFile env now l = Inr (True, l')" "lf_file l' = Some f" "log_files l' = log_files l @ [f]"
      "lf_basename l' = lf_basename l" "lf_lastRoll l' = now"
    using True old f(1) by (simp add: rollFile_def Let_def log_files_def)
  have "concat (groups @ [[]]) = lines \<and> map af_stream (log_files l') = map concat (groups @ [[]])"
    using g(1,2) l'(3) f(2) by simp
  moreover have "map af_name (log_files l') = map (getLogFileName env (lf_basename l')) (ts @ [now]) \<and>
      sorted_wrt (<) (ts @ [now]) \<and> (\<forall>t\<in>set (ts @ [now]). t \<le> lf_lastRoll l')"
    using g(3-5) l'(3-5) f(3) True by (auto simp: sorted_wrt_append)
  ultimately show ?thesis
    using l'(1,2) unfolding log_inv_def by blast
qed (use assms(1) in \<open>auto simp: rollFile_def Let_def\<close>)

lemma log_append_inv:
  assumes "log_inv env lines l" and "le_fopen env" and "fwrite_works (le_fwrite env)"
  shows "\<exists>l'. log_append env now now' line l = Inr l' \<and> log_inv env (lines @ [line]) l'"
proof -
  obtain f where f: "lf_file l = Some f"
    using assms(1) by (auto simp: log_inv_def)
  obtain groups ts where g: "concat groups = lines" "map af_stream (log_files l) = map concat groups"
      "map af_name (log_files l) = map (getLogFileName env (lf_basename l)) ts" "sorted_wrt (<) ts"
      "\<forall>t\<in>set ts. t \<le> lf_lastRoll l"
    using assms(1) by (auto simp: log_inv_def)
  define f1 where "f1 = af_append (le_fwrite env) line f"
  have "groups \<noteq> []"
    using g(2) f by (auto simp: log_files_def)
  then obtain gs g0 where gs: "groups = gs @ [g0]"
    by (cases groups rule: rev_cases) auto
  have app: "log_inv env (lines @ [line]) l2"
    if "lf_file l2 = Some f2" "af_stream f2 = af_stream f1" "af_name f2 = af_name f1"
      "lf_closed l2 = lf_closed l" "lf_basename l2 = lf_basename l" "lf_lastRoll l2 = lf_lastRoll l" for l2 f2
  proof -
    have "concat (gs @ [g0 @ [line]]) = lines @ [line] \<and>
        map af_stream (log_files l2) = map concat (gs @ [g0 @ [line]])"
      using g(1,2) gs f that af_append_all(1) [OF assms(3)] by (simp add: log_files_def f1_def)
    moreover have "map af_name (log_files l2) = map af_name (log_files l)"
      using f that af_append_all(2) [OF assms(3)] by (simp add: log_files_def f1_def)
    ultimately show ?thesis
      using g(3-5) that(1,5,6) unfolding log_inv_def by (metis option.distinct(1))
  qed
  have roll: "\<exists>l'. bindR (rollFile env now' l2) (\<lambda>(rolled, l3). Inr l3) = Inr l' \<and> log_inv env (lines @ [line]) l'"
    if "log_inv env (lines @ [line]) l2" for l2
    using rollFile_inv [OF that assms(2), of now'] by auto
  show ?thesis
    unfolding log_append_def append_unlocked_def f option.case Let_def f1_def [symmetric]
    by (auto intro!: roll app simp: af_flush_def)
qed

lemma log_appends_inv:
  assumes "log_inv env lines l" and "le_fopen env" and "fwrite_works (le_fwrite env)"
  shows "\<exists>l'. log_appends env ls l = Inr l' \<and> log_inv env (lines @ map (\<lambda>(a, b, c). c) ls) l'"
  using assms(1)
proof (induction ls arbitrary: l lines)
  case (Cons x ls)
  obtain a b c where x: "x = (a, b, c)"
    by (rule prod_cases3)
  obtain l1 where "log_append env a b c l = Inr l1" "log_inv env (lines @ [c]) l1"
    using log_append_inv [OF Cons.prems assms(2,3)] by blast
  with Cons.IH [of "lines @ [c]" l1] x show ?case by auto
qed auto

subsection \<open>Properties\<close>

text \<open>C27: On a stream that takes what it is given, in one or several pieces, every line appended to the log is
  written, whole and in order: the files, whose names all differ, hold consecutive groups of
  lines.\<close>

theorem log_files_complete:
  assumes "le_fopen env" and "fwrite_works (le_fwrite env)" and "CHR ''/'' \<notin> set basename" and "0 < now"
  shows "\<exists>l0 l groups. new_log_file env basename rollSize flushInterval checkEveryN now = Inr l0 \<and>
    log_appends env ls l0 = Inr l \<and> concat groups = map (\<lambda>(a, b, line). line) ls \<and>
    map af_stream (log_files l) = map concat groups \<and> distinct (map af_name (log_files l))"
proof -
  obtain l0 where l0: "new_log_file env basename rollSize flushInterval checkEveryN now = Inr l0" "log_inv env [] l0"
  proof -
    let ?l = "\<lparr>lf_basename = basename, lf_rollSize = rollSize, lf_flushInterval = flushInterval,
      lf_checkEveryN = checkEveryN, lf_count = 0, lf_startOfPeriod = 0, lf_lastRoll = 0,
      lf_lastFlush = 0, lf_file = None, lf_closed = []\<rparr>"
    obtain f l1 where l1: "rollFile env now ?l = Inr (True, l1)" "log_files l1 = [f]" "lf_file l1 = Some f"
        "af_stream f = []" "af_name f = getLogFileName env basename now" "lf_basename l1 = basename" "lf_lastRoll l1 = now"
      using assms(1,4) by (simp add: rollFile_def new_append_file_def Let_def log_files_def)
    have "log_inv env [] l1"
      unfolding log_inv_def using l1(2-7)
      by (intro conjI exI [of _ "[[]]"] exI [of _ "[now]"]) simp_all
    then show thesis
      using that l1(1) assms(3) by (simp add: new_log_file_def)
  qed
  obtain l where l: "log_appends env ls l0 = Inr l" "log_inv env (map (\<lambda>(a, b, line). line) ls) l"
    using log_appends_inv [OF l0(2) assms(1,2), of ls] by auto
  obtain groups ts where g: "concat groups = map (\<lambda>(a, b, line). line) ls"
      "map af_stream (log_files l) = map concat groups"
      "map af_name (log_files l) = map (getLogFileName env (lf_basename l)) ts" "sorted_wrt (<) ts"
    using l(2) by (auto simp: log_inv_def)
  have "distinct ts"
    using g(4) strict_sorted_iff by blast
  then have "distinct (map af_name (log_files l))"
    unfolding g(3) distinct_map by (auto simp: inj_on_def getLogFileName_inj)
  with l0(1) l(1) g(1,2) show ?thesis by blast
qed

text \<open>A stream that takes two bytes at a time.\<close>

definition two_bytes :: fwrite_call where
  "two_bytes c n = min 2 n"

theorem log_files_complete_witness:
  "\<exists>l0 l groups. new_log_file \<lparr>le_fwrite = two_bytes, le_fopen = True, le_hostname = ''h'', le_pid = 1\<rparr>
       ''db'' 4 3 1 100 = Inr l0 \<and>
     log_appends \<lparr>le_fwrite = two_bytes, le_fopen = True, le_hostname = ''h'', le_pid = 1\<rparr>
       [(200, 200, [65, 66, 67, 68, 69]), (300, 300, [70])] l0 = Inr l \<and>
     concat groups = [[65, 66, 67, 68, 69], [70]] \<and> map af_stream (log_files l) = map concat groups"
  using log_files_complete [of "\<lparr>le_fwrite = two_bytes, le_fopen = True, le_hostname = ''h'', le_pid = 1\<rparr>" "''db''" 100
      4 3 1 "[(200, 200, [65, 66, 67, 68, 69]), (300, 300, [70])]"]
  by (auto simp: fwrite_works_def two_bytes_def)

end
