(* ===== verification/Log_Stream.thy ===== *)
theory Log_Stream
  imports Decimal
begin

section \<open>Formatting of log lines\<close>

text \<open>
  The model of \<open>src/src/muduo/base/LogStream.h\<close> and \<open>LogStream.cc\<close>: the buffer of fixed size and the
  insertion operators.  \<open>fb_mem\<close> is the array \<open>data_\<close>, whatever it held before, and \<open>fb_cur\<close> the position of
  \<open>cur_\<close> in it.  A write beyond the array is \<open>Undefined\<close>.
\<close>

subsection \<open>\<open>FixedBuffer\<close>\<close>

record fixed_buffer =
  fb_mem :: "byte list"
  fb_cur :: nat

definition kSmallBuffer :: nat where
  "kSmallBuffer = 4000"

definition kLargeBuffer :: nat where
  "kLargeBuffer = 4000 * 1000"

definition new_fixed_buffer :: "byte list \<Rightarrow> fixed_buffer" where
  "new_fixed_buffer mem = \<lparr>fb_mem = mem, fb_cur = 0\<rparr>"

definition fb_avail :: "fixed_buffer \<Rightarrow> nat" where
  "fb_avail b = length (fb_mem b) - fb_cur b"

definition fb_append :: "byte list \<Rightarrow> fixed_buffer \<Rightarrow> fixed_buffer" where
  "fb_append buf b =
     (if length buf < fb_avail b
      then b\<lparr>fb_mem := write_at (fb_cur b) buf (fb_mem b), fb_cur := fb_cur b + length buf\<rparr>
      else b)"

definition fb_add :: "nat \<Rightarrow> fixed_buffer \<Rightarrow> fixed_buffer" where
  "fb_add len b = b\<lparr>fb_cur := fb_cur b + len\<rparr>"

definition fb_reset :: "fixed_buffer \<Rightarrow> fixed_buffer" where
  "fb_reset b = b\<lparr>fb_cur := 0\<rparr>"

definition fb_bzero :: "fixed_buffer \<Rightarrow> fixed_buffer" where
  "fb_bzero b = b\<lparr>fb_mem := replicate (length (fb_mem b)) 0\<rparr>"

definition fb_toString :: "fixed_buffer \<Rightarrow> byte list" where
  "fb_toString b = take (fb_cur b) (fb_mem b)"

text \<open>Writing through \<open>current()\<close>.\<close>

definition fb_poke :: "nat \<Rightarrow> byte list \<Rightarrow> fixed_buffer \<Rightarrow> fixed_buffer res" where
  "fb_poke off xs b =
     (if fb_cur b + off + length xs \<le> length (fb_mem b)
      then Inr (b\<lparr>fb_mem := write_at (fb_cur b + off) xs (fb_mem b)\<rparr>) else Inl Undefined)"

definition fb_debugString :: "fixed_buffer \<Rightarrow> (byte list \<times> fixed_buffer) res" where
  "fb_debugString b = bindR (fb_poke 0 [0] b) (\<lambda>b1. Inr (c_string (fb_mem b1), b1))"

subsection \<open>Conversion of integers\<close>

definition digits :: string where
  "digits = ''9876543210123456789''"

definition digitsHex :: string where
  "digitsHex = ''0123456789ABCDEF''"

text \<open>The digits in the order in which the loop of \<open>convert\<close> writes them; \<open>zero\<close> points to the middle of
  \<open>digits\<close>, and the remainder has the sign of the value.\<close>

function convert_loop :: "int \<Rightarrow> string" where
  "convert_loop i =
     (let lsd = i smod 10; j = i sdiv 10 in
      digits ! nat (9 + lsd) # (if j \<noteq> 0 then convert_loop j else []))"
  by auto

lemma sdiv_abs: "\<bar>i sdiv 10\<bar> = \<bar>i\<bar> div 10" "\<bar>i smod 10\<bar> = \<bar>i\<bar> mod (10 :: int)"
  by (auto simp: signed_divide_int_def signed_modulo_int_def abs_mult sgn_if)

termination convert_loop
proof (relation "measure (\<lambda>i. nat \<bar>i\<bar>)")
  fix i lsd j :: int
  assume j: "j = i sdiv 10" "j \<noteq> 0"
  then have "\<bar>j\<bar> = \<bar>i\<bar> div 10" "0 < \<bar>i\<bar>"
    using sdiv_abs(1) [of i] by (auto simp: signed_divide_int_def)
  then show "(j, i) \<in> measure (\<lambda>i. nat \<bar>i\<bar>)"
    by simp
qed simp

declare convert_loop.simps [simp del]

definition convert_digits :: "int \<Rightarrow> string" where
  "convert_digits value = rev (convert_loop value @ (if value < 0 then ''-'' else []))"

fun convertHex_loop :: "nat \<Rightarrow> string" where
  "convertHex_loop i =
     (let lsd = i mod 16; j = i div 16 in digitsHex ! lsd # (if j \<noteq> 0 then convertHex_loop j else []))"

declare convertHex_loop.simps [simp del]

text \<open>Both write the characters and a terminating zero at \<open>off\<close> behind the current position, and return the
  number of characters.\<close>

definition convert :: "nat \<Rightarrow> int \<Rightarrow> fixed_buffer \<Rightarrow> (nat \<times> fixed_buffer) res" where
  "convert off value b =
     (let text = convert_digits value in
      bindR (fb_poke off (bytes_of text @ [0]) b) (\<lambda>b1. Inr (length text, b1)))"

definition convertHex :: "nat \<Rightarrow> nat \<Rightarrow> fixed_buffer \<Rightarrow> (nat \<times> fixed_buffer) res" where
  "convertHex off value b =
     (let text = rev (convertHex_loop value) in
      bindR (fb_poke off (bytes_of text @ [0]) b) (\<lambda>b1. Inr (length text, b1)))"

subsection \<open>\<open>LogStream\<close>\<close>

definition kMaxNumericSize :: nat where
  "kMaxNumericSize = 32"

definition formatInteger :: "int \<Rightarrow> fixed_buffer \<Rightarrow> fixed_buffer res" where
  "formatInteger v b =
     (if kMaxNumericSize \<le> fb_avail b
      then bindR (convert 0 v b) (\<lambda>(len, b1). Inr (fb_add len b1)) else Inr b)"

definition put_pointer :: "nat \<Rightarrow> fixed_buffer \<Rightarrow> fixed_buffer res" where
  "put_pointer v b =
     (if kMaxNumericSize \<le> fb_avail b
      then
        bindR (fb_poke 0 (bytes_of ''0x'') b) (\<lambda>b1.
        bindR (convertHex 2 v b1) (\<lambda>(len, b2). Inr (fb_add (len + 2) b2)))
      else Inr b)"

text \<open>\<open>snprintf\<close> with \<open>%.12g\<close> is the argument \<open>text\<close>, what it would print; it writes at most 32 bytes.\<close>

definition put_double :: "string \<Rightarrow> fixed_buffer \<Rightarrow> fixed_buffer res" where
  "put_double text b =
     (if kMaxNumericSize \<le> fb_avail b
      then
        bindR (fb_poke 0 (bytes_of (take (kMaxNumericSize - 1) text) @ [0]) b) (\<lambda>b1.
          Inr (fb_add (length text) b1))
      else Inr b)"

text \<open>\<open>Fmt\<close>: \<open>text\<close> is what its \<open>snprintf\<close> would print.\<close>

definition new_fmt :: "string \<Rightarrow> string res" where
  "new_fmt text = asserting (length text < 32) (Inr text)"

datatype log_item =
    LBool bool
  | LShort int
  | LInt int
  | LPointer nat
  | LDouble string
  | LChar byte
  | LCStr "byte list option"
  | LStr "byte list"
  | LFmt string

text \<open>The insertion operators; the short ones convert to \<open>int\<close>, and a C string is its characters.\<close>

fun log_put :: "log_item \<Rightarrow> fixed_buffer \<Rightarrow> fixed_buffer res" where
  "log_put (LBool v) b = Inr (fb_append (bytes_of (if v then ''1'' else ''0'')) b)"
| "log_put (LShort v) b = formatInteger v b"
| "log_put (LInt v) b = formatInteger v b"
| "log_put (LPointer p) b = put_pointer p b"
| "log_put (LDouble text) b = put_double text b"
| "log_put (LChar v) b = Inr (fb_append [v] b)"
| "log_put (LCStr str) b =
     Inr (fb_append (case str of Some s \<Rightarrow> s | None \<Rightarrow> bytes_of ''(null)'') b)"
| "log_put (LStr v) b = Inr (fb_append v b)"
| "log_put (LFmt text) b = bindR (new_fmt text) (\<lambda>t. Inr (fb_append (bytes_of t) b))"

fun log_puts :: "log_item list \<Rightarrow> fixed_buffer \<Rightarrow> fixed_buffer res" where
  "log_puts [] b = Inr b"
| "log_puts (v # vs) b = bindR (log_put v b) (log_puts vs)"

subsection \<open>The text of an item\<close>

definition hex_char :: "nat \<Rightarrow> char" where
  "hex_char d = digitsHex ! d"

fun hex_nat :: "nat \<Rightarrow> string" where
  "hex_nat n = (if n < 16 then [hex_char n] else hex_nat (n div 16) @ [hex_char (n mod 16)])"

declare hex_nat.simps [simp del]

fun item_text :: "log_item \<Rightarrow> byte list" where
  "item_text (LBool v) = bytes_of (if v then ''1'' else ''0'')"
| "item_text (LShort v) = bytes_of (dec_int v)"
| "item_text (LInt v) = bytes_of (dec_int v)"
| "item_text (LPointer p) = bytes_of (''0x'' @ hex_nat p)"
| "item_text (LDouble text) = bytes_of text"
| "item_text (LChar v) = [v]"
| "item_text (LCStr str) = (case str of Some s \<Rightarrow> s | None \<Rightarrow> bytes_of ''(null)'')"
| "item_text (LStr v) = v"
| "item_text (LFmt text) = bytes_of text"

text \<open>Numbers are printed when there is room for any number, everything else when there is room for it and
  one more byte.\<close>

fun item_room :: "log_item \<Rightarrow> nat" where
  "item_room (LShort v) = kMaxNumericSize"
| "item_room (LInt v) = kMaxNumericSize"
| "item_room (LPointer p) = kMaxNumericSize"
| "item_room (LDouble text) = kMaxNumericSize"
| "item_room v = Suc (length (item_text v))"

text \<open>The values that fit into the C++ types, and the widths that \<open>%.12g\<close> and \<open>Fmt\<close> are used for.\<close>

fun item_ok :: "log_item \<Rightarrow> bool" where
  "item_ok (LShort v) \<longleftrightarrow> - (2 ^ 15) \<le> v \<and> v < 2 ^ 16"
| "item_ok (LInt v) \<longleftrightarrow> - (2 ^ 63) \<le> v \<and> v < 2 ^ 64"
| "item_ok (LPointer p) \<longleftrightarrow> p < 2 ^ 64"
| "item_ok (LDouble text) \<longleftrightarrow> length text < 32"
| "item_ok (LFmt text) \<longleftrightarrow> length text < 32"
| "item_ok v \<longleftrightarrow> True"

fun kept :: "nat \<Rightarrow> log_item list \<Rightarrow> byte list" where
  "kept room [] = []"
| "kept room (v # vs) =
     (if item_room v \<le> room then item_text v @ kept (room - length (item_text v)) vs else kept room vs)"

subsection \<open>Integers\<close>

lemma nth_digits: "-10 < lsd \<Longrightarrow> lsd < 10 \<Longrightarrow> digits ! nat (9 + lsd) = digit_char (nat \<bar>lsd\<bar>)"
proof -
  assume "-10 < lsd" "lsd < 10"
  then have "lsd \<in> set [-9..9]"
    by (simp only: set_upto atLeastAtMost_iff) simp
  moreover have "list_all (\<lambda>i. digits ! nat (9 + i) = digit_char (nat \<bar>i\<bar>)) [-9..9]"
    by code_simp
  ultimately show ?thesis
    unfolding list_all_iff by blast
qed

lemma convert_loop_dec: "rev (convert_loop i) = dec_nat (nat \<bar>i\<bar>)"
proof (induction i rule: convert_loop.induct)
  case (1 i)
  have "\<bar>i smod 10\<bar> < 10"
    by (simp add: sdiv_abs)
  then have "-10 < i smod 10" "i smod 10 < 10"
    by linarith+
  then have "digits ! nat (9 + i smod 10) = digit_char (nat (\<bar>i\<bar> mod 10))"
    using nth_digits [of "i smod 10"] by (simp add: sdiv_abs)
  moreover have "nat (\<bar>i\<bar> mod 10) = nat \<bar>i\<bar> mod 10" "nat \<bar>i sdiv 10\<bar> = nat \<bar>i\<bar> div 10"
    by (simp_all add: sdiv_abs nat_mod_distrib nat_div_distrib)
  moreover have "i sdiv 10 = 0 \<longleftrightarrow> nat \<bar>i\<bar> < 10"
    using sdiv_abs(1) [of i] by auto
  ultimately show ?case
    using 1 [OF refl refl] by (simp add: convert_loop.simps [of i] dec_nat.simps [of "nat \<bar>i\<bar>"] Let_def)
qed

lemma convert_digits_dec: "convert_digits v = dec_int v"
  by (simp add: convert_digits_def dec_int_def convert_loop_dec)

lemma convertHex_loop_hex: "rev (convertHex_loop n) = hex_nat n"
proof (induction n rule: convertHex_loop.induct)
  case (1 n)
  then show ?case
    by (simp add: convertHex_loop.simps [of n] hex_nat.simps [of n] Let_def hex_char_def div_eq_0_iff)
qed

lemma hex_nat_length: "n < 16 ^ Suc k \<Longrightarrow> length (hex_nat n) \<le> Suc k"
proof (induction k arbitrary: n)
  case 0
  then show ?case by (simp add: hex_nat.simps)
next
  case (Suc k)
  show ?case
  proof (cases "n < 16")
    case False
    have "n div 16 < 16 ^ Suc k"
      using Suc.prems by (simp add: less_mult_imp_div_less)
    from Suc.IH [OF this] False show ?thesis
      by (simp add: hex_nat.simps [of n])
  qed (simp add: hex_nat.simps)
qed

lemma dec_int_length: "- (2 ^ 63) \<le> v \<Longrightarrow> v < 2 ^ 64 \<Longrightarrow> length (dec_int v) \<le> 20"
  using dec_nat_length [of "nat (- v)" 18] dec_nat_length [of "nat v" 19] by (auto simp: dec_int_def)

subsection \<open>The buffer\<close>

definition fb_ok :: "fixed_buffer \<Rightarrow> bool" where
  "fb_ok b \<longleftrightarrow> fb_cur b \<le> length (fb_mem b)"

text \<open>\<open>xs\<close> was appended to the buffer.\<close>

definition fb_grown :: "byte list \<Rightarrow> fixed_buffer \<Rightarrow> fixed_buffer \<Rightarrow> bool" where
  "fb_grown xs b b' \<longleftrightarrow>
     fb_ok b' \<and> length (fb_mem b') = length (fb_mem b) \<and> fb_toString b' = fb_toString b @ xs"

lemma fb_toString_length: "fb_ok b \<Longrightarrow> length (fb_toString b) = fb_cur b"
  by (simp add: fb_ok_def fb_toString_def)

lemma fb_grown_avail: "fb_ok b \<Longrightarrow> fb_grown xs b b' \<Longrightarrow> fb_avail b' = fb_avail b - length xs"
  using fb_toString_length [of b] fb_toString_length [of b'] by (simp add: fb_grown_def fb_avail_def)

lemma fb_grown_Nil: "fb_ok b \<Longrightarrow> fb_grown [] b b"
  by (simp add: fb_grown_def)

lemma fb_append_grown:
  assumes "fb_ok b"
  shows "fb_grown (if length buf < fb_avail b then buf else []) b (fb_append buf b)"
  using assms by (auto simp: fb_grown_def fb_append_def fb_ok_def fb_avail_def fb_toString_def write_at_def)

lemma fb_poke_grown:
  assumes "fb_ok b" and "length (text @ tail) \<le> fb_avail b"
  obtains b1 where "fb_poke 0 (text @ tail) b = Inr b1" and "fb_grown text b (fb_add (length text) b1)"
proof (rule that)
  show "fb_poke 0 (text @ tail) b = Inr (b\<lparr>fb_mem := write_at (fb_cur b) (text @ tail) (fb_mem b)\<rparr>)"
    using assms by (simp add: fb_poke_def fb_ok_def fb_avail_def)
  show "fb_grown text b (fb_add (length text) (b\<lparr>fb_mem := write_at (fb_cur b) (text @ tail) (fb_mem b)\<rparr>))"
    using assms by (simp add: fb_ok_def fb_avail_def fb_grown_def fb_add_def fb_toString_def write_at_def)
qed

lemma write_at_twice:
  assumes "i + length xs + length ys \<le> length mem"
  shows "write_at (i + length xs) ys (write_at i xs mem) = write_at i (xs @ ys) mem"
  using assms by (simp add: write_at_def ac_simps)

lemma length_bytes_of [simp]: "length (bytes_of s) = length s"
  by (simp add: bytes_of_def)

lemma formatInteger_grown:
  assumes "fb_ok b" and "- (2 ^ 63) \<le> v" and "v < 2 ^ 64"
  shows "\<exists>b'. formatInteger v b = Inr b' \<and>
    fb_grown (if kMaxNumericSize \<le> fb_avail b then bytes_of (dec_int v) else []) b b'"
proof (cases "kMaxNumericSize \<le> fb_avail b")
  case True
  then have "length (bytes_of (dec_int v) @ [0]) \<le> fb_avail b"
    using dec_int_length [OF assms(2,3)] by (simp add: kMaxNumericSize_def)
  from fb_poke_grown [OF assms(1) this] obtain b1 where "fb_poke 0 (bytes_of (dec_int v) @ [0]) b = Inr b1"
      "fb_grown (bytes_of (dec_int v)) b (fb_add (length (bytes_of (dec_int v))) b1)" by blast
  with True show ?thesis
    by (simp add: formatInteger_def convert_def convert_digits_dec Let_def)
qed (use assms(1) in \<open>simp add: formatInteger_def fb_grown_Nil\<close>)

lemma put_pointer_grown:
  assumes "fb_ok b" and "p < 2 ^ 64"
  shows "\<exists>b'. put_pointer p b = Inr b' \<and>
    fb_grown (if kMaxNumericSize \<le> fb_avail b then bytes_of (''0x'' @ hex_nat p) else []) b b'"
proof (cases "kMaxNumericSize \<le> fb_avail b")
  case True
  define hex where "hex = bytes_of (hex_nat p)"
  have len: "length hex \<le> 16"
    using hex_nat_length [of p 15] assms(2) by (simp add: hex_def)
  have room: "fb_cur b + (2 + length hex + 1) \<le> length (fb_mem b)"
    using True assms(1) len by (simp add: fb_ok_def fb_avail_def kMaxNumericSize_def)
  then have "length ((bytes_of ''0x'' @ hex) @ [0]) \<le> fb_avail b"
    by (simp add: fb_avail_def)
  from fb_poke_grown [OF assms(1) this]
  obtain b2 where b2: "fb_poke 0 (bytes_of ''0x'' @ hex @ [0]) b = Inr b2"
      "fb_grown (bytes_of ''0x'' @ hex) b (fb_add (2 + length hex) b2)"
    by (metis append.assoc length_append length_bytes_of length_Cons list.size(3) numeral_2_eq_2)
  have "fb_poke 0 (bytes_of ''0x'') b = Inr (b\<lparr>fb_mem := write_at (fb_cur b) (bytes_of ''0x'') (fb_mem b)\<rparr>)"
    using room by (simp add: fb_poke_def)
  moreover have "fb_poke 2 (hex @ [0]) (b\<lparr>fb_mem := write_at (fb_cur b) (bytes_of ''0x'') (fb_mem b)\<rparr>) = Inr b2"
    using room b2(1) write_at_twice [of "fb_cur b" "bytes_of ''0x''" "hex @ [0]" "fb_mem b"]
    by (simp add: fb_poke_def)
  ultimately show ?thesis
    using True b2(2)
    by (simp add: put_pointer_def convertHex_def convertHex_loop_hex hex_def Let_def add.commute)
      (simp add: bytes_of_def)
qed (use assms(1) in \<open>simp add: put_pointer_def fb_grown_Nil\<close>)

lemma put_double_grown:
  assumes "fb_ok b" and "length text < 32"
  shows "\<exists>b'. put_double text b = Inr b' \<and>
    fb_grown (if kMaxNumericSize \<le> fb_avail b then bytes_of text else []) b b'"
proof (cases "kMaxNumericSize \<le> fb_avail b")
  case True
  then have "length (bytes_of text @ [0]) \<le> fb_avail b"
    using assms(2) by (simp add: kMaxNumericSize_def)
  from fb_poke_grown [OF assms(1) this] obtain b1 where "fb_poke 0 (bytes_of text @ [0]) b = Inr b1"
      "fb_grown (bytes_of text) b (fb_add (length (bytes_of text)) b1)" by blast
  with True assms(2) show ?thesis
    by (simp add: put_double_def kMaxNumericSize_def)
qed (use assms(1) in \<open>simp add: put_double_def fb_grown_Nil\<close>)

lemma log_put_grown:
  assumes "fb_ok b" and "item_ok v"
  shows "\<exists>b'. log_put v b = Inr b' \<and> fb_grown (if item_room v \<le> fb_avail b then item_text v else []) b b'"
proof -
  have plain: "\<exists>b'. Inr (fb_append xs b) = (Inr b' :: fixed_buffer res) \<and>
      fb_grown (if Suc (length xs) \<le> fb_avail b then xs else []) b b'" for xs
    using fb_append_grown [OF assms(1), of xs] by (simp add: Suc_le_eq)
  show ?thesis
  proof (cases v)
    case (LShort i)
    with formatInteger_grown [OF assms(1), of i] assms(2) show ?thesis by (simp split del: if_split cong: if_cong)
  next
    case (LInt i)
    with formatInteger_grown [OF assms(1), of i] assms(2) show ?thesis by (simp split del: if_split cong: if_cong)
  next
    case (LPointer p)
    with put_pointer_grown [OF assms(1), of p] assms(2) show ?thesis by (simp split del: if_split cong: if_cong)
  next
    case (LDouble t)
    with put_double_grown [OF assms(1), of t] assms(2) show ?thesis by (simp split del: if_split cong: if_cong)
  qed (use plain [of "item_text v"] assms(2) in \<open>simp_all add: new_fmt_def split del: if_split cong: if_cong\<close>)
qed

lemma log_puts_kept:
  assumes "fb_ok b" and "list_all item_ok vs"
  shows "\<exists>b'. log_puts vs b = Inr b' \<and> fb_grown (kept (fb_avail b) vs) b b'"
  using assms
proof (induction vs arbitrary: b)
  case (Cons v vs)
  obtain b1 where b1: "log_put v b = Inr b1" "fb_grown (if item_room v \<le> fb_avail b then item_text v else []) b b1"
    using log_put_grown [OF Cons.prems(1)] Cons.prems(2) by auto
  obtain b2 where b2: "log_puts vs b1 = Inr b2" "fb_grown (kept (fb_avail b1) vs) b1 b2"
    using Cons.IH [of b1] Cons.prems(2) b1(2) by (auto simp: fb_grown_def)
  then show ?case
    using b1 fb_grown_avail [OF Cons.prems(1) b1(2)] by (auto simp: fb_grown_def)
qed (simp add: fb_grown_Nil)

subsection \<open>Properties\<close>

text \<open>C26: A log line is the concatenation of the texts of its items, integers in decimal and pointers in
  hexadecimal; an item that does not fit is left out as a whole, and no operator writes beyond
  the buffer.\<close>

theorem log_line_text:
  assumes "list_all item_ok vs"
  shows "\<exists>b. log_puts vs (new_fixed_buffer mem) = Inr b \<and> fb_toString b = kept (length mem) vs \<and>
    length (fb_mem b) = length mem \<and> length (fb_toString b) \<le> length mem"
proof -
  have "fb_ok (new_fixed_buffer mem)"
    by (simp add: fb_ok_def new_fixed_buffer_def)
  from log_puts_kept [OF this assms] show ?thesis
    by (auto simp: fb_grown_def new_fixed_buffer_def fb_avail_def fb_toString_def)
qed

theorem log_line_text_witness:
  "\<exists>b. log_puts [LInt (-42), LStr (bytes_of '' at ''), LPointer 255] (new_fixed_buffer (replicate 64 0)) = Inr b \<and>
     fb_toString b = bytes_of ''-42 at 0xFF''"
proof -
  have "kept 64 [LInt (-42), LStr (bytes_of '' at ''), LPointer 255] = bytes_of ''-42 at 0xFF''"
    by code_simp
  then show ?thesis
    using log_line_text [of "[LInt (-42), LStr (bytes_of '' at ''), LPointer 255]" "replicate 64 0"] by auto
qed

end
