(* ===== verification/Async_Logging.thy ===== *)
theory Async_Logging
  imports Log_Stream
begin

section \<open>Asynchronous logging\<close>

text \<open>
  The model of \<open>src/src/muduo/base/AsyncLogging.cc\<close>: threads append lines to a buffer in memory, and one
  thread writes the buffers to the log file.  The regions under the mutex are single steps; the
  wait for the condition may end at any time, because it has a timeout.  \<open>al_output\<close> is the list of the
  calls of \<open>LogFile::append\<close>, \<open>al_dropped\<close> what the thread threw away.
\<close>

subsection \<open>State and operations\<close>

datatype async_pc = NotRunning | AtHead | InLoop | Swapped | Exited

record async_log =
  al_running :: bool
  al_currentBuffer :: fixed_buffer
  al_nextBuffer :: "fixed_buffer option"
  al_buffers :: "fixed_buffer list"
  al_newBuffer1 :: "fixed_buffer option"
  al_newBuffer2 :: "fixed_buffer option"
  al_buffersToWrite :: "fixed_buffer list"
  al_pc :: async_pc
  al_output :: "byte list list"
  al_dropped :: "byte list list"
  al_flushes :: nat

definition large_buffer :: fixed_buffer where
  "large_buffer = fb_bzero (new_fixed_buffer (replicate kLargeBuffer 0))"

definition new_async_log :: async_log where
  "new_async_log =
     \<lparr>al_running = False, al_currentBuffer = large_buffer, al_nextBuffer = Some large_buffer,
      al_buffers = [], al_newBuffer1 = None, al_newBuffer2 = None, al_buffersToWrite = [],
      al_pc = NotRunning, al_output = [], al_dropped = [], al_flushes = 0\<rparr>"

text \<open>\<open>mem\<close> is the memory of a new buffer.\<close>

definition async_append :: "byte list \<Rightarrow> byte list \<Rightarrow> async_log \<Rightarrow> async_log" where
  "async_append mem logline a =
     (if length logline < fb_avail (al_currentBuffer a) then
        a\<lparr>al_currentBuffer := fb_append logline (al_currentBuffer a)\<rparr>
      else
        let a1 = a\<lparr>al_buffers := al_buffers a @ [al_currentBuffer a]\<rparr>;
            fresh = (case al_nextBuffer a1 of Some b \<Rightarrow> b | None \<Rightarrow> new_fixed_buffer mem)
        in a1\<lparr>al_nextBuffer := None, al_currentBuffer := fb_append logline fresh\<rparr>)"

definition async_start :: "async_log \<Rightarrow> async_log" where
  "async_start a = a\<lparr>al_running := True\<rparr>"

definition async_stop :: "async_log \<Rightarrow> async_log" where
  "async_stop a = a\<lparr>al_running := False\<rparr>"

text \<open>\<open>threadFunc\<close> in four parts: up to the loop, its condition, the region under the mutex, and the rest of
  the body.\<close>

definition thread_enter :: "async_log \<Rightarrow> async_log res" where
  "thread_enter a =
     asserting (al_running a)
       (Inr (a\<lparr>al_newBuffer1 := Some large_buffer, al_newBuffer2 := Some large_buffer,
               al_buffersToWrite := [], al_pc := AtHead\<rparr>))"

definition thread_head :: "async_log \<Rightarrow> async_log" where
  "thread_head a =
     (if al_running a then a\<lparr>al_pc := InLoop\<rparr>
      else a\<lparr>al_flushes := Suc (al_flushes a), al_pc := Exited\<rparr>)"

definition empty_buffer :: "fixed_buffer option \<Rightarrow> bool" where
  "empty_buffer p \<longleftrightarrow> (case p of Some b \<Rightarrow> fb_cur b = 0 | None \<Rightarrow> False)"

definition thread_swap :: "async_log \<Rightarrow> async_log res" where
  "thread_swap a =
     asserting (empty_buffer (al_newBuffer1 a))
    (asserting (empty_buffer (al_newBuffer2 a))
    (asserting (al_buffersToWrite a = [])
      (let a1 = a\<lparr>al_currentBuffer := the (al_newBuffer1 a), al_newBuffer1 := None,
                   al_buffersToWrite := al_buffers a @ [al_currentBuffer a], al_buffers := []\<rparr>;
           a2 = (if al_nextBuffer a1 = None
                 then a1\<lparr>al_nextBuffer := al_newBuffer2 a1, al_newBuffer2 := None\<rparr> else a1)
       in Inr (a2\<lparr>al_pc := Swapped\<rparr>))))"

text \<open>A missing buffer is taken from the back of the buffers that were written.\<close>

definition refill :: "fixed_buffer option \<Rightarrow> fixed_buffer list \<Rightarrow> (fixed_buffer option \<times> fixed_buffer list) res" where
  "refill p bs =
     (case p of
        Some b \<Rightarrow> Inr (p, bs)
      | None \<Rightarrow> asserting (bs \<noteq> []) (Inr (Some (fb_reset (last bs)), butlast bs)))"

definition thread_write :: "byte list \<Rightarrow> async_log \<Rightarrow> async_log res" where
  "thread_write note_text a =
     asserting (al_buffersToWrite a \<noteq> [])
       (let a1 = (if 25 < length (al_buffersToWrite a)
                  then a\<lparr>al_output := al_output a @ [note_text],
                         al_dropped := al_dropped a @ map fb_toString (drop 2 (al_buffersToWrite a)),
                         al_buffersToWrite := take 2 (al_buffersToWrite a)\<rparr>
                  else a);
            a2 = a1\<lparr>al_output := al_output a1 @ map fb_toString (al_buffersToWrite a1)\<rparr>;
            bs = (if 2 < length (al_buffersToWrite a2) then take 2 (al_buffersToWrite a2)
                  else al_buffersToWrite a2)
        in bindR (refill (al_newBuffer1 a2) bs) (\<lambda>(new1, bs1).
           bindR (refill (al_newBuffer2 a2) bs1) (\<lambda>(new2, bs2).
             Inr (a2\<lparr>al_newBuffer1 := new1, al_newBuffer2 := new2, al_buffersToWrite := [],
                     al_flushes := Suc (al_flushes a2), al_pc := AtHead\<rparr>))))"

subsection \<open>Interleavings\<close>

text \<open>\<open>async_reach lines a\<close>: \<open>lines\<close> were appended, in this order, and the state is \<open>a\<close>.  A line that does not fit
  into an empty buffer would be dropped by \<open>FixedBuffer::append\<close> and is excluded.\<close>

inductive async_reach :: "byte list list \<Rightarrow> async_log \<Rightarrow> bool" where
  created: "async_reach [] new_async_log"
| started: "async_reach ls a \<Longrightarrow> al_pc a = NotRunning \<Longrightarrow> thread_enter (async_start a) = Inr a' \<Longrightarrow> async_reach ls a'"
| appended: "async_reach ls a \<Longrightarrow> length line < kLargeBuffer \<Longrightarrow> length mem = kLargeBuffer \<Longrightarrow>
    async_reach (ls @ [line]) (async_append mem line a)"
| head: "async_reach ls a \<Longrightarrow> al_pc a = AtHead \<Longrightarrow> async_reach ls (thread_head a)"
| swap: "async_reach ls a \<Longrightarrow> al_pc a = InLoop \<Longrightarrow> thread_swap a = Inr a' \<Longrightarrow> async_reach ls a'"
| writes: "async_reach ls a \<Longrightarrow> al_pc a = Swapped \<Longrightarrow> thread_write note_text a = Inr a' \<Longrightarrow> async_reach ls a'"
| stopped: "async_reach ls a \<Longrightarrow> async_reach ls (async_stop a)"

definition pending_text :: "async_log \<Rightarrow> byte list" where
  "pending_text a = concat (map fb_toString (al_buffersToWrite a)) @ concat (map fb_toString (al_buffers a)) @
     fb_toString (al_currentBuffer a)"

definition large_ok :: "fixed_buffer \<Rightarrow> bool" where
  "large_ok b \<longleftrightarrow> fb_ok b \<and> length (fb_mem b) = kLargeBuffer"



lemma large_buffer_ok: "large_ok large_buffer" "fb_cur large_buffer = 0" "fb_toString large_buffer = []"
  by (simp_all add: large_ok_def large_buffer_def fb_bzero_def new_fixed_buffer_def fb_ok_def fb_toString_def)


lemma large_append:
  assumes "large_ok b" and "length line < fb_avail b"
  shows "large_ok (fb_append line b) \<and> fb_toString (fb_append line b) = fb_toString b @ line"
  using fb_append_grown [of b line] assms by (simp add: large_ok_def fb_grown_def)







subsection \<open>Properties\<close>



text \<open>Stopping can lose lines: a line appended while the thread is writing, after which the logging is
  stopped, is never written, because the thread leaves its loop without looking at the buffers
  again.\<close>

theorem stop_loses_lines:
  assumes "length line < kLargeBuffer" and "line \<noteq> []"
  shows "\<exists>a. async_reach [line] a \<and> al_pc a = Exited \<and> al_dropped a = [] \<and> concat (al_output a) = [] \<and>
    pending_text a = line"
proof -
  let ?b = large_buffer
  define a1 where "a1 = new_async_log\<lparr>al_running := True, al_newBuffer1 := Some ?b, al_newBuffer2 := Some ?b, al_pc := AtHead\<rparr>"
  define a2 where "a2 = a1\<lparr>al_pc := InLoop\<rparr>"
  define a3 where "a3 = a2\<lparr>al_newBuffer1 := None, al_buffersToWrite := [?b], al_pc := Swapped\<rparr>"
  define a4 where "a4 = async_stop (async_append (replicate kLargeBuffer 0) line a3)"
  define a5 where "a5 = a4\<lparr>al_output := [[]], al_newBuffer1 := Some (fb_reset ?b), al_buffersToWrite := [],
    al_flushes := 1, al_pc := AtHead\<rparr>"
  have r1: "async_reach [] a1"
    by (rule async_reach.started [OF async_reach.created])
      (simp_all add: a1_def thread_enter_def async_start_def new_async_log_def)
  have r2: "async_reach [] a2"
    using async_reach.head [OF r1] by (simp add: a2_def a1_def thread_head_def)
  have "thread_swap a2 = Inr a3"
    by (simp add: thread_swap_def empty_buffer_def a3_def a2_def a1_def new_async_log_def large_buffer_ok Let_def)
  then have r3: "async_reach [] a3"
    using async_reach.swap [OF r2] by (simp add: a2_def)
  have r4: "async_reach [line] a4"
    using async_reach.stopped [OF async_reach.appended [OF r3 assms(1), of "replicate kLargeBuffer 0"]]
    by (simp add: a4_def)
  have avail: "length line < fb_avail ?b"
    using assms(1) large_buffer_ok by (simp add: fb_avail_def large_ok_def)
  then have a4: "al_currentBuffer a4 = fb_append line ?b" "al_buffersToWrite a4 = [?b]" "al_newBuffer1 a4 = None"
      "al_newBuffer2 a4 = Some ?b" "al_pc a4 = Swapped" "al_output a4 = []" "al_dropped a4 = []" "al_buffers a4 = []"
      "al_flushes a4 = 0" "\<not> al_running a4"
    by (simp_all add: a4_def a3_def a2_def a1_def async_stop_def async_append_def new_async_log_def)
  have "thread_write [] a4 = Inr a5"
    by (simp add: thread_write_def a4 refill_def a5_def large_buffer_ok)
  then have r5: "async_reach [line] a5"
    using async_reach.writes [OF r4 a4(5)] by blast
  have "fb_toString (fb_append line ?b) = line"
    using large_append [OF large_buffer_ok(1) avail] by (simp add: large_buffer_ok)
  then show ?thesis
    using async_reach.head [OF r5] a4
    by (intro exI [of _ "thread_head a5"]) (simp add: a5_def thread_head_def pending_text_def)
qed

theorem stop_loses_lines_witness:
  "\<exists>a. async_reach [[65]] a \<and> al_pc a = Exited \<and> concat (al_output a) = [] \<and> pending_text a = [65]"
  using stop_loses_lines [of "[65]"] by (auto simp: kLargeBuffer_def)

end
