(* ===== verification/Mutex_Lock.thy ===== *)
theory Mutex_Lock
  imports Muduo_Prelude
begin

section \<open>The mutex and the condition\<close>

text \<open>
  \<open>MutexLock\<close>, its guards (\<open>src/src/muduo/base/Mutex.h\<close>) and \<open>Condition\<close> (\<open>Condition.h\<close>, \<open>Condition.cc\<close>), one
  step for every access to the pthread mutex or to \<open>holder_\<close>.  The pthread mutex is held by at most
  one thread: it is taken when it is free, and given up and taken again around the sleep in
  \<open>pthread_cond_wait\<close>, which may end at any time.  The theory shows that \<open>holder_\<close> names a thread exactly while it
  is inside its critical region, which is what \<open>assertLocked\<close> and the atomic regions of the
  other theories rely on.
\<close>

subsection \<open>State\<close>

record mutex_lock =
  mutex :: "nat option"      \<comment> \<open>the thread that holds the pthread mutex\<close>
  holder :: int              \<comment> \<open>\<open>holder_\<close>, a thread id or 0\<close>

definition new_mutex :: mutex_lock where
  "new_mutex = \<lparr>mutex = None, holder = 0\<rparr>"

definition destroy_mutex :: "mutex_lock \<Rightarrow> unit res" where
  "destroy_mutex m = asserting (holder m = 0) (if mutex m = None then Inr () else Inl Assertion)"

definition isLockedByThisThread :: "int \<Rightarrow> mutex_lock \<Rightarrow> bool" where
  "isLockedByThisThread tid m \<longleftrightarrow> holder m = tid"

definition assertLocked :: "int \<Rightarrow> mutex_lock \<Rightarrow> unit res" where
  "assertLocked tid m = asserting (isLockedByThisThread tid m) (Inr ())"

definition unassignHolder :: "mutex_lock \<Rightarrow> mutex_lock" where
  "unassignHolder m = m\<lparr>holder := 0\<rparr>"

definition assignHolder :: "int \<Rightarrow> mutex_lock \<Rightarrow> mutex_lock" where
  "assignHolder tid m = m\<lparr>holder := tid\<rparr>"

text \<open>\<open>pthread_mutex_lock\<close> returns when the mutex is free; \<open>pthread_mutex_unlock\<close> gives it up.\<close>

definition pthread_lock :: "nat \<Rightarrow> mutex_lock \<Rightarrow> mutex_lock option" where
  "pthread_lock i m = (if mutex m = None then Some (m\<lparr>mutex := Some i\<rparr>) else None)"

definition pthread_unlock :: "mutex_lock \<Rightarrow> mutex_lock" where
  "pthread_unlock m = m\<lparr>mutex := None\<rparr>"

subsection \<open>Threads\<close>

datatype lock_pc =
    Away             \<comment> \<open>outside of the guard\<close>
  | Acquired         \<comment> \<open>\<open>lock\<close> before \<open>assignHolder\<close>\<close>
  | Region           \<comment> \<open>inside of the guard\<close>
  | Releasing        \<comment> \<open>\<open>unlock\<close> after \<open>unassignHolder\<close>\<close>
  | GoingToSleep     \<comment> \<open>\<open>wait\<close> after the constructor of \<open>UnassignGuard\<close>\<close>
  | Asleep           \<comment> \<open>in \<open>pthread_cond_wait\<close>\<close>
  | Woken            \<comment> \<open>\<open>wait\<close> before the destructor of \<open>UnassignGuard\<close>\<close>

fun owns_mutex :: "lock_pc \<Rightarrow> bool" where
  "owns_mutex Away = False"
| "owns_mutex Asleep = False"
| "owns_mutex _ = True"

record locking =
  the_lock :: mutex_lock
  lock_pcs :: "lock_pc list"

text \<open>
  The step of thread \<open>i\<close> at its program counter, where \<open>waits\<close> says whether a thread in its region calls
  \<open>wait\<close> or leaves.  \<open>None\<close>: the thread is blocked.
\<close>

fun lock_action :: "int \<Rightarrow> nat \<Rightarrow> bool \<Rightarrow> lock_pc \<Rightarrow> mutex_lock \<Rightarrow> (lock_pc \<times> mutex_lock) option" where
  "lock_action tid i waits Away m = map_option (Pair Acquired) (pthread_lock i m)"
| "lock_action tid i waits Acquired m = Some (Region, assignHolder tid m)"
| "lock_action tid i waits Region m = Some (if waits then GoingToSleep else Releasing, unassignHolder m)"
| "lock_action tid i waits Releasing m = Some (Away, pthread_unlock m)"
| "lock_action tid i waits GoingToSleep m = Some (Asleep, pthread_unlock m)"
| "lock_action tid i waits Asleep m = map_option (Pair Woken) (pthread_lock i m)"
| "lock_action tid i waits Woken m = Some (Region, assignHolder tid m)"

inductive lock_step :: "(nat \<Rightarrow> int) \<Rightarrow> locking \<Rightarrow> locking \<Rightarrow> bool" for tid where
  "i < length (lock_pcs s) \<Longrightarrow>
   lock_action (tid i) i waits (lock_pcs s ! i) (the_lock s) = Some (pc, m) \<Longrightarrow>
   lock_step tid s (s\<lparr>the_lock := m, lock_pcs := (lock_pcs s)[i := pc]\<rparr>)"

inductive lock_reach :: "(nat \<Rightarrow> int) \<Rightarrow> nat \<Rightarrow> locking \<Rightarrow> bool" for tid n where
  lock_fresh: "lock_reach tid n \<lparr>the_lock = new_mutex, lock_pcs = replicate n Away\<rparr>"
| lock_next: "lock_reach tid n s \<Longrightarrow> lock_step tid s s' \<Longrightarrow> lock_reach tid n s'"

inductive_cases lock_stepE: "lock_step tid s s'"

subsection \<open>Time limits of \<open>waitForSeconds\<close>\<close>

text \<open>The absolute time, from the clock and the interval in nanoseconds; C++ division truncates.\<close>

definition kNanoSecondsPerSecond :: int where
  "kNanoSecondsPerSecond = 1000000000"

definition wait_deadline :: "int \<times> int \<Rightarrow> int \<Rightarrow> int \<times> int" where
  "wait_deadline now ns =
     (fst now + (snd now + ns) sdiv kNanoSecondsPerSecond, (snd now + ns) smod kNanoSecondsPerSecond)"

lemma wait_deadline_exact:
  assumes "0 \<le> ns" and "0 \<le> snd now"
  shows "0 \<le> snd (wait_deadline now ns)" and "snd (wait_deadline now ns) < kNanoSecondsPerSecond"
    and "fst (wait_deadline now ns) * kNanoSecondsPerSecond + snd (wait_deadline now ns) =
      fst now * kNanoSecondsPerSecond + snd now + ns"
proof -
  have "(snd now + ns) sdiv kNanoSecondsPerSecond = (snd now + ns) div kNanoSecondsPerSecond"
    "(snd now + ns) smod kNanoSecondsPerSecond = (snd now + ns) mod kNanoSecondsPerSecond"
    using assms by (simp_all add: kNanoSecondsPerSecond_def signed_divide_int_def signed_modulo_int_def
        minus_mult_div_eq_mod mult.commute sgn_if)
  then show "0 \<le> snd (wait_deadline now ns)" "snd (wait_deadline now ns) < kNanoSecondsPerSecond"
    "fst (wait_deadline now ns) * kNanoSecondsPerSecond + snd (wait_deadline now ns) =
      fst now * kNanoSecondsPerSecond + snd now + ns"
    by (simp_all add: wait_deadline_def kNanoSecondsPerSecond_def distrib_right)
qed

subsection \<open>The holder is the thread in the region\<close>

definition lock_inv :: "(nat \<Rightarrow> int) \<Rightarrow> locking \<Rightarrow> bool" where
  "lock_inv tid s \<longleftrightarrow>
     (\<forall>i < length (lock_pcs s). owns_mutex (lock_pcs s ! i) = (mutex (the_lock s) = Some i)) \<and>
     (\<forall>i. mutex (the_lock s) = Some i \<longrightarrow> i < length (lock_pcs s) \<and>
        holder (the_lock s) = (if lock_pcs s ! i = Region then tid i else 0)) \<and>
     (mutex (the_lock s) = None \<longrightarrow> holder (the_lock s) = 0)"

lemma lock_inv_owner:
  "lock_inv tid s \<Longrightarrow> i < length (lock_pcs s) \<Longrightarrow> owns_mutex (lock_pcs s ! i) \<longleftrightarrow> mutex (the_lock s) = Some i"
  unfolding lock_inv_def by blast

lemma lock_inv_holder:
  "lock_inv tid s \<Longrightarrow> mutex (the_lock s) = Some i \<Longrightarrow>
     i < length (lock_pcs s) \<and> holder (the_lock s) = (if lock_pcs s ! i = Region then tid i else 0)"
  "lock_inv tid s \<Longrightarrow> mutex (the_lock s) = None \<Longrightarrow> holder (the_lock s) = 0"
  unfolding lock_inv_def by blast+

lemma lock_inv_update:
  assumes "lock_inv tid s" and "i < length (lock_pcs s)"
    and "owns_mutex pc \<longleftrightarrow> mutex m = Some i"
    and "mutex m \<in> {None, Some i}" and "mutex (the_lock s) \<in> {None, Some i}"
    and "holder m = (if pc = Region then tid i else 0)"
  shows "lock_inv tid (s\<lparr>the_lock := m, lock_pcs := (lock_pcs s)[i := pc]\<rparr>)"
proof -
  have "\<not> owns_mutex (lock_pcs s ! j)" if "j \<noteq> i" "j < length (lock_pcs s)" for j
    using lock_inv_owner [OF assms(1) that(2)] assms(5) that(1) by auto
  then have "owns_mutex ((lock_pcs s)[i := pc] ! j) = (mutex m = Some j)" if "j < length (lock_pcs s)" for j
    using assms(2-4) that by (cases "j = i") auto
  moreover have "mutex m = None \<Longrightarrow> pc \<noteq> Region"
    using assms(3) by (cases pc) auto
  moreover have "j = i" if "mutex m = Some j" for j
    using assms(4) that by auto
  ultimately show ?thesis
    using assms(2,6) by (auto simp: lock_inv_def)
qed

lemma lock_action_inv:
  assumes "lock_inv tid s" and "i < length (lock_pcs s)"
    and "lock_action (tid i) i waits (lock_pcs s ! i) (the_lock s) = Some (pc, m)"
  shows "lock_inv tid (s\<lparr>the_lock := m, lock_pcs := (lock_pcs s)[i := pc]\<rparr>)"
proof -
  note owner = lock_inv_owner [OF assms(1,2)] and held = lock_inv_holder [OF assms(1)]
  show ?thesis
  proof (cases "owns_mutex (lock_pcs s ! i)")
    case True
    then have m: "mutex (the_lock s) = Some i" "holder (the_lock s) = (if lock_pcs s ! i = Region then tid i else 0)"
      using owner held(1) by auto
    show ?thesis
      by (rule lock_inv_update [OF assms(1,2)]; cases "lock_pcs s ! i")
        (use assms(3) True m in \<open>auto simp: pthread_unlock_def assignHolder_def unassignHolder_def split: if_splits\<close>)
  next
    case False
    then have "lock_pcs s ! i = Away \<and> pc = Acquired \<or> lock_pcs s ! i = Asleep \<and> pc = Woken"
      "mutex (the_lock s) = None" "m = (the_lock s)\<lparr>mutex := Some i\<rparr>"
      using assms(3) by (cases "lock_pcs s ! i"; auto simp: pthread_lock_def split: if_splits)+
    then show ?thesis
      using held(2) by (intro lock_inv_update [OF assms(1,2)]) auto
  qed
qed

lemma lock_reach_inv: "lock_reach tid n s \<Longrightarrow> lock_inv tid s \<and> length (lock_pcs s) = n"
proof (induction rule: lock_reach.induct)
  case (lock_next s s')
  then show ?case
    by (auto elim!: lock_stepE intro: lock_action_inv)
qed (auto simp: lock_inv_def new_mutex_def)

text \<open>C28: Under every interleaving of threads that lock, wait on conditions and unlock, at most one thread is
  inside of a critical region.  \<open>isLockedByThisThread\<close>, asked by any thread, is true exactly for the thread in the
  region, so \<open>assertLocked\<close> passes there and nowhere else.  A mutex that no thread is
  using passes the assertions of its destructor.  Thread ids are positive and differ.\<close>

theorem mutex_exclusion:
  assumes "lock_reach tid n s" and "\<forall>i < n. 0 < tid i" and "inj_on tid {..<n}"
  shows "(\<forall>i < n. \<forall>j < n. lock_pcs s ! i = Region \<longrightarrow> lock_pcs s ! j = Region \<longrightarrow> i = j) \<and>
    (\<forall>i < n. isLockedByThisThread (tid i) (the_lock s) \<longleftrightarrow> lock_pcs s ! i = Region) \<and>
    (\<forall>i < n. assertLocked (tid i) (the_lock s) = Inr () \<longleftrightarrow> lock_pcs s ! i = Region) \<and>
    ((\<forall>i < n. lock_pcs s ! i = Away) \<longrightarrow> destroy_mutex (the_lock s) = Inr ())"
proof -
  have inv: "lock_inv tid s" and n: "length (lock_pcs s) = n"
    using lock_reach_inv [OF assms(1)] by auto
  have owner: "mutex (the_lock s) = Some i" if "i < n" "lock_pcs s ! i = Region" for i
    using lock_inv_owner [OF inv] that n by fastforce
  have holds: "isLockedByThisThread (tid i) (the_lock s) \<longleftrightarrow> lock_pcs s ! i = Region" if "i < n" for i
  proof
    assume "isLockedByThisThread (tid i) (the_lock s)"
    then have "holder (the_lock s) = tid i" and "holder (the_lock s) \<noteq> 0"
      using assms(2) that by (auto simp: isLockedByThisThread_def)
    then obtain k where "k < n" "lock_pcs s ! k = Region" "tid k = tid i"
      using lock_inv_holder [OF inv] n by (cases "mutex (the_lock s)") (auto split: if_splits)
    then show "lock_pcs s ! i = Region"
      using inj_onD [OF assms(3), of k i] that by auto
  next
    assume "lock_pcs s ! i = Region"
    then show "isLockedByThisThread (tid i) (the_lock s)"
      using lock_inv_holder(1) [OF inv owner [OF that]] by (simp add: isLockedByThisThread_def)
  qed
  moreover have "destroy_mutex (the_lock s) = Inr ()" if "\<forall>i < n. lock_pcs s ! i = Away"
  proof -
    have "mutex (the_lock s) = None"
      using lock_inv_holder(1) [OF inv] lock_inv_owner [OF inv] n that
      by (cases "mutex (the_lock s)") force+
    then show ?thesis
      using lock_inv_holder(2) [OF inv] by (simp add: destroy_mutex_def)
  qed
  moreover have "i = j" if "i < n" "j < n" "lock_pcs s ! i = Region" "lock_pcs s ! j = Region" for i j
    using owner [OF that(1,3)] owner [OF that(2,4)] by simp
  ultimately show ?thesis
    by (auto simp: assertLocked_def asserting_def)
qed

text \<open>Two threads, the first in its region.\<close>

definition locked_once :: locking where
  "locked_once = \<lparr>the_lock = \<lparr>mutex = Some 0, holder = 7\<rparr>, lock_pcs = [Region, Away]\<rparr>"

lemma locked_once_reach: "lock_reach (\<lambda>i. 7 + int i) 2 locked_once"
proof -
  let ?s = "\<lparr>the_lock = \<lparr>mutex = Some 0, holder = 0\<rparr>, lock_pcs = [Acquired, Away]\<rparr>"
  have "lock_step (\<lambda>i. 7 + int i) \<lparr>the_lock = new_mutex, lock_pcs = replicate 2 Away\<rparr> ?s"
    using lock_step.intros [of 0 "\<lparr>the_lock = new_mutex, lock_pcs = replicate 2 Away\<rparr>" "\<lambda>i. 7 + int i"]
    by (simp add: new_mutex_def pthread_lock_def numeral_2_eq_2)
  moreover have "lock_step (\<lambda>i. 7 + int i) ?s locked_once"
    using lock_step.intros [of 0 ?s "\<lambda>i. 7 + int i"] by (simp add: locked_once_def assignHolder_def)
  ultimately show ?thesis
    using lock_fresh lock_next by blast
qed

theorem mutex_exclusion_witness:
  "isLockedByThisThread 7 (the_lock locked_once) \<and> \<not> isLockedByThisThread 8 (the_lock locked_once)"
  using mutex_exclusion [OF locked_once_reach]
  by (auto simp: inj_on_def locked_once_def isLockedByThisThread_def)

end
