(* ===== verification/Monitor.thy ===== *)
theory Monitor
  imports Muduo_Prelude
begin

section \<open>Monitors\<close>

text \<open>
  A mutex with conditions (\<open>src/src/muduo/base/Mutex.h\<close>, \<open>Condition.h\<close>).  A region under the mutex is one
  step of the thread that runs it.  \<open>wait\<close> puts the thread into the waiting set of the condition;
  \<open>notify\<close> takes an arbitrary thread out of it, if there is one, and \<open>notifyAll\<close> takes out all; a thread
  that was taken out competes for the mutex again and checks its condition anew.  A thread may
  also be woken for no reason.

  Threads are the positions of a list of program counters.  The second half of the theory is the
  contract of a queue guarded by a monitor, with its consequences for every interleaving.
\<close>

subsection \<open>Waiting and waking\<close>

definition count_pcs :: "('p \<Rightarrow> bool) \<Rightarrow> 'p list \<Rightarrow> nat" where
  "count_pcs P pcs = length (filter P pcs)"

text \<open>\<open>notify\<close> on the condition whose waiting threads satisfy \<open>P\<close>, which continue at \<open>f\<close>.\<close>

definition wakes_one :: "('p \<Rightarrow> bool) \<Rightarrow> ('p \<Rightarrow> 'p) \<Rightarrow> 'p list \<Rightarrow> 'p list \<Rightarrow> bool" where
  "wakes_one P f pcs pcs' \<longleftrightarrow>
     (if count_pcs P pcs = 0 then pcs' = pcs
      else list_ex (\<lambda>i. P (pcs ! i) \<and> pcs' = pcs[i := f (pcs ! i)]) [0..<length pcs])"

definition wakes_all :: "('p \<Rightarrow> bool) \<Rightarrow> ('p \<Rightarrow> 'p) \<Rightarrow> 'p list \<Rightarrow> 'p list" where
  "wakes_all P f pcs = map (\<lambda>p. if P p then f p else p) pcs"

lemma count_pcs_update:
  assumes "i < length pcs"
  shows "count_pcs P (pcs[i := p]) + (if P (pcs ! i) then 1 else 0) = count_pcs P pcs + (if P p then 1 else 0)"
  using assms
proof (induction pcs arbitrary: i)
  case (Cons q pcs)
  then show ?case
    by (cases i) (auto simp: count_pcs_def)
qed simp

lemma count_pcs_pos: "0 < count_pcs P pcs \<longleftrightarrow> (\<exists>i < length pcs. P (pcs ! i))"
  by (fastforce simp: count_pcs_def filter_empty_conv in_set_conv_nth)

lemma count_pcs_0: "count_pcs P pcs = 0 \<longleftrightarrow> (\<forall>p\<in>set pcs. \<not> P p)"
  by (auto simp: count_pcs_def filter_empty_conv)

lemma wakes_one_cases:
  assumes "wakes_one P f pcs pcs'"
  obtains "count_pcs P pcs = 0" and "pcs' = pcs"
    | i where "i < length pcs" and "P (pcs ! i)" and "pcs' = pcs[i := f (pcs ! i)]"
  using assms by (auto simp: wakes_one_def list_ex_iff split: if_splits)

lemma wakes_one_total: "\<exists>pcs'. wakes_one P f pcs pcs'"
proof (cases "count_pcs P pcs = 0")
  case False
  then obtain i where "i < length pcs" "P (pcs ! i)"
    using count_pcs_pos [of P pcs] by blast
  then have "wakes_one P f pcs (pcs[i := f (pcs ! i)])"
    using False by (auto simp: wakes_one_def list_ex_iff)
  then show ?thesis ..
qed (simp add: wakes_one_def)

text \<open>What waking does to the number of threads with a property that the woken thread gets, keeps or loses.\<close>

lemma wakes_one_count:
  assumes "wakes_one P f pcs pcs'"
  shows "(\<And>p. P p \<Longrightarrow> Q (f p) \<and> \<not> Q p) \<Longrightarrow>
      count_pcs Q pcs' = count_pcs Q pcs + (if count_pcs P pcs = 0 then 0 else 1)"
    and "(\<And>p. P p \<Longrightarrow> Q (f p) = Q p) \<Longrightarrow> count_pcs Q pcs' = count_pcs Q pcs"
    and "(\<And>p. P p \<Longrightarrow> \<not> P (f p)) \<Longrightarrow> count_pcs P pcs' = count_pcs P pcs - 1"
proof -
  show "count_pcs Q pcs' = count_pcs Q pcs + (if count_pcs P pcs = 0 then 0 else 1)"
    if "\<And>p. P p \<Longrightarrow> Q (f p) \<and> \<not> Q p"
    using assms
  proof (cases rule: wakes_one_cases)
    case (2 i)
    have "0 < count_pcs P pcs"
      using 2 by (auto simp: count_pcs_pos)
    then show ?thesis
      using count_pcs_update [OF 2(1), of Q "f (pcs ! i)"] that [OF 2(2)] 2(3) by simp
  qed simp
  show "count_pcs Q pcs' = count_pcs Q pcs" if "\<And>p. P p \<Longrightarrow> Q (f p) = Q p"
    using assms
  proof (cases rule: wakes_one_cases)
    case (2 i)
    then show ?thesis
      using count_pcs_update [OF 2(1), of Q "f (pcs ! i)"] that [OF 2(2)] by (simp split: if_splits)
  qed simp
  show "count_pcs P pcs' = count_pcs P pcs - 1" if "\<And>p. P p \<Longrightarrow> \<not> P (f p)"
    using assms
  proof (cases rule: wakes_one_cases)
    case (2 i)
    then show ?thesis
      using count_pcs_update [OF 2(1), of P "f (pcs ! i)"] that [OF 2(2)] by simp
  qed simp
qed

lemma length_wakes_one: "wakes_one P f pcs pcs' \<Longrightarrow> length pcs' = length pcs"
  by (erule wakes_one_cases) simp_all

subsection \<open>Queues under a monitor\<close>

datatype 'x queue_pc =
    Outside
  | Putting 'x          \<comment> \<open>competes for the mutex, to put\<close>
  | PutWaiting 'x       \<comment> \<open>waits until the queue is not full\<close>
  | Taking              \<comment> \<open>competes for the mutex, to take\<close>
  | TakeWaiting         \<comment> \<open>waits until the queue is not empty\<close>

fun is_putting :: "'x queue_pc \<Rightarrow> bool" where
  "is_putting (Putting x) = True"
| "is_putting _ = False"

fun is_put_waiting :: "'x queue_pc \<Rightarrow> bool" where
  "is_put_waiting (PutWaiting x) = True"
| "is_put_waiting _ = False"

fun is_taking :: "'x queue_pc \<Rightarrow> bool" where
  "is_taking Taking = True"
| "is_taking _ = False"

fun is_take_waiting :: "'x queue_pc \<Rightarrow> bool" where
  "is_take_waiting TakeWaiting = True"
| "is_take_waiting _ = False"

fun retry_put :: "'x queue_pc \<Rightarrow> 'x queue_pc" where
  "retry_put (PutWaiting x) = Putting x"
| "retry_put p = p"

fun retry_take :: "'x queue_pc \<Rightarrow> 'x queue_pc" where
  "retry_take TakeWaiting = Taking"
| "retry_take p = p"

lemma is_taking_iff: "is_taking p \<longleftrightarrow> p = Taking"
  by (cases p) simp_all

lemma is_putting_iff: "is_putting p \<longleftrightarrow> (\<exists>x. p = Putting x)"
  by (cases p) simp_all

lemma is_take_waiting_iff: "is_take_waiting p \<longleftrightarrow> p = TakeWaiting"
  by (cases p) simp_all

lemma is_put_waiting_iff: "is_put_waiting p \<longleftrightarrow> (\<exists>x. p = PutWaiting x)"
  by (cases p) simp_all

record ('q, 'x) monitor =
  mon_queue :: 'q
  mon_pcs :: "'x queue_pc list"
  mon_in :: "'x list"           \<comment> \<open>what was put, in this order\<close>
  mon_out :: "'x list"          \<comment> \<open>what was taken, in this order\<close>

text \<open>
  The threads call \<open>put\<close> and \<open>take\<close>, which return \<open>None\<close> when the caller has to wait.  \<open>put\<close> notifies one taker,
  \<open>take\<close> notifies one putter if \<open>notifies\<close> says so.
\<close>

inductive monitor_step ::
  "('x \<Rightarrow> 'q \<Rightarrow> 'q option) \<Rightarrow> ('q \<Rightarrow> ('x \<times> 'q) option) \<Rightarrow> ('q \<Rightarrow> bool) \<Rightarrow>
   ('q, 'x) monitor \<Rightarrow> ('q, 'x) monitor \<Rightarrow> bool"
  for put take notifies where
  call_put: "i < length (mon_pcs m) \<Longrightarrow> mon_pcs m ! i = Outside \<Longrightarrow>
     monitor_step put take notifies m (m\<lparr>mon_pcs := (mon_pcs m)[i := Putting x]\<rparr>)"
| call_take: "i < length (mon_pcs m) \<Longrightarrow> mon_pcs m ! i = Outside \<Longrightarrow>
     monitor_step put take notifies m (m\<lparr>mon_pcs := (mon_pcs m)[i := Taking]\<rparr>)"
| put_waits: "i < length (mon_pcs m) \<Longrightarrow> mon_pcs m ! i = Putting x \<Longrightarrow> put x (mon_queue m) = None \<Longrightarrow>
     monitor_step put take notifies m (m\<lparr>mon_pcs := (mon_pcs m)[i := PutWaiting x]\<rparr>)"
| puts: "i < length (mon_pcs m) \<Longrightarrow> mon_pcs m ! i = Putting x \<Longrightarrow> put x (mon_queue m) = Some q \<Longrightarrow>
     wakes_one is_take_waiting retry_take ((mon_pcs m)[i := Outside]) pcs \<Longrightarrow>
     monitor_step put take notifies m (m\<lparr>mon_queue := q, mon_pcs := pcs, mon_in := mon_in m @ [x]\<rparr>)"
| take_waits: "i < length (mon_pcs m) \<Longrightarrow> mon_pcs m ! i = Taking \<Longrightarrow> take (mon_queue m) = None \<Longrightarrow>
     monitor_step put take notifies m (m\<lparr>mon_pcs := (mon_pcs m)[i := TakeWaiting]\<rparr>)"
| takes: "i < length (mon_pcs m) \<Longrightarrow> mon_pcs m ! i = Taking \<Longrightarrow> take (mon_queue m) = Some (x, q) \<Longrightarrow>
     (if notifies (mon_queue m) then wakes_one is_put_waiting retry_put ((mon_pcs m)[i := Outside]) pcs
      else pcs = (mon_pcs m)[i := Outside]) \<Longrightarrow>
     monitor_step put take notifies m (m\<lparr>mon_queue := q, mon_pcs := pcs, mon_out := mon_out m @ [x]\<rparr>)"
| spurious: "i < length (mon_pcs m) \<Longrightarrow>
     monitor_step put take notifies m (m\<lparr>mon_pcs := (mon_pcs m)[i := retry_take (retry_put (mon_pcs m ! i))]\<rparr>)"

inductive monitor_reach ::
  "('x \<Rightarrow> 'q \<Rightarrow> 'q option) \<Rightarrow> ('q \<Rightarrow> ('x \<times> 'q) option) \<Rightarrow> ('q \<Rightarrow> bool) \<Rightarrow> 'q \<Rightarrow> nat \<Rightarrow> ('q, 'x) monitor \<Rightarrow> bool"
  for put take notifies q0 n where
  fresh: "monitor_reach put take notifies q0 n
     \<lparr>mon_queue = q0, mon_pcs = replicate n Outside, mon_in = [], mon_out = []\<rparr>"
| step: "monitor_reach put take notifies q0 n m \<Longrightarrow> monitor_step put take notifies m m' \<Longrightarrow>
     monitor_reach put take notifies q0 n m'"

locale monitored_queue =
  fixes items :: "'q \<Rightarrow> 'x list"
    and bound :: "'q \<Rightarrow> nat option"
    and put :: "'x \<Rightarrow> 'q \<Rightarrow> 'q option"
    and take :: "'q \<Rightarrow> ('x \<times> 'q) option"
    and notifies :: "'q \<Rightarrow> bool"
    and ok :: "'q \<Rightarrow> bool"
  assumes put_full: "ok q \<Longrightarrow> put x q = None \<longleftrightarrow> (\<exists>n. bound q = Some n \<and> n \<le> length (items q))"
    and put_law: "ok q \<Longrightarrow> put x q = Some q' \<Longrightarrow> ok q' \<and> items q' = items q @ [x] \<and> bound q' = bound q"
    and take_empty: "ok q \<Longrightarrow> take q = None \<longleftrightarrow> items q = []"
    and take_law: "ok q \<Longrightarrow> take q = Some (y, q') \<Longrightarrow>
       ok q' \<and> items q = y # items q' \<and> bound q' = bound q"
    and notify_law: "ok q \<Longrightarrow> bound q \<noteq> None \<Longrightarrow> notifies q"
begin

text \<open>Enough threads are awake: one for each item if takers wait, one for each free place if putters wait.\<close>

definition enough_awake :: "('q, 'x) monitor \<Rightarrow> bool" where
  "enough_awake m \<longleftrightarrow>
     (0 < count_pcs is_take_waiting (mon_pcs m) \<longrightarrow>
        length (items (mon_queue m)) \<le> count_pcs is_taking (mon_pcs m)) \<and>
     (0 < count_pcs is_put_waiting (mon_pcs m) \<longrightarrow>
        (\<exists>n. bound (mon_queue m) = Some n \<and> n \<le> length (items (mon_queue m)) + count_pcs is_putting (mon_pcs m)))"

definition monitor_inv :: "('q, 'x) monitor \<Rightarrow> bool" where
  "monitor_inv m \<longleftrightarrow>
     ok (mon_queue m) \<and> mon_in m = mon_out m @ items (mon_queue m) \<and> enough_awake m \<and>
     (\<forall>n. bound (mon_queue m) = Some n \<longrightarrow> length (items (mon_queue m)) \<le> n)"

lemma enough_awake_cong:
  assumes "enough_awake m"
    and "length (items (mon_queue m')) + count_pcs is_taking (mon_pcs m) \<le>
      length (items (mon_queue m)) + count_pcs is_taking (mon_pcs m') \<or>
      items (mon_queue m') = [] \<or> count_pcs is_take_waiting (mon_pcs m') = 0"
    and "0 < count_pcs is_take_waiting (mon_pcs m') \<Longrightarrow> items (mon_queue m') \<noteq> [] \<Longrightarrow> 0 < count_pcs is_take_waiting (mon_pcs m)"
    and "length (items (mon_queue m)) + count_pcs is_putting (mon_pcs m) \<le>
      length (items (mon_queue m')) + count_pcs is_putting (mon_pcs m') \<or>
      put x (mon_queue m') = None \<or> count_pcs is_put_waiting (mon_pcs m') = 0"
    and "0 < count_pcs is_put_waiting (mon_pcs m') \<Longrightarrow> put x (mon_queue m') \<noteq> None \<Longrightarrow> 0 < count_pcs is_put_waiting (mon_pcs m)"
    and "bound (mon_queue m') = bound (mon_queue m)" and "ok (mon_queue m')"
  shows "enough_awake m'"
proof -
  have "length (items (mon_queue m')) \<le> count_pcs is_taking (mon_pcs m')"
    if "0 < count_pcs is_take_waiting (mon_pcs m')"
    using assms(1-3) that unfolding enough_awake_def by (cases "items (mon_queue m') = []") auto
  moreover have "\<exists>n. bound (mon_queue m') = Some n \<and> n \<le> length (items (mon_queue m')) + count_pcs is_putting (mon_pcs m')"
    if "0 < count_pcs is_put_waiting (mon_pcs m')"
  proof (cases "put x (mon_queue m') = None")
    case True
    then show ?thesis
      using put_full [OF assms(7)] by (auto intro: trans_le_add1)
  next
    case False
    then show ?thesis
      using assms(1,4-6) that unfolding enough_awake_def by (auto intro: order_trans)
  qed
  ultimately show ?thesis
    by (simp add: enough_awake_def)
qed

text \<open>A thread moves on without touching the queue.\<close>

lemma move_inv:
  assumes "monitor_inv m" and "i < length (mon_pcs m)"
    and "is_taking (mon_pcs m ! i) \<Longrightarrow> is_taking p \<or> items (mon_queue m) = []"
    and "is_take_waiting p \<Longrightarrow> is_take_waiting (mon_pcs m ! i) \<or> items (mon_queue m) = []"
    and "is_putting (mon_pcs m ! i) \<Longrightarrow> is_putting p \<or> put x (mon_queue m) = None"
    and "is_put_waiting p \<Longrightarrow> is_put_waiting (mon_pcs m ! i) \<or> put x (mon_queue m) = None"
  shows "monitor_inv (m\<lparr>mon_pcs := (mon_pcs m)[i := p]\<rparr>)"
proof -
  let ?c = "\<lambda>P. count_pcs P (mon_pcs m)" and ?c' = "\<lambda>P. count_pcs P ((mon_pcs m)[i := p])"
  note c = count_pcs_update [OF assms(2), of _ p]
  have 1: "?c is_taking \<le> ?c' is_taking \<or> items (mon_queue m) = []"
    using c [of is_taking] assms(3) by (cases "is_taking (mon_pcs m ! i)") auto
  have 2: "items (mon_queue m) \<noteq> [] \<Longrightarrow> 0 < ?c' is_take_waiting \<Longrightarrow> 0 < ?c is_take_waiting"
    using c [of is_take_waiting] assms(4) by (cases "is_take_waiting p") auto
  have 3: "?c is_putting \<le> ?c' is_putting \<or> put x (mon_queue m) = None"
    using c [of is_putting] assms(5) by (cases "is_putting (mon_pcs m ! i)") auto
  have 4: "put x (mon_queue m) \<noteq> None \<Longrightarrow> 0 < ?c' is_put_waiting \<Longrightarrow> 0 < ?c is_put_waiting"
    using c [of is_put_waiting] assms(6) by (cases "is_put_waiting p") auto
  have "enough_awake (m\<lparr>mon_pcs := (mon_pcs m)[i := p]\<rparr>)"
  proof (rule enough_awake_cong [of m _ x])
    show "enough_awake m" "ok (mon_queue (m\<lparr>mon_pcs := (mon_pcs m)[i := p]\<rparr>))"
      using assms(1) by (simp_all add: monitor_inv_def)
  qed (use 1 3 in \<open>simp_all add: 2 4\<close>, blast+)
  then show ?thesis
    using assms(1) by (simp add: monitor_inv_def)
qed

lemma wakes_taker_counts:
  assumes "wakes_one is_take_waiting retry_take pcs pcs'"
  shows "count_pcs is_taking pcs' = count_pcs is_taking pcs + (if count_pcs is_take_waiting pcs = 0 then 0 else 1)"
    and "count_pcs is_take_waiting pcs' = count_pcs is_take_waiting pcs - 1"
    and "count_pcs is_putting pcs' = count_pcs is_putting pcs"
    and "count_pcs is_put_waiting pcs' = count_pcs is_put_waiting pcs"
  by (rule wakes_one_count [OF assms], simp add: is_take_waiting_iff)+

lemma wakes_putter_counts:
  assumes "wakes_one is_put_waiting retry_put pcs pcs'"
  shows "count_pcs is_putting pcs' = count_pcs is_putting pcs + (if count_pcs is_put_waiting pcs = 0 then 0 else 1)"
    and "count_pcs is_put_waiting pcs' = count_pcs is_put_waiting pcs - 1"
    and "count_pcs is_taking pcs' = count_pcs is_taking pcs"
    and "count_pcs is_take_waiting pcs' = count_pcs is_take_waiting pcs"
  by (rule wakes_one_count [OF assms], force simp: is_put_waiting_iff)+

lemma puts_inv:
  assumes "monitor_inv m" and "i < length (mon_pcs m)" and "mon_pcs m ! i = Putting x"
    and "put x (mon_queue m) = Some q"
    and "wakes_one is_take_waiting retry_take ((mon_pcs m)[i := Outside]) pcs"
  shows "monitor_inv (m\<lparr>mon_queue := q, mon_pcs := pcs, mon_in := mon_in m @ [x]\<rparr>)"
proof -
  have q: "ok q" "items q = items (mon_queue m) @ [x]" "bound q = bound (mon_queue m)"
    using assms(1) put_law [OF _ assms(4)] by (auto simp: monitor_inv_def)
  have room: "length (items (mon_queue m)) < n" if "bound (mon_queue m) = Some n" for n
    using assms(1,4) put_full [of "mon_queue m" x] that by (force simp: monitor_inv_def)
  note c = count_pcs_update [OF assms(2), of _ Outside, unfolded assms(3)]
  note w = wakes_taker_counts [OF assms(5)]
  have n: "count_pcs is_taking pcs = count_pcs is_taking (mon_pcs m) + (if count_pcs is_take_waiting (mon_pcs m) = 0 then 0 else 1)"
    "count_pcs is_take_waiting pcs = count_pcs is_take_waiting (mon_pcs m) - 1"
    "count_pcs is_putting pcs + 1 = count_pcs is_putting (mon_pcs m)"
    "count_pcs is_put_waiting pcs = count_pcs is_put_waiting (mon_pcs m)"
    using w(1) c [of is_taking] c [of is_take_waiting] apply simp
    using w(2) c [of is_take_waiting] apply simp
    using w(3) c [of is_putting] apply simp
    using w(4) c [of is_put_waiting] apply simp
    done
  have "enough_awake (m\<lparr>mon_queue := q, mon_pcs := pcs, mon_in := mon_in m @ [x]\<rparr>)"
    by (rule enough_awake_cong [of m _ x])
      (use assms(1) q n(3) in \<open>simp_all add: monitor_inv_def n(1,2,4)\<close>)
  then show ?thesis
    using assms(1) q room by (auto simp: monitor_inv_def Suc_le_eq)
qed

lemma takes_inv:
  assumes "monitor_inv m" and "i < length (mon_pcs m)" and "mon_pcs m ! i = Taking"
    and "take (mon_queue m) = Some (x, q)"
    and "if notifies (mon_queue m) then wakes_one is_put_waiting retry_put ((mon_pcs m)[i := Outside]) pcs
      else pcs = (mon_pcs m)[i := Outside]"
  shows "monitor_inv (m\<lparr>mon_queue := q, mon_pcs := pcs, mon_out := mon_out m @ [x]\<rparr>)"
proof -
  have q: "ok q" "items (mon_queue m) = x # items q" "bound q = bound (mon_queue m)"
    using assms(1) take_law [OF _ assms(4)] by (auto simp: monitor_inv_def)
  have silent: "count_pcs is_put_waiting (mon_pcs m) = 0" if "\<not> notifies (mon_queue m)"
    using assms(1) notify_law [of "mon_queue m"] that by (auto simp: monitor_inv_def enough_awake_def)
  note c = count_pcs_update [OF assms(2), of _ Outside, unfolded assms(3)]
  have pw: "count_pcs is_put_waiting ((mon_pcs m)[i := Outside]) = count_pcs is_put_waiting (mon_pcs m)"
    using c [of is_put_waiting] by simp
  have n: "count_pcs is_taking pcs + 1 = count_pcs is_taking (mon_pcs m) \<and>
    count_pcs is_take_waiting pcs = count_pcs is_take_waiting (mon_pcs m) \<and>
    count_pcs is_put_waiting pcs \<le> count_pcs is_put_waiting (mon_pcs m) \<and>
    count_pcs is_putting pcs = count_pcs is_putting (mon_pcs m) + (if count_pcs is_put_waiting (mon_pcs m) = 0 then 0 else 1)"
  proof (cases "notifies (mon_queue m)")
    case True
    then have "wakes_one is_put_waiting retry_put ((mon_pcs m)[i := Outside]) pcs"
      using assms(5) by simp
    note w = wakes_putter_counts [OF this, unfolded pw]
    show ?thesis
      unfolding w using c [of is_taking] c [of is_take_waiting] c [of is_putting] by simp
  next
    case False
    then have "pcs = (mon_pcs m)[i := Outside]"
      using assms(5) by simp
    then show ?thesis
      using c [of is_taking] c [of is_take_waiting] c [of is_putting] pw silent [OF False] by simp
  qed
  have "enough_awake (m\<lparr>mon_queue := q, mon_pcs := pcs, mon_out := mon_out m @ [x]\<rparr>)"
  proof (rule enough_awake_cong [of m _ x])
    show "enough_awake m" "ok (mon_queue (m\<lparr>mon_queue := q, mon_pcs := pcs, mon_out := mon_out m @ [x]\<rparr>))"
      using assms(1) q(1) by (simp_all add: monitor_inv_def)
  qed (use q n in auto)
  then show ?thesis
    using assms(1) q by (auto simp: monitor_inv_def)
qed

lemma spurious_inv:
  assumes "monitor_inv m" and "i < length (mon_pcs m)"
  shows "monitor_inv (m\<lparr>mon_pcs := (mon_pcs m)[i := retry_take (retry_put (mon_pcs m ! i))]\<rparr>)"
  by (rule move_inv [OF assms]) (cases "mon_pcs m ! i"; simp)+

lemma monitor_step_inv: "monitor_step put take notifies m m' \<Longrightarrow> monitor_inv m \<Longrightarrow> monitor_inv m'"
proof (induction rule: monitor_step.induct)
  case (put_waits i m x)
  then show ?case
    by (intro move_inv [where x = x]) simp_all
next
  case (take_waits i m)
  then have "items (mon_queue m) = []"
    using take_empty by (simp add: monitor_inv_def)
  then show ?case
    using take_waits by (intro move_inv) simp_all
next
  case (puts i m x q pcs)
  then show ?case
    by (intro puts_inv)
next
  case (takes i m x q pcs)
  then show ?case
    by (intro takes_inv)
qed (auto intro!: move_inv spurious_inv)

lemma monitor_reach_inv:
  assumes "monitor_reach put take notifies q0 n m" and "ok q0" and "items q0 = []"
  shows "monitor_inv m"
  using assms
proof (induction rule: monitor_reach.induct)
  case fresh
  then show ?case
    by (auto simp: monitor_inv_def enough_awake_def count_pcs_def)
qed (auto intro: monitor_step_inv)

text \<open>What every interleaving has: the order, the bound, and no thread that sleeps although it could go on and nobody was told.\<close>

lemma monitor_inv_safe:
  assumes inv: "monitor_inv m"
  shows "mon_in m = mon_out m @ items (mon_queue m)"
    and "bound (mon_queue m) = Some k \<Longrightarrow> length (items (mon_queue m)) \<le> k"
    and "TakeWaiting \<in> set (mon_pcs m) \<Longrightarrow> items (mon_queue m) \<noteq> [] \<Longrightarrow> Taking \<in> set (mon_pcs m)"
    and "PutWaiting x \<in> set (mon_pcs m) \<Longrightarrow> put y (mon_queue m) \<noteq> None \<Longrightarrow> \<exists>z. Putting z \<in> set (mon_pcs m)"
    and "bound (mon_queue m) = None \<Longrightarrow> PutWaiting x \<notin> set (mon_pcs m)"
proof -
  from inv show "mon_in m = mon_out m @ items (mon_queue m)"
    and "bound (mon_queue m) = Some k \<Longrightarrow> length (items (mon_queue m)) \<le> k"
    by (simp_all add: monitor_inv_def)
  show "Taking \<in> set (mon_pcs m)" if "TakeWaiting \<in> set (mon_pcs m)" "items (mon_queue m) \<noteq> []"
  proof -
    have "0 < count_pcs is_take_waiting (mon_pcs m)"
      using that(1) count_pcs_0 [of is_take_waiting "mon_pcs m"] by force
    then have "length (items (mon_queue m)) \<le> count_pcs is_taking (mon_pcs m)"
      using inv by (simp add: monitor_inv_def enough_awake_def)
    then have "count_pcs is_taking (mon_pcs m) \<noteq> 0"
      using that(2) by (cases "items (mon_queue m)") simp_all
    then show ?thesis
      by (simp add: count_pcs_0 is_taking_iff)
  qed
  show "\<exists>z. Putting z \<in> set (mon_pcs m)" if "PutWaiting x \<in> set (mon_pcs m)" "put y (mon_queue m) \<noteq> None"
  proof -
    have "0 < count_pcs is_put_waiting (mon_pcs m)"
      using that(1) count_pcs_0 [of is_put_waiting "mon_pcs m"] by force
    then obtain k where "bound (mon_queue m) = Some k" "k \<le> length (items (mon_queue m)) + count_pcs is_putting (mon_pcs m)"
      using inv by (auto simp: monitor_inv_def enough_awake_def)
    moreover have "\<not> k \<le> length (items (mon_queue m))"
      using inv that(2) calculation(1) put_full [of "mon_queue m" y] by (simp add: monitor_inv_def)
    ultimately have "count_pcs is_putting (mon_pcs m) \<noteq> 0"
      by linarith
    then show ?thesis
      by (auto simp: count_pcs_0 is_putting_iff)
  qed
  show "PutWaiting x \<notin> set (mon_pcs m)" if "bound (mon_queue m) = None"
  proof -
    have "count_pcs is_put_waiting (mon_pcs m) = 0"
      using inv that by (simp add: monitor_inv_def enough_awake_def)
    then show ?thesis
      by (force simp: count_pcs_0)
  qed
qed

lemmas monitor_safe = monitor_inv_safe [OF monitor_reach_inv]

end

end
