(* ===== verification/Blocking_Queue.thy ===== *)
theory Blocking_Queue
  imports Monitor
begin

section \<open>Blocking queues\<close>

text \<open>
  \<open>BlockingQueue\<close> and \<open>BoundedBlockingQueue\<close> (\<open>src/src/muduo/base\<close>).  An operation is one look at the queue under the
  mutex: \<open>None\<close> when the loop condition holds and the thread waits, otherwise its effect.  Both satisfy the
  contract of a queue under a monitor, which gives the order, the bound and the absence of lost wakeups for any
  number of threads.  \<open>boost::circular_buffer\<close> is its capacity with its elements, oldest
  first; it is full when it holds as many elements as its capacity.
\<close>

subsection \<open>\<open>BlockingQueue\<close>\<close>

type_synonym 'x blocking_queue = "'x list"

definition new_blocking_queue :: "'x blocking_queue" where
  "new_blocking_queue = []"

definition blocking_put :: "'x \<Rightarrow> 'x blocking_queue \<Rightarrow> 'x blocking_queue option" where
  "blocking_put x q = Some (q @ [x])"

fun blocking_take :: "'x blocking_queue \<Rightarrow> ('x \<times> 'x blocking_queue) option" where
  "blocking_take [] = None"
| "blocking_take (x # q) = Some (x, q)"

definition blocking_size :: "'x blocking_queue \<Rightarrow> nat" where
  "blocking_size q = length q"

interpretation blocking: monitored_queue "\<lambda>q. q" "\<lambda>q. None" blocking_put blocking_take "\<lambda>q. False" "\<lambda>q. True"
proof unfold_locales
  show "(blocking_take q = None) = (q = [])" for q :: "'x list"
    by (cases q) simp_all
  show "True \<and> q = y # q' \<and> None = None" if "blocking_take q = Some (y, q')" for q q' :: "'x list" and y
    using that by (cases q) simp_all
qed (simp_all add: blocking_put_def)

subsection \<open>\<open>BoundedBlockingQueue\<close>\<close>

record 'x bounded_queue =
  bounded_items :: "'x list"
  bounded_capacity :: nat

definition new_bounded_queue :: "nat \<Rightarrow> 'x bounded_queue" where
  "new_bounded_queue maxSize = \<lparr>bounded_items = [], bounded_capacity = maxSize\<rparr>"

definition bounded_empty :: "'x bounded_queue \<Rightarrow> bool" where
  "bounded_empty q \<longleftrightarrow> bounded_items q = []"

definition bounded_full :: "'x bounded_queue \<Rightarrow> bool" where
  "bounded_full q \<longleftrightarrow> length (bounded_items q) = bounded_capacity q"

definition bounded_size :: "'x bounded_queue \<Rightarrow> nat" where
  "bounded_size q = length (bounded_items q)"

definition bounded_put :: "'x \<Rightarrow> 'x bounded_queue \<Rightarrow> 'x bounded_queue option" where
  "bounded_put x q =
     (if bounded_full q then None else Some (q\<lparr>bounded_items := bounded_items q @ [x]\<rparr>))"

definition bounded_take :: "'x bounded_queue \<Rightarrow> ('x \<times> 'x bounded_queue) option" where
  "bounded_take q =
     (if bounded_empty q then None
      else Some (hd (bounded_items q), q\<lparr>bounded_items := tl (bounded_items q)\<rparr>))"

text \<open>The well-formed queues hold at most as many elements as the capacity.\<close>

definition bounded_ok :: "'x bounded_queue \<Rightarrow> bool" where
  "bounded_ok q \<longleftrightarrow> length (bounded_items q) \<le> bounded_capacity q"

interpretation bounded: monitored_queue bounded_items "\<lambda>q. Some (bounded_capacity q)" bounded_put bounded_take "\<lambda>q. True" bounded_ok
  by unfold_locales
    (auto simp: bounded_put_def bounded_take_def bounded_full_def bounded_empty_def bounded_ok_def
      split: if_splits)

subsection \<open>Properties\<close>

text \<open>Whatever the interleaving of any number of producers and consumers: the elements taken out of a
  \<open>BlockingQueue\<close>, followed by those still in it, are the elements put in, in the same order; while the queue is not empty
  and consumers wait, at least one consumer is awake to take; producers never wait.\<close>

theorem blocking_queue_fifo:
  assumes "monitor_reach blocking_put blocking_take (\<lambda>q. False) new_blocking_queue n m"
  shows "mon_in m = mon_out m @ mon_queue m \<and>
    (TakeWaiting \<in> set (mon_pcs m) \<longrightarrow> mon_queue m \<noteq> [] \<longrightarrow> Taking \<in> set (mon_pcs m)) \<and>
    (\<forall>x. PutWaiting x \<notin> set (mon_pcs m))"
  using blocking.monitor_safe [OF assms] by (simp add: new_blocking_queue_def)

text \<open>C29: Whatever the interleaving of any number of producers and consumers: the elements taken out of a
  \<open>BoundedBlockingQueue\<close>, followed by those still in it, are the elements put in, in the same order; it never holds more than
  its capacity; while it is not empty and consumers wait, at least one consumer is awake to take; while it is not
  full and producers wait, at least one producer is awake to put.\<close>

theorem bounded_queue_fifo:
  assumes "monitor_reach bounded_put bounded_take (\<lambda>q. True) (new_bounded_queue k) n m"
  shows "mon_in m = mon_out m @ bounded_items (mon_queue m) \<and>
    bounded_size (mon_queue m) \<le> bounded_capacity (mon_queue m) \<and>
    (TakeWaiting \<in> set (mon_pcs m) \<longrightarrow> \<not> bounded_empty (mon_queue m) \<longrightarrow> Taking \<in> set (mon_pcs m)) \<and>
    (\<forall>x. PutWaiting x \<in> set (mon_pcs m) \<longrightarrow> \<not> bounded_full (mon_queue m) \<longrightarrow> (\<exists>y. Putting y \<in> set (mon_pcs m)))"
  using bounded.monitor_safe [OF assms]
  by (auto simp: new_bounded_queue_def bounded_ok_def bounded_size_def bounded_empty_def bounded_full_def bounded_put_def)

text \<open>Two consumers wait for a queue of capacity 1; a producer puts an element and wakes one of them.\<close>

definition handed_over :: "(nat bounded_queue, nat) monitor" where
  "handed_over = \<lparr>mon_queue = \<lparr>bounded_items = [42], bounded_capacity = 1\<rparr>,
     mon_pcs = [Taking, TakeWaiting, Outside], mon_in = [42], mon_out = []\<rparr>"

lemma handed_over_reach: "monitor_reach bounded_put bounded_take (\<lambda>q. True) (new_bounded_queue 1) 3 handed_over"
proof -
  let ?R = "monitor_reach bounded_put bounded_take (\<lambda>q. True) (new_bounded_queue 1) 3"
  let ?S = "monitor_step bounded_put bounded_take (\<lambda>q. True)"
  let ?q = "new_bounded_queue 1 :: nat bounded_queue"
  let ?m = "\<lambda>pcs. \<lparr>mon_queue = ?q, mon_pcs = pcs, mon_in = [], mon_out = []\<rparr>"
  have empty: "bounded_take ?q = None"
    by (simp add: bounded_take_def bounded_empty_def new_bounded_queue_def)
  have "?R (?m [Outside, Outside, Outside])"
    using monitor_reach.fresh [of bounded_put bounded_take "\<lambda>q. True" ?q 3] by (simp add: numeral_3_eq_3)
  moreover have "?S (?m [Outside, Outside, Outside]) (?m [Taking, Outside, Outside])"
    using call_take [of 0 "?m [Outside, Outside, Outside]"] by simp
  moreover have "?S (?m [Taking, Outside, Outside]) (?m [TakeWaiting, Outside, Outside])"
    using take_waits [of 0 "?m [Taking, Outside, Outside]" bounded_take] empty by simp
  moreover have "?S (?m [TakeWaiting, Outside, Outside]) (?m [TakeWaiting, Taking, Outside])"
    using call_take [of 1 "?m [TakeWaiting, Outside, Outside]"] by simp
  moreover have "?S (?m [TakeWaiting, Taking, Outside]) (?m [TakeWaiting, TakeWaiting, Outside])"
    using take_waits [of 1 "?m [TakeWaiting, Taking, Outside]" bounded_take] empty by simp
  moreover have "?S (?m [TakeWaiting, TakeWaiting, Outside]) (?m [TakeWaiting, TakeWaiting, Putting 42])"
    using call_put [of 2 "?m [TakeWaiting, TakeWaiting, Outside]"] by simp
  moreover have "?S (?m [TakeWaiting, TakeWaiting, Putting 42]) handed_over"
    using puts [of 2 "?m [TakeWaiting, TakeWaiting, Putting 42]" 42 bounded_put _ "[Taking, TakeWaiting, Outside]"]
    by (simp add: handed_over_def bounded_put_def bounded_full_def new_bounded_queue_def wakes_one_def
        count_pcs_def upt_rec)
  ultimately show ?thesis
    by (meson monitor_reach.step)
qed

theorem bounded_queue_fifo_witness:
  "mon_in handed_over = mon_out handed_over @ bounded_items (mon_queue handed_over) \<and> Taking \<in> set (mon_pcs handed_over)"
  using bounded_queue_fifo [OF handed_over_reach]
  by (simp add: handed_over_def bounded_empty_def)

end
