(* ===== verification/Count_Down_Latch.thy ===== *)
theory Count_Down_Latch
  imports Monitor Decimal
begin

section \<open>Latches and the start of threads\<close>

text \<open>
  \<open>CountDownLatch\<close> (\<open>src/src/muduo/base/CountDownLatch.cc\<close>) for any number of waiting threads, and \<open>Thread\<close>
  (\<open>Thread.cc\<close>), whose \<open>start\<close> waits on a latch until the new thread has published its id.  As in \<open>Monitor\<close>, a region
  under the mutex is one step, and a thread that waits may be woken for no reason.
\<close>

subsection \<open>The latch\<close>

record latch =
  latch_count :: int         \<comment> \<open>\<open>count_\<close>\<close>

definition new_latch :: "int \<Rightarrow> latch" where
  "new_latch n = \<lparr>latch_count = n\<rparr>"

text \<open>The loop condition of \<open>wait\<close>.\<close>

definition latch_blocks :: "latch \<Rightarrow> bool" where
  "latch_blocks l \<longleftrightarrow> 0 < latch_count l"

text \<open>\<open>countDown\<close>: the new state and whether all waiting threads are notified.\<close>

definition countDown :: "latch \<Rightarrow> (latch \<times> bool) res" where
  "countDown l =
     (if latch_count l = - (2 ^ 31) then Inl Undefined
      else let l' = l\<lparr>latch_count := latch_count l - 1\<rparr> in Inr (l', latch_count l' = 0))"

definition getCount :: "latch \<Rightarrow> int" where
  "getCount l = latch_count l"

datatype latch_pc =
    LatchAway
  | LatchArriving     \<comment> \<open>competes for the mutex in \<open>wait\<close>\<close>
  | LatchWaiting
  | LatchPassed       \<comment> \<open>\<open>wait\<close> has returned\<close>

definition latch_retry :: "latch_pc \<Rightarrow> latch_pc" where
  "latch_retry p = (if p = LatchWaiting then LatchArriving else p)"

record latching =
  the_latch :: latch
  latch_pcs :: "latch_pc list"
  latch_downs :: nat         \<comment> \<open>how often \<open>countDown\<close> was called\<close>

inductive latch_step :: "latching \<Rightarrow> latching \<Rightarrow> bool" where
  arrive: "i < length (latch_pcs s) \<Longrightarrow> latch_pcs s ! i = LatchAway \<Longrightarrow>
     latch_step s (s\<lparr>latch_pcs := (latch_pcs s)[i := LatchArriving]\<rparr>)"
| wait: "i < length (latch_pcs s) \<Longrightarrow> latch_pcs s ! i = LatchArriving \<Longrightarrow> latch_blocks (the_latch s) \<Longrightarrow>
     latch_step s (s\<lparr>latch_pcs := (latch_pcs s)[i := LatchWaiting]\<rparr>)"
| pass: "i < length (latch_pcs s) \<Longrightarrow> latch_pcs s ! i = LatchArriving \<Longrightarrow> \<not> latch_blocks (the_latch s) \<Longrightarrow>
     latch_step s (s\<lparr>latch_pcs := (latch_pcs s)[i := LatchPassed]\<rparr>)"
| down: "countDown (the_latch s) = Inr (l, notify) \<Longrightarrow>
     latch_step s (s\<lparr>the_latch := l, latch_downs := latch_downs s + 1,
       latch_pcs := if notify then wakes_all (\<lambda>p. p = LatchWaiting) latch_retry (latch_pcs s) else latch_pcs s\<rparr>)"
| spurious: "i < length (latch_pcs s) \<Longrightarrow>
     latch_step s (s\<lparr>latch_pcs := (latch_pcs s)[i := latch_retry (latch_pcs s ! i)]\<rparr>)"

inductive latch_reach :: "int \<Rightarrow> nat \<Rightarrow> latching \<Rightarrow> bool" for c n where
  latch_fresh: "latch_reach c n \<lparr>the_latch = new_latch c, latch_pcs = replicate n LatchAway, latch_downs = 0\<rparr>"
| latch_next: "latch_reach c n s \<Longrightarrow> latch_step s s' \<Longrightarrow> latch_reach c n s'"

definition latch_inv :: "int \<Rightarrow> latching \<Rightarrow> bool" where
  "latch_inv c s \<longleftrightarrow>
     getCount (the_latch s) = c - int (latch_downs s) \<and>
     (LatchWaiting \<in> set (latch_pcs s) \<longrightarrow> latch_blocks (the_latch s)) \<and>
     (LatchPassed \<in> set (latch_pcs s) \<longrightarrow> \<not> latch_blocks (the_latch s))"

lemma set_update_cases: "p \<in> set (xs[i := q]) \<Longrightarrow> p = q \<or> p \<in> set xs"
  using set_update_subset_insert [of xs i q] by auto

lemma latch_step_inv: "latch_step s s' \<Longrightarrow> latch_inv c s \<Longrightarrow> latch_inv c s'"
proof (induction rule: latch_step.induct)
  case (down s l notify)
  let ?pcs = "if notify then wakes_all (\<lambda>p. p = LatchWaiting) latch_retry (latch_pcs s) else latch_pcs s"
  have l: "latch_count l = latch_count (the_latch s) - 1" "notify \<longleftrightarrow> latch_count l = 0"
    using down(1) by (auto simp: countDown_def Let_def split: if_splits)
  have "LatchWaiting \<in> set ?pcs \<Longrightarrow> LatchWaiting \<in> set (latch_pcs s) \<and> \<not> notify"
    "LatchPassed \<in> set ?pcs \<Longrightarrow> LatchPassed \<in> set (latch_pcs s)"
    by (auto simp: wakes_all_def latch_retry_def split: if_splits)
  then show ?case
    using down(2) l by (auto simp: latch_inv_def latch_blocks_def getCount_def)
next
  case (spurious i s)
  have "LatchPassed \<in> set (latch_pcs s)" if "LatchPassed \<in> set ((latch_pcs s)[i := latch_retry (latch_pcs s ! i)])"
    using that spurious(1) by (auto dest!: set_update_cases simp: latch_retry_def split: if_splits)
  moreover have "LatchWaiting \<in> set (latch_pcs s)" if "LatchWaiting \<in> set ((latch_pcs s)[i := latch_retry (latch_pcs s ! i)])"
    using that by (auto dest!: set_update_cases simp: latch_retry_def split: if_splits)
  ultimately show ?case
    using spurious(2) by (auto simp: latch_inv_def)
qed (auto simp: latch_inv_def dest!: set_update_cases)

lemma latch_reach_inv: "latch_reach c n s \<Longrightarrow> latch_inv c s"
proof (induction rule: latch_reach.induct)
  case (latch_next s s')
  then show ?case
    by (blast intro: latch_step_inv)
qed (auto simp: latch_inv_def getCount_def new_latch_def)

text \<open>C30: Under every interleaving, a latch of count \<open>c\<close> lets a waiting thread pass only after \<open>countDown\<close> was called
  at least \<open>c\<close> times, and once it was called that often no thread is left waiting: nobody is forgotten by the single
  \<open>notifyAll\<close>.\<close>

theorem latch_releases:
  assumes "latch_reach c n s"
  shows "(LatchPassed \<in> set (latch_pcs s) \<longrightarrow> c \<le> int (latch_downs s)) \<and>
    (c \<le> int (latch_downs s) \<longrightarrow> LatchWaiting \<notin> set (latch_pcs s)) \<and>
    getCount (the_latch s) = c - int (latch_downs s)"
  using latch_reach_inv [OF assms] by (auto simp: latch_inv_def latch_blocks_def getCount_def)

definition latch_opened :: latching where
  "latch_opened = \<lparr>the_latch = \<lparr>latch_count = 0\<rparr>, latch_pcs = [LatchArriving], latch_downs = 1\<rparr>"

lemma latch_opened_reach: "latch_reach 1 1 latch_opened"
proof -
  let ?s = "\<lambda>pc. \<lparr>the_latch = new_latch 1, latch_pcs = [pc], latch_downs = 0\<rparr>"
  have "latch_reach 1 1 (?s LatchAway)"
    using latch_fresh [of 1 1] by simp
  moreover have "latch_step (?s LatchAway) (?s LatchArriving)"
    using arrive [of 0 "?s LatchAway"] by simp
  moreover have "latch_step (?s LatchArriving) (?s LatchWaiting)"
    using wait [of 0 "?s LatchArriving"] by (simp add: latch_blocks_def new_latch_def)
  moreover have "latch_step (?s LatchWaiting) latch_opened"
    using down [of "?s LatchWaiting" "\<lparr>latch_count = 0\<rparr>" True]
    by (simp add: countDown_def new_latch_def latch_opened_def wakes_all_def latch_retry_def)
  ultimately show ?thesis
    by (blast intro: latch_next)
qed

theorem latch_releases_witness: "LatchWaiting \<notin> set (latch_pcs latch_opened) \<and> latch_downs latch_opened = 1"
  using latch_releases [OF latch_opened_reach] by (simp add: latch_opened_def)

subsection \<open>Thread names and ids\<close>

text \<open>
  \<open>CurrentThread\<close> caches the id of the running thread and its printed form; the cached values are local to the
  thread and empty after \<open>fork\<close>.
\<close>

record current_thread =
  t_cachedTid :: int
  t_tidString :: string
  t_tidStringLength :: nat
  t_threadName :: string

definition new_current_thread :: current_thread where
  "new_current_thread = \<lparr>t_cachedTid = 0, t_tidString = '''', t_tidStringLength = 6, t_threadName = ''unknown''\<rparr>"

text \<open>The conversion \<open>%5d\<close>.\<close>

definition pad5 :: "string \<Rightarrow> string" where
  "pad5 s = replicate (5 - length s) CHR '' '' @ s"

definition cacheTid :: "int \<Rightarrow> current_thread \<Rightarrow> current_thread" where
  "cacheTid gettid t =
     (if t_cachedTid t = 0
      then let s = pad5 (dec_int gettid) @ '' '' in
        t\<lparr>t_cachedTid := gettid, t_tidString := s, t_tidStringLength := length s\<rparr>
      else t)"

definition current_tid :: "int \<Rightarrow> current_thread \<Rightarrow> int \<times> current_thread" where
  "current_tid gettid t = (let t' = if t_cachedTid t = 0 then cacheTid gettid t else t in (t_cachedTid t', t'))"

definition isMainThread :: "int \<Rightarrow> int \<Rightarrow> current_thread \<Rightarrow> bool \<times> current_thread" where
  "isMainThread gettid getpid t = (let (tid, t') = current_tid gettid t in (tid = getpid, t'))"

definition afterFork :: "int \<Rightarrow> current_thread \<Rightarrow> current_thread" where
  "afterFork gettid t = snd (current_tid gettid (t\<lparr>t_cachedTid := 0, t_threadName := ''main''\<rparr>))"

text \<open>A cached id is the id of the thread, and the printed form is what was cached with it.\<close>

definition current_ok :: "int \<Rightarrow> current_thread \<Rightarrow> bool" where
  "current_ok gettid t \<longleftrightarrow> t_cachedTid t = 0 \<or>
     t_cachedTid t = gettid \<and> t_tidString t = pad5 (dec_int gettid) @ '' '' \<and>
     t_tidStringLength t = length (t_tidString t)"

lemma current_tid_ok:
  assumes "current_ok gettid t" and "gettid \<noteq> 0"
  shows "fst (current_tid gettid t) = gettid" and "current_ok gettid (snd (current_tid gettid t))"
  using assms by (auto simp: current_ok_def current_tid_def cacheTid_def Let_def)

lemma afterFork_ok: "gettid \<noteq> 0 \<Longrightarrow> current_ok gettid (afterFork gettid t) \<and> t_cachedTid (afterFork gettid t) = gettid"
  by (simp add: afterFork_def current_tid_def cacheTid_def current_ok_def Let_def)

lemma tid_string_width:
  assumes "0 \<le> tid" and "tid < 100000"
  shows "length (pad5 (dec_int tid) @ '' '') = 6"
proof -
  have "length (dec_nat (nat tid)) \<le> Suc 4"
    using assms by (intro dec_nat_length) simp
  then show ?thesis
    using assms by (simp add: pad5_def dec_int_def)
qed

subsection \<open>\<open>Thread\<close>\<close>

record thread =
  th_started :: bool
  th_joined :: bool
  th_tid :: int
  th_name :: string
  th_latch :: latch

text \<open>\<open>numCreated\<close> is the counter of all threads; the constructor returns its new value.\<close>

definition setDefaultName :: "int \<Rightarrow> thread \<Rightarrow> int \<times> thread" where
  "setDefaultName numCreated t =
     (let num = numCreated + 1 in
      (num, if th_name t = '''' then t\<lparr>th_name := ''Thread'' @ dec_int num\<rparr> else t))"

definition new_thread :: "int \<Rightarrow> string \<Rightarrow> int \<times> thread" where
  "new_thread numCreated n =
     setDefaultName numCreated \<lparr>th_started = False, th_joined = False, th_tid = 0, th_name = n, th_latch = new_latch 1\<rparr>"

text \<open>\<open>start\<close> up to the wait: \<open>created\<close> says whether \<open>pthread_create\<close> succeeded.\<close>

definition thread_create :: "bool \<Rightarrow> thread \<Rightarrow> thread res" where
  "thread_create created t =
     asserting (\<not> th_started t) (if created then Inr (t\<lparr>th_started := True\<rparr>) else Inl Fatal)"

definition thread_join :: "thread \<Rightarrow> thread res" where
  "thread_join t = asserting (th_started t) (asserting (\<not> th_joined t) (Inr (t\<lparr>th_joined := True\<rparr>)))"

text \<open>Whether the destructor detaches the thread.\<close>

definition destroy_thread :: "thread \<Rightarrow> bool" where
  "destroy_thread t \<longleftrightarrow> th_started t \<and> \<not> th_joined t"

text \<open>What the thread is called while and after its function runs; the process ends unless the function returns.\<close>

datatype func_end = Returns | Throws

definition thread_title :: "thread \<Rightarrow> string" where
  "thread_title t = (if th_name t = '''' then ''muduoThread'' else th_name t)"

fun after_func :: "func_end \<Rightarrow> string res" where
  "after_func Returns = Inr ''finished''"
| "after_func Throws = Inl Fatal"

datatype parent_pc = ParentStarting | ParentWaiting | ParentStarted
datatype child_pc = ChildCreated | ChildTold | ChildRunning | ChildEnded

record starting =
  st_thread :: thread
  st_parent :: parent_pc
  st_child :: child_pc

text \<open>
  \<open>start\<close> after \<open>pthread_create\<close>, beside \<open>ThreadData::runInThread\<close> in the new thread of id \<open>tid\<close>: it writes its id, counts the latch down and
  runs the function.  The result of \<open>start\<close> is its last assertion.
\<close>

inductive start_step :: "int \<Rightarrow> starting \<Rightarrow> starting res \<Rightarrow> bool" for tid where
  parent_waits: "st_parent s = ParentStarting \<Longrightarrow> latch_blocks (th_latch (st_thread s)) \<Longrightarrow>
     start_step tid s (Inr (s\<lparr>st_parent := ParentWaiting\<rparr>))"
| parent_passes: "st_parent s = ParentStarting \<Longrightarrow> \<not> latch_blocks (th_latch (st_thread s)) \<Longrightarrow>
     start_step tid s (asserting (0 < th_tid (st_thread s)) (Inr (s\<lparr>st_parent := ParentStarted\<rparr>)))"
| child_tells: "st_child s = ChildCreated \<Longrightarrow>
     start_step tid s (Inr (s\<lparr>st_child := ChildTold, st_thread := (st_thread s)\<lparr>th_tid := tid\<rparr>\<rparr>))"
| child_counts: "st_child s = ChildTold \<Longrightarrow> countDown (th_latch (st_thread s)) = Inr (l, notify) \<Longrightarrow>
     start_step tid s (Inr (s\<lparr>st_child := ChildRunning, st_thread := (st_thread s)\<lparr>th_latch := l\<rparr>,
       st_parent := if notify \<and> st_parent s = ParentWaiting then ParentStarting else st_parent s\<rparr>))"
| child_ends: "st_child s = ChildRunning \<Longrightarrow> start_step tid s (Inr (s\<lparr>st_child := ChildEnded\<rparr>))"
| parent_woken: "st_parent s = ParentWaiting \<Longrightarrow> start_step tid s (Inr (s\<lparr>st_parent := ParentStarting\<rparr>))"

inductive start_reach :: "int \<Rightarrow> thread \<Rightarrow> starting res \<Rightarrow> bool" for tid t where
  start_fresh: "thread_create True t = Inr t' \<Longrightarrow>
     start_reach tid t (Inr \<lparr>st_thread = t', st_parent = ParentStarting, st_child = ChildCreated\<rparr>)"
| start_next: "start_reach tid t (Inr s) \<Longrightarrow> start_step tid s r \<Longrightarrow> start_reach tid t r"

definition start_inv :: "int \<Rightarrow> starting \<Rightarrow> bool" where
  "start_inv tid s \<longleftrightarrow>
     (if st_child s \<in> {ChildCreated, ChildTold}
      then latch_count (th_latch (st_thread s)) = 1 \<and> st_parent s \<noteq> ParentStarted
      else latch_count (th_latch (st_thread s)) = 0 \<and> st_parent s \<noteq> ParentWaiting) \<and>
     th_tid (st_thread s) = (if st_child s = ChildCreated then 0 else tid)"

lemma start_step_inv:
  assumes "start_step tid s r" and "start_inv tid s" and "0 < tid"
  shows "\<exists>s'. r = Inr s' \<and> start_inv tid s'"
  using assms
proof (cases rule: start_step.cases)
  case (child_counts l notify)
  then have "l = \<lparr>latch_count = 0\<rparr> \<and> notify"
    using assms(2) by (auto simp: start_inv_def countDown_def Let_def split: if_splits)
  then show ?thesis
    using child_counts assms(2) by (cases "st_parent s") (auto simp: start_inv_def)
next
  case parent_passes
  then show ?thesis
    using assms(2,3) by (cases "st_child s") (auto simp: start_inv_def latch_blocks_def)
next
  case parent_waits
  then show ?thesis
    using assms(2) by (cases "st_child s") (auto simp: start_inv_def latch_blocks_def)
next
  case parent_woken
  then show ?thesis
    using assms(2) by (cases "st_child s") (auto simp: start_inv_def)
qed (auto simp: start_inv_def)

lemma start_reach_inv:
  assumes "start_reach tid t r" and "0 < tid" and "t = snd (new_thread k n)"
  shows "\<exists>s. r = Inr s \<and> start_inv tid s"
  using assms
proof (induction rule: start_reach.induct)
  case (start_fresh t')
  then show ?case
    by (auto simp: thread_create_def asserting_def new_thread_def setDefaultName_def start_inv_def new_latch_def Let_def
        split: if_splits)
next
  case (start_next s r)
  then show ?case
    using start_step_inv by auto
qed

text \<open>However \<open>Thread::start\<close> and the new thread interleave, \<open>start\<close> does not fail; when it returns, the id is that of
  the new thread and the new thread has counted the latch down; while it waits, the new thread has still to count the
  latch down.\<close>

theorem thread_start_sees_tid:
  assumes "start_reach tid (snd (new_thread k n)) r" and "0 < tid"
  shows "\<exists>s. r = Inr s \<and>
    (st_parent s = ParentStarted \<longrightarrow> th_tid (st_thread s) = tid \<and> st_child s \<in> {ChildRunning, ChildEnded}) \<and>
    (st_parent s = ParentWaiting \<longrightarrow> st_child s \<in> {ChildCreated, ChildTold})"
proof -
  obtain s where "r = Inr s" "start_inv tid s"
    using start_reach_inv [OF assms refl] by auto
  then show ?thesis
    by (cases "st_child s") (auto simp: start_inv_def split: if_splits)
qed

definition io_thread :: "int \<Rightarrow> int \<Rightarrow> thread" where
  "io_thread tid c = \<lparr>th_started = True, th_joined = False, th_tid = tid, th_name = ''io'', th_latch = \<lparr>latch_count = c\<rparr>\<rparr>"

lemma io_thread_starts:
  "start_reach 9 (snd (new_thread 0 ''io''))
     (Inr \<lparr>st_thread = io_thread 9 0, st_parent = ParentStarted, st_child = ChildRunning\<rparr>)"
proof -
  let ?s = "\<lambda>tid c p ch. \<lparr>st_thread = io_thread tid c, st_parent = p, st_child = ch\<rparr>"
  have "start_reach 9 (snd (new_thread 0 ''io'')) (Inr (?s 0 1 ParentStarting ChildCreated))"
    by (rule start_fresh) (simp add: thread_create_def new_thread_def setDefaultName_def new_latch_def io_thread_def Let_def)
  moreover have "start_step 9 (?s 0 1 ParentStarting ChildCreated) (Inr (?s 9 1 ParentStarting ChildTold))"
    using child_tells [of "?s 0 1 ParentStarting ChildCreated" 9] by (simp add: io_thread_def)
  moreover have "start_step 9 (?s 9 1 ParentStarting ChildTold) (Inr (?s 9 1 ParentWaiting ChildTold))"
    using parent_waits [of "?s 9 1 ParentStarting ChildTold" 9] by (simp add: io_thread_def latch_blocks_def)
  moreover have "start_step 9 (?s 9 1 ParentWaiting ChildTold) (Inr (?s 9 0 ParentStarting ChildRunning))"
    using child_counts [of "?s 9 1 ParentWaiting ChildTold" "\<lparr>latch_count = 0\<rparr>" True 9]
    by (simp add: io_thread_def countDown_def)
  moreover have "start_step 9 (?s 9 0 ParentStarting ChildRunning) (Inr (?s 9 0 ParentStarted ChildRunning))"
    using parent_passes [of "?s 9 0 ParentStarting ChildRunning" 9] by (simp add: io_thread_def latch_blocks_def)
  ultimately show ?thesis
    by (blast intro: start_next)
qed

theorem thread_start_sees_tid_witness:
  "\<exists>s. start_reach 9 (snd (new_thread 0 ''io'')) (Inr s) \<and> st_parent s = ParentStarted \<and> th_tid (st_thread s) = 9"
  using thread_start_sees_tid [OF io_thread_starts] io_thread_starts by fastforce

end
