(* ===== verification/Thread_Pool.thy ===== *)
theory Thread_Pool
  imports Monitor "HOL-Library.Multiset"
begin

section \<open>The thread pool\<close>

text \<open>
  \<open>ThreadPool\<close> (\<open>src/src/muduo/base/ThreadPool.cc\<close>): tasks are queued under a monitor with two conditions, worker threads take
  and run them, and \<open>stop\<close> lets the workers finish.  The queue satisfies the contract of \<open>Monitor\<close>; the pool adds the flag \<open>running_\<close>, the
  workers' loop and \<open>stop\<close>, and its invariant rests on the lemmas of the contract.  The threads are the workers and any
  number of clients that call \<open>run\<close>.
\<close>

subsection \<open>The queue of tasks\<close>

record 'x task_queue =
  tq_items :: "'x list"       \<comment> \<open>\<open>queue_\<close>\<close>
  tq_max :: nat               \<comment> \<open>\<open>maxQueueSize_\<close>, 0 for no bound\<close>

definition isFull :: "'x task_queue \<Rightarrow> bool" where
  "isFull q \<longleftrightarrow> 0 < tq_max q \<and> tq_max q \<le> length (tq_items q)"

definition pool_queueSize :: "'x task_queue \<Rightarrow> nat" where
  "pool_queueSize q = length (tq_items q)"

text \<open>\<open>run\<close> and \<open>take\<close> once they have the mutex; \<open>None\<close>: the caller waits.\<close>

definition post_task :: "'x \<Rightarrow> 'x task_queue \<Rightarrow> 'x task_queue option" where
  "post_task x q = (if isFull q then None else Some (q\<lparr>tq_items := tq_items q @ [x]\<rparr>))"

definition take_task :: "'x task_queue \<Rightarrow> ('x \<times> 'x task_queue) option" where
  "take_task q = (case tq_items q of [] \<Rightarrow> None | x # xs \<Rightarrow> Some (x, q\<lparr>tq_items := xs\<rparr>))"

definition notifies_notFull :: "'x task_queue \<Rightarrow> bool" where
  "notifies_notFull q \<longleftrightarrow> 0 < tq_max q"

definition tq_bound :: "'x task_queue \<Rightarrow> nat option" where
  "tq_bound q = (if 0 < tq_max q then Some (tq_max q) else None)"

lemmas task_queue_defs = isFull_def post_task_def take_task_def notifies_notFull_def tq_bound_def

interpretation tasks: monitored_queue tq_items tq_bound post_task take_task notifies_notFull "\<lambda>q. True"
  by unfold_locales (auto simp: task_queue_defs split: if_splits list.splits)

subsection \<open>Threads\<close>

datatype 'x pool_pc =
    Client
  | Posting 'x              \<comment> \<open>in \<open>run\<close>, competes for the mutex\<close>
  | PostWaiting 'x          \<comment> \<open>in \<open>run\<close>, waits on \<open>notFull_\<close>\<close>
  | WorkerHead              \<comment> \<open>at the loop condition of \<open>runInThread\<close>\<close>
  | WorkerTaking            \<comment> \<open>in \<open>take\<close>, competes for the mutex\<close>
  | WorkerWaiting           \<comment> \<open>in \<open>take\<close>, waits on \<open>notEmpty_\<close>\<close>
  | WorkerHas "'x option"   \<comment> \<open>\<open>take\<close> returned a task or an empty function\<close>
  | WorkerDone              \<comment> \<open>\<open>runInThread\<close> has returned\<close>

record 'x pool =
  pl_queue :: "'x task_queue"
  pl_running :: bool
  pl_pcs :: "'x pool_pc list"
  pl_posted :: "'x list"    \<comment> \<open>tasks queued, in this order\<close>
  pl_taken :: "'x list"     \<comment> \<open>tasks taken, in this order\<close>
  pl_ran :: "'x list"       \<comment> \<open>tasks run by workers, in the order of their end\<close>
  pl_direct :: "'x list"    \<comment> \<open>tasks run by \<open>run\<close> itself\<close>

fun is_worker :: "'x pool_pc \<Rightarrow> bool" where
  "is_worker Client = False"
| "is_worker (Posting x) = False"
| "is_worker (PostWaiting x) = False"
| "is_worker _ = True"

definition worker_waits :: "'x pool_pc \<Rightarrow> bool" where
  "worker_waits p \<longleftrightarrow> (case p of WorkerWaiting \<Rightarrow> True | _ \<Rightarrow> False)"

definition wake_worker :: "'x pool_pc \<Rightarrow> 'x pool_pc" where
  "wake_worker p = (case p of WorkerWaiting \<Rightarrow> WorkerTaking | _ \<Rightarrow> p)"

definition post_waits :: "'x pool_pc \<Rightarrow> bool" where
  "post_waits p \<longleftrightarrow> (case p of PostWaiting x \<Rightarrow> True | _ \<Rightarrow> False)"

definition wake_post :: "'x pool_pc \<Rightarrow> 'x pool_pc" where
  "wake_post p = (case p of PostWaiting x \<Rightarrow> Posting x | _ \<Rightarrow> p)"

text \<open>The constructor and \<open>start\<close> with \<open>numThreads\<close> workers, beside \<open>clients\<close> threads that use the pool.\<close>

definition pool_init :: "nat \<Rightarrow> nat \<Rightarrow> nat \<Rightarrow> 'x pool" where
  "pool_init maxQueueSize numThreads clients =
     \<lparr>pl_queue = \<lparr>tq_items = [], tq_max = maxQueueSize\<rparr>, pl_running = True,
      pl_pcs = replicate numThreads WorkerHead @ replicate clients Client,
      pl_posted = [], pl_taken = [], pl_ran = [], pl_direct = []\<rparr>"

abbreviation set_pc :: "nat \<Rightarrow> 'x pool_pc \<Rightarrow> 'x pool \<Rightarrow> 'x pool" where
  "set_pc i p s \<equiv> s\<lparr>pl_pcs := (pl_pcs s)[i := p]\<rparr>"

definition pool_stop :: "'x pool \<Rightarrow> 'x pool" where
  "pool_stop s = s\<lparr>pl_running := False, pl_pcs := wakes_all worker_waits wake_worker (pl_pcs s)\<rparr>"

text \<open>A step of thread \<open>i\<close>, or of the thread that calls \<open>stop\<close>.\<close>

inductive pool_step :: "nat option \<Rightarrow> 'x pool \<Rightarrow> 'x pool \<Rightarrow> bool" where
  run_direct: "i < length (pl_pcs s) \<Longrightarrow> pl_pcs s ! i = Client \<Longrightarrow> \<not> list_ex is_worker (pl_pcs s) \<Longrightarrow>
     pool_step (Some i) s (s\<lparr>pl_direct := pl_direct s @ [x]\<rparr>)"
| run_calls: "i < length (pl_pcs s) \<Longrightarrow> pl_pcs s ! i = Client \<Longrightarrow> list_ex is_worker (pl_pcs s) \<Longrightarrow>
     pool_step (Some i) s (set_pc i (Posting x) s)"
| run_waits: "i < length (pl_pcs s) \<Longrightarrow> pl_pcs s ! i = Posting x \<Longrightarrow> post_task x (pl_queue s) = None \<Longrightarrow>
     pool_step (Some i) s (set_pc i (PostWaiting x) s)"
| run_posts: "i < length (pl_pcs s) \<Longrightarrow> pl_pcs s ! i = Posting x \<Longrightarrow> post_task x (pl_queue s) = Some q \<Longrightarrow>
     wakes_one worker_waits wake_worker ((pl_pcs s)[i := Client]) pcs \<Longrightarrow>
     pool_step (Some i) s (s\<lparr>pl_queue := q, pl_pcs := pcs, pl_posted := pl_posted s @ [x]\<rparr>)"
| head: "i < length (pl_pcs s) \<Longrightarrow> pl_pcs s ! i = WorkerHead \<Longrightarrow>
     pool_step (Some i) s (set_pc i (if pl_running s then WorkerTaking else WorkerDone) s)"
| take_waits: "i < length (pl_pcs s) \<Longrightarrow> pl_pcs s ! i = WorkerTaking \<Longrightarrow> take_task (pl_queue s) = None \<Longrightarrow> pl_running s \<Longrightarrow>
     pool_step (Some i) s (set_pc i WorkerWaiting s)"
| take_nothing: "i < length (pl_pcs s) \<Longrightarrow> pl_pcs s ! i = WorkerTaking \<Longrightarrow> take_task (pl_queue s) = None \<Longrightarrow> \<not> pl_running s \<Longrightarrow>
     pool_step (Some i) s (set_pc i (WorkerHas None) s)"
| takes: "i < length (pl_pcs s) \<Longrightarrow> pl_pcs s ! i = WorkerTaking \<Longrightarrow> take_task (pl_queue s) = Some (x, q) \<Longrightarrow>
     (if notifies_notFull (pl_queue s) then wakes_one post_waits wake_post ((pl_pcs s)[i := WorkerHas (Some x)]) pcs
      else pcs = (pl_pcs s)[i := WorkerHas (Some x)]) \<Longrightarrow>
     pool_step (Some i) s (s\<lparr>pl_queue := q, pl_pcs := pcs, pl_taken := pl_taken s @ [x]\<rparr>)"
| runs: "i < length (pl_pcs s) \<Longrightarrow> pl_pcs s ! i = WorkerHas t \<Longrightarrow>
     pool_step (Some i) s ((set_pc i WorkerHead s)
       \<lparr>pl_ran := case t of None \<Rightarrow> pl_ran s | Some x \<Rightarrow> pl_ran s @ [x]\<rparr>)"
| stop: "pool_step None s (pool_stop s)"
| wakes_worker: "i < length (pl_pcs s) \<Longrightarrow> pl_pcs s ! i = WorkerWaiting \<Longrightarrow>
     pool_step (Some i) s (set_pc i WorkerTaking s)"
| wakes_client: "i < length (pl_pcs s) \<Longrightarrow> pl_pcs s ! i = PostWaiting x \<Longrightarrow>
     pool_step (Some i) s (set_pc i (Posting x) s)"

inductive pool_reach :: "'x pool \<Rightarrow> 'x pool \<Rightarrow> bool" for s0 where
  pool_here: "pool_reach s0 s0"
| pool_next: "pool_reach s0 s \<Longrightarrow> pool_step l s s' \<Longrightarrow> pool_reach s0 s'"

subsection \<open>The pool as a monitor\<close>

fun mon_pc :: "'x pool_pc \<Rightarrow> 'x queue_pc" where
  "mon_pc (Posting x) = Putting x"
| "mon_pc (PostWaiting x) = PutWaiting x"
| "mon_pc WorkerTaking = Taking"
| "mon_pc WorkerWaiting = TakeWaiting"
| "mon_pc _ = Outside"

definition pool_monitor :: "'x pool \<Rightarrow> ('x task_queue, 'x) monitor" where
  "pool_monitor s = \<lparr>mon_queue = pl_queue s, mon_pcs = map mon_pc (pl_pcs s), mon_in = pl_posted s, mon_out = pl_taken s\<rparr>"

lemma wakes_one_map:
  assumes "wakes_one P f pcs pcs'" and "\<And>p. P' (g p) = P p" and "\<And>p. P p \<Longrightarrow> g (f p) = f' (g p)"
  shows "wakes_one P' f' (map g pcs) (map g pcs')"
proof -
  have count: "count_pcs P' (map g pcs) = count_pcs P pcs"
    by (simp add: count_pcs_def filter_map o_def assms(2))
  show ?thesis
    using assms(1)
  proof (cases rule: wakes_one_cases)
    case 1
    then show ?thesis
      using count by (simp add: wakes_one_def)
  next
    case (2 i)
    then have "0 < count_pcs P pcs"
      by (auto simp: count_pcs_pos)
    moreover have "map g pcs' = (map g pcs)[i := f' (map g pcs ! i)]"
      using 2 assms(3) by (simp add: map_update)
    ultimately show ?thesis
      using 2 count assms(2) by (auto simp: wakes_one_def list_ex_iff intro!: bexI [of _ i])
  qed
qed

lemma worker_waits_map [simp]: "is_take_waiting (mon_pc p) = worker_waits p"
  "worker_waits p \<Longrightarrow> mon_pc (wake_worker p) = retry_take (mon_pc p)"
  by (cases p; simp add: worker_waits_def wake_worker_def)+

lemma post_waits_map [simp]: "is_put_waiting (mon_pc p) = post_waits p"
  "post_waits p \<Longrightarrow> mon_pc (wake_post p) = retry_put (mon_pc p)"
  by (cases p; simp add: post_waits_def wake_post_def)+

text \<open>The tasks that workers hold.\<close>

fun pc_task :: "'x pool_pc \<Rightarrow> 'x multiset" where
  "pc_task (WorkerHas (Some x)) = {#x#}"
| "pc_task _ = {#}"

definition held_tasks :: "'x pool_pc list \<Rightarrow> 'x multiset" where
  "held_tasks pcs = sum_list (map pc_task pcs)"

lemma held_tasks_update:
  "i < length pcs \<Longrightarrow> held_tasks (pcs[i := p]) + pc_task (pcs ! i) = held_tasks pcs + pc_task p"
proof (induction pcs arbitrary: i)
  case (Cons q pcs)
  then show ?case
    by (cases i) (auto simp: held_tasks_def ac_simps)
qed simp

lemma held_tasks_wakes_one:
  assumes "wakes_one P f pcs pcs'" and "\<And>p. P p \<Longrightarrow> pc_task (f p) = {#} \<and> pc_task p = {#}"
  shows "held_tasks pcs' = held_tasks pcs"
  using assms(1)
proof (cases rule: wakes_one_cases)
  case (2 i)
  then show ?thesis
    using held_tasks_update [OF 2(1), of "f (pcs ! i)"] assms(2) by simp
qed simp

lemma waking_holds_nothing:
  "worker_waits p \<Longrightarrow> pc_task (wake_worker p) = {#} \<and> pc_task p = {#}"
  "post_waits p \<Longrightarrow> pc_task (wake_post p) = {#} \<and> pc_task p = {#}"
  by (cases p; simp add: worker_waits_def wake_worker_def post_waits_def wake_post_def)+

definition pool_inv :: "'x pool \<Rightarrow> bool" where
  "pool_inv s \<longleftrightarrow> tasks.monitor_inv (pool_monitor s) \<and>
     mset (pl_taken s) = mset (pl_ran s) + held_tasks (pl_pcs s) \<and>
     (\<not> pl_running s \<longrightarrow> WorkerWaiting \<notin> set (pl_pcs s))"

lemma pool_monitor_set_pc:
  "pool_monitor (set_pc i p s) = (pool_monitor s)\<lparr>mon_pcs := (mon_pcs (pool_monitor s))[i := mon_pc p]\<rparr>"
  by (simp add: pool_monitor_def map_update)

lemma pool_move_inv:
  assumes "pool_inv s" and "i < length (pl_pcs s)"
    and "is_taking (mon_pc (pl_pcs s ! i)) \<Longrightarrow> is_taking (mon_pc p) \<or> tq_items (pl_queue s) = []"
    and "is_take_waiting (mon_pc p) \<Longrightarrow> tq_items (pl_queue s) = [] \<and> pl_running s"
    and "is_putting (mon_pc (pl_pcs s ! i)) \<Longrightarrow> is_putting (mon_pc p) \<or> post_task x (pl_queue s) = None"
    and "is_put_waiting (mon_pc p) \<Longrightarrow> post_task x (pl_queue s) = None"
    and "pc_task p = pc_task (pl_pcs s ! i)"
  shows "pool_inv (set_pc i p s)"
proof -
  have "tasks.monitor_inv (pool_monitor (set_pc i p s))"
    unfolding pool_monitor_set_pc
    by (rule tasks.move_inv [where x = x]) (use assms in \<open>auto simp: pool_inv_def pool_monitor_def\<close>)
  moreover have "held_tasks ((pl_pcs s)[i := p]) = held_tasks (pl_pcs s)"
    using held_tasks_update [OF assms(2), of p] assms(7) by simp
  moreover have "WorkerWaiting \<notin> set ((pl_pcs s)[i := p])" if "\<not> pl_running s"
    using that assms(1,4) set_update_subset_insert [of "pl_pcs s" i p]
    by (cases p) (auto simp: pool_inv_def worker_waits_def)
  ultimately show ?thesis
    using assms(1) by (simp add: pool_inv_def)
qed

lemma worker_waiting_iff: "worker_waits p \<longleftrightarrow> p = WorkerWaiting"
  by (cases p) (simp_all add: worker_waits_def)

lemma set_wakes_one: "wakes_one P f pcs pcs' \<Longrightarrow> set pcs' \<subseteq> set pcs \<union> f ` {p. P p}"
  by (erule wakes_one_cases) (auto dest: set_update_subset_insert [THEN subsetD])

lemma no_waiting_after_wakes:
  assumes "wakes_one P f ((pl_pcs s)[i := p]) pcs" and "pool_inv s" and "\<not> pl_running s" and "p \<noteq> WorkerWaiting"
    and "\<And>p. P p \<Longrightarrow> f p \<noteq> WorkerWaiting"
  shows "WorkerWaiting \<notin> set pcs"
  using set_wakes_one [OF assms(1)] assms(2-5) set_update_subset_insert [of "pl_pcs s" i p]
  by (force simp: pool_inv_def)

lemma run_posts_inv:
  assumes "pool_inv s" and "i < length (pl_pcs s)" and "pl_pcs s ! i = Posting x"
    and "post_task x (pl_queue s) = Some q" and "wakes_one worker_waits wake_worker ((pl_pcs s)[i := Client]) pcs"
  shows "pool_inv (s\<lparr>pl_queue := q, pl_pcs := pcs, pl_posted := pl_posted s @ [x]\<rparr>)"
proof -
  have "wakes_one is_take_waiting retry_take ((map mon_pc (pl_pcs s))[i := Outside]) (map mon_pc pcs)"
    using wakes_one_map [OF assms(5), of is_take_waiting mon_pc retry_take] by (simp add: map_update)
  then have "tasks.monitor_inv (pool_monitor (s\<lparr>pl_queue := q, pl_pcs := pcs, pl_posted := pl_posted s @ [x]\<rparr>))"
    using tasks.puts_inv [of "pool_monitor s" i x q "map mon_pc pcs"] assms(1-4)
    by (simp add: pool_inv_def pool_monitor_def)
  moreover have "held_tasks pcs = held_tasks (pl_pcs s)"
    using held_tasks_wakes_one [OF assms(5) waking_holds_nothing(1)] held_tasks_update [OF assms(2), of Client] assms(3)
    by simp
  moreover have "WorkerWaiting \<notin> set pcs" if "\<not> pl_running s"
    by (rule no_waiting_after_wakes [OF assms(5,1) that]) (auto simp: worker_waiting_iff wake_worker_def)
  ultimately show ?thesis
    using assms(1) by (simp add: pool_inv_def)
qed

lemma takes_task_inv:
  assumes "pool_inv s" and "i < length (pl_pcs s)" and "pl_pcs s ! i = WorkerTaking"
    and "take_task (pl_queue s) = Some (x, q)"
    and "if notifies_notFull (pl_queue s) then wakes_one post_waits wake_post ((pl_pcs s)[i := WorkerHas (Some x)]) pcs
      else pcs = (pl_pcs s)[i := WorkerHas (Some x)]"
  shows "pool_inv (s\<lparr>pl_queue := q, pl_pcs := pcs, pl_taken := pl_taken s @ [x]\<rparr>)"
proof -
  have wakes: "wakes_one post_waits wake_post ((pl_pcs s)[i := WorkerHas (Some x)]) pcs" if "notifies_notFull (pl_queue s)"
    using assms(5) that by simp
  have "if notifies_notFull (pl_queue s)
    then wakes_one is_put_waiting retry_put ((map mon_pc (pl_pcs s))[i := Outside]) (map mon_pc pcs)
    else map mon_pc pcs = (map mon_pc (pl_pcs s))[i := Outside]"
    using assms(5) wakes_one_map [OF wakes, of is_put_waiting mon_pc retry_put] by (simp add: map_update)
  then have "tasks.monitor_inv (pool_monitor (s\<lparr>pl_queue := q, pl_pcs := pcs, pl_taken := pl_taken s @ [x]\<rparr>))"
    using tasks.takes_inv [of "pool_monitor s" i x q "map mon_pc pcs"] assms(1-4)
    by (simp add: pool_inv_def pool_monitor_def)
  moreover have "held_tasks pcs = held_tasks ((pl_pcs s)[i := WorkerHas (Some x)])"
    using assms(5) held_tasks_wakes_one [OF wakes waking_holds_nothing(2)] by (cases "notifies_notFull (pl_queue s)") simp_all
  then have "held_tasks pcs = add_mset x (held_tasks (pl_pcs s))"
    using held_tasks_update [OF assms(2), of "WorkerHas (Some x)"] assms(3) by simp
  moreover have "WorkerWaiting \<notin> set pcs" if "\<not> pl_running s"
  proof (cases "notifies_notFull (pl_queue s)")
    case True
    show ?thesis
      by (rule no_waiting_after_wakes [OF wakes [OF True] assms(1) that])
        (auto simp: post_waits_def wake_post_def split: pool_pc.splits)
  next
    case False
    then show ?thesis
      using assms(1,5) that set_update_subset_insert [of "pl_pcs s" i "WorkerHas (Some x)"]
      by (force simp: pool_inv_def)
  qed
  ultimately show ?thesis
    using assms(1) by (simp add: pool_inv_def)
qed

lemma runs_inv:
  assumes "pool_inv s" and "i < length (pl_pcs s)" and "pl_pcs s ! i = WorkerHas t"
  shows "pool_inv ((set_pc i WorkerHead s)\<lparr>pl_ran := case t of None \<Rightarrow> pl_ran s | Some x \<Rightarrow> pl_ran s @ [x]\<rparr>)"
proof -
  let ?s = "(set_pc i WorkerHead s)\<lparr>pl_ran := case t of None \<Rightarrow> pl_ran s | Some x \<Rightarrow> pl_ran s @ [x]\<rparr>"
  have "pool_monitor ?s = (pool_monitor s)\<lparr>mon_pcs := (mon_pcs (pool_monitor s))[i := Outside]\<rparr>"
    by (simp add: pool_monitor_def map_update)
  then have "tasks.monitor_inv (pool_monitor ?s)"
    using tasks.move_inv [of "pool_monitor s" i Outside] assms by (simp add: pool_inv_def pool_monitor_def)
  moreover have "mset (pl_taken s) = mset (pl_ran ?s) + held_tasks ((pl_pcs s)[i := WorkerHead])"
    using assms(1,3) held_tasks_update [OF assms(2), of WorkerHead]
    by (cases t) (simp_all add: pool_inv_def)
  moreover have "WorkerWaiting \<notin> set ((pl_pcs s)[i := WorkerHead])" if "\<not> pl_running s"
    using assms(1) that set_update_subset_insert [of "pl_pcs s" i WorkerHead] by (auto simp: pool_inv_def)
  ultimately show ?thesis
    by (simp add: pool_inv_def)
qed

lemma held_tasks_wakes_all:
  "(\<And>p. P p \<Longrightarrow> pc_task (f p) = {#} \<and> pc_task p = {#}) \<Longrightarrow> held_tasks (wakes_all P f pcs) = held_tasks pcs"
  by (induction pcs) (simp_all add: held_tasks_def wakes_all_def)

lemma count_wakes_all:
  "(\<And>p. P p \<Longrightarrow> Q (g (f p)) = Q (g p)) \<Longrightarrow> count_pcs Q (map g (wakes_all P f pcs)) = count_pcs Q (map g pcs)"
  by (induction pcs) (simp_all add: count_pcs_def wakes_all_def)

lemma stop_inv:
  assumes "pool_inv s"
  shows "pool_inv (pool_stop s)"
proof -
  let ?pcs = "wakes_all worker_waits wake_worker (pl_pcs s)"
  have count: "count_pcs is_putting (map mon_pc ?pcs) = count_pcs is_putting (map mon_pc (pl_pcs s))"
    "count_pcs is_put_waiting (map mon_pc ?pcs) = count_pcs is_put_waiting (map mon_pc (pl_pcs s))"
    "count_pcs is_take_waiting (map mon_pc ?pcs) = 0"
    by (auto intro!: count_wakes_all simp: worker_waiting_iff wake_worker_def post_waits_def)
      (auto simp: count_pcs_def wakes_all_def worker_waiting_iff wake_worker_def filter_empty_conv)
  have "tasks.monitor_inv (pool_monitor (pool_stop s))"
    using assms count by (simp add: pool_inv_def tasks.monitor_inv_def tasks.enough_awake_def pool_monitor_def pool_stop_def)
  moreover have "held_tasks ?pcs = held_tasks (pl_pcs s)"
    by (rule held_tasks_wakes_all) (rule waking_holds_nothing)
  moreover have "WorkerWaiting \<notin> set ?pcs"
    by (auto simp: wakes_all_def worker_waiting_iff wake_worker_def split: if_splits)
  ultimately show ?thesis
    using assms by (simp add: pool_inv_def pool_stop_def)
qed

lemma take_task_None: "take_task q = None \<longleftrightarrow> tq_items q = []"
  by (simp add: take_task_def split: list.splits)

lemma pool_step_inv: "pool_step l s s' \<Longrightarrow> pool_inv s \<Longrightarrow> pool_inv s'"
proof (induction rule: pool_step.induct)
  case (run_direct i s x)
  then show ?case
    by (simp add: pool_inv_def pool_monitor_def)
next
  case (run_waits i s x)
  then show ?case
    by (intro pool_move_inv [where x = x]) (simp_all add: worker_waits_def)
next
  case (takes i s x q pcs)
  then show ?case
    by (intro takes_task_inv)
next
  case (run_posts i s x q pcs)
  then show ?case
    by (intro run_posts_inv)
next
  case (runs i s t)
  then show ?case
    by (intro runs_inv)
qed (auto intro!: pool_move_inv stop_inv simp: take_task_None worker_waits_def post_waits_def)

lemma pool_init_inv: "pool_inv (pool_init k n c :: 'x pool)"
proof -
  have "sum_list (replicate m {#}) = ({#} :: 'x multiset)" for m
    by (induction m) simp_all
  then have "held_tasks (replicate n WorkerHead @ replicate c (Client :: 'x pool_pc)) = {#}"
    by (simp add: held_tasks_def)
  moreover have "count_pcs P (replicate m Outside) = 0" if "\<not> P Outside" for P :: "'x queue_pc \<Rightarrow> bool" and m
    using that by (simp add: count_pcs_def)
  ultimately show ?thesis
    by (simp add: pool_inv_def tasks.monitor_inv_def tasks.enough_awake_def pool_monitor_def pool_init_def
        count_pcs_def)
qed

lemma pool_reach_inv: "pool_reach s0 s \<Longrightarrow> pool_inv s0 \<Longrightarrow> pool_inv s"
  by (induction rule: pool_reach.induct) (auto intro: pool_step_inv)

lemma mon_pc_eq:
  "Taking = mon_pc p \<longleftrightarrow> p = WorkerTaking" "TakeWaiting = mon_pc p \<longleftrightarrow> p = WorkerWaiting"
  "Putting x = mon_pc p \<longleftrightarrow> p = Posting x" "PutWaiting x = mon_pc p \<longleftrightarrow> p = PostWaiting x"
  by (cases p; auto)+

subsection \<open>Properties\<close>

text \<open>C31: Under every interleaving of clients, workers and \<open>stop\<close>: tasks are taken in the order they were queued; every task taken is
  run exactly once or held by a worker about to run it; the queue respects its bound; a waiting worker with tasks in the
  queue means that a worker is on its way to take one, a waiting client with room in the queue that a client is on
  its way to post; and after \<open>stop\<close> no worker waits.\<close>

theorem pool_runs_tasks:
  assumes "pool_reach (pool_init k n c) s"
  shows "pl_posted s = pl_taken s @ tq_items (pl_queue s) \<and>
    mset (pl_taken s) = mset (pl_ran s) + held_tasks (pl_pcs s) \<and>
    (0 < tq_max (pl_queue s) \<longrightarrow> pool_queueSize (pl_queue s) \<le> tq_max (pl_queue s)) \<and>
    (WorkerWaiting \<in> set (pl_pcs s) \<longrightarrow> tq_items (pl_queue s) \<noteq> [] \<longrightarrow> WorkerTaking \<in> set (pl_pcs s)) \<and>
    (\<forall>x. PostWaiting x \<in> set (pl_pcs s) \<longrightarrow> \<not> isFull (pl_queue s) \<longrightarrow> (\<exists>y. Posting y \<in> set (pl_pcs s))) \<and>
    (\<not> pl_running s \<longrightarrow> WorkerWaiting \<notin> set (pl_pcs s))"
proof -
  have inv: "pool_inv s"
    using pool_reach_inv [OF assms pool_init_inv] .
  then have "tasks.monitor_inv (pool_monitor s)"
    by (simp add: pool_inv_def)
  note safe = tasks.monitor_inv_safe [OF this, unfolded pool_monitor_def, simplified]
  have "WorkerTaking \<in> set (pl_pcs s)" if "WorkerWaiting \<in> set (pl_pcs s)" "tq_items (pl_queue s) \<noteq> []"
    using safe(3) [OF _ that(2)] that(1) by (auto simp: image_iff mon_pc_eq)
  moreover have "\<exists>y. Posting y \<in> set (pl_pcs s)" if "PostWaiting x \<in> set (pl_pcs s)" "\<not> isFull (pl_queue s)" for x
    using safe(4) [of x x] that by (auto simp: image_iff mon_pc_eq post_task_def)
  moreover have "pool_queueSize (pl_queue s) \<le> tq_max (pl_queue s)" if "0 < tq_max (pl_queue s)"
    using safe(2) [of "tq_max (pl_queue s)"] that by (simp add: tq_bound_def pool_queueSize_def)
  ultimately show ?thesis
    using inv safe(1) by (simp add: pool_inv_def)
qed

text \<open>How far a worker is from returning once the pool is stopped.\<close>

fun worker_rank :: "'x pool_pc \<Rightarrow> nat" where
  "worker_rank WorkerWaiting = 4"
| "worker_rank WorkerTaking = 3"
| "worker_rank (WorkerHas t) = 2"
| "worker_rank WorkerHead = 1"
| "worker_rank _ = 0"

lemma nth_wakes_one:
  assumes "wakes_one P f pcs pcs'" and "\<not> P (pcs ! i)"
  shows "pcs' ! i = pcs ! i"
  using assms(1)
proof (cases rule: wakes_one_cases)
  case (2 j)
  then show ?thesis
    using assms(2) by (cases "i = j") auto
qed simp

text \<open>What one step does to the worker at position \<open>i\<close> of a stopped pool.\<close>

definition closer :: "nat option \<Rightarrow> nat \<Rightarrow> 'x pool \<Rightarrow> 'x pool \<Rightarrow> bool" where
  "closer l i s s' \<longleftrightarrow> \<not> pl_running s' \<and> is_worker (pl_pcs s' ! i) \<and>
     worker_rank (pl_pcs s' ! i) \<le> worker_rank (pl_pcs s ! i) - (if l = Some i then 1 else 0) \<and>
     (l = Some i \<longrightarrow> pl_pcs s ! i \<noteq> WorkerDone)"

lemma stopped_step_closer:
  assumes "pool_step l s s'" and "\<not> pl_running s" and "i < length (pl_pcs s)" and "is_worker (pl_pcs s ! i)"
    and "pl_pcs s ! i \<noteq> WorkerWaiting"
  shows "closer l i s s'"
  using assms
proof (induction rule: pool_step.induct)
  case (run_posts j s x q pcs)
  have j: "j \<noteq> i"
    using run_posts by auto
  then have "pcs ! i = pl_pcs s ! i"
    using nth_wakes_one [OF run_posts(4), of i] run_posts(8) by (simp add: worker_waiting_iff)
  then show ?case
    using run_posts(5-7) j by (simp add: closer_def)
next
  case (takes j s x q pcs)
  have "\<not> post_waits ((pl_pcs s)[j := WorkerHas (Some x)] ! i)"
    using takes(6,7) by (cases "i = j"; cases "pl_pcs s ! i") (simp_all add: post_waits_def)
  then have "pcs ! i = (pl_pcs s)[j := WorkerHas (Some x)] ! i"
    using takes(4) nth_wakes_one [of post_waits wake_post "(pl_pcs s)[j := WorkerHas (Some x)]" pcs i]
    by (simp split: if_splits)
  then show ?case
    using takes by (cases "i = j") (simp_all add: closer_def)
next
  case (stop s)
  then show ?case
    by (simp add: closer_def pool_stop_def wakes_all_def worker_waiting_iff)
next
  case (runs j s t)
  then show ?case
    by (cases "i = j") (simp_all add: closer_def)
next
  case (head j s)
  then show ?case
    by (cases "i = j") (simp_all add: closer_def)
next
  case (take_nothing j s)
  then show ?case
    by (cases "i = j") (simp_all add: closer_def)
next
  case (wakes_worker j s)
  then show ?case
    by (cases "i = j") (simp_all add: closer_def)
next
  case (wakes_client j s x)
  then show ?case
    by (cases "i = j") (simp_all add: closer_def)
next
  case (run_direct j s x)
  then show ?case
    by (cases "i = j") (simp_all add: closer_def)
next
  case (run_calls j s x)
  then show ?case
    by (cases "i = j") (simp_all add: closer_def)
next
  case (run_waits j s x)
  then show ?case
    by (cases "i = j") (simp_all add: closer_def)
next
  case (take_waits j s)
  then show ?case
    by (cases "i = j") (simp_all add: closer_def)
qed

lemma stopped_worker_moves:
  assumes "\<not> pl_running s" and "i < length (pl_pcs s)" and "is_worker (pl_pcs s ! i)"
    and "pl_pcs s ! i \<notin> {WorkerWaiting, WorkerDone}"
  shows "\<exists>s'. pool_step (Some i) s s'"
proof (cases "pl_pcs s ! i")
  case WorkerTaking
  show ?thesis
  proof (cases "take_task (pl_queue s)")
    case None
    then show ?thesis
      using assms WorkerTaking by (blast intro: pool_step.take_nothing)
  next
    case (Some a)
    then obtain x q where "take_task (pl_queue s) = Some (x, q)"
      by (cases a) simp
    moreover obtain pcs where "wakes_one post_waits wake_post ((pl_pcs s)[i := WorkerHas (Some x)]) pcs"
      using wakes_one_total by blast
    ultimately show ?thesis
      using assms(2) WorkerTaking pool_step.takes [of i s x q pcs] pool_step.takes [of i s x q "(pl_pcs s)[i := WorkerHas (Some x)]"]
      by (cases "notifies_notFull (pl_queue s)") auto
  qed
qed (use assms in \<open>auto intro: pool_step.head pool_step.runs\<close>)

text \<open>C32: After \<open>stop\<close> the joins return: every worker that has not returned can take a step, each of its steps brings it
  strictly closer to returning, and no step of another thread sets it back.  So a worker returns after at most three of its own
  steps.\<close>

theorem stop_joins:
  assumes "pool_reach (pool_init k n c) s" and "\<not> pl_running s"
    and "i < length (pl_pcs s)" and "is_worker (pl_pcs s ! i)"
  shows "worker_rank (pl_pcs s ! i) \<le> 3 \<and>
    (pl_pcs s ! i \<noteq> WorkerDone \<longrightarrow> (\<exists>s'. pool_step (Some i) s s')) \<and>
    (\<forall>l s'. pool_step l s s' \<longrightarrow> \<not> pl_running s' \<and> is_worker (pl_pcs s' ! i) \<and>
      worker_rank (pl_pcs s' ! i) \<le> worker_rank (pl_pcs s ! i) - (if l = Some i then 1 else 0) \<and>
      (l = Some i \<longrightarrow> pl_pcs s ! i \<noteq> WorkerDone))"
proof -
  have waits: "pl_pcs s ! i \<noteq> WorkerWaiting"
    using pool_reach_inv [OF assms(1) pool_init_inv] assms(2) nth_mem [OF assms(3)] by (force simp: pool_inv_def)
  then have "worker_rank (pl_pcs s ! i) \<le> 3"
    using assms(4) by (cases "pl_pcs s ! i") simp_all
  then show ?thesis
    using stopped_step_closer [OF _ assms(2-4) waits] stopped_worker_moves [OF assms(2-4)] waits
    by (auto simp: closer_def)
qed

definition stranded :: "nat \<Rightarrow> 'x \<Rightarrow> 'x pool \<Rightarrow> 'x pool \<Rightarrow> bool" where
  "stranded i x s s' \<longleftrightarrow> \<not> pl_running s' \<and> (\<forall>p\<in>set (pl_pcs s'). is_worker p \<longrightarrow> p = WorkerDone) \<and>
     isFull (pl_queue s) \<and> i < length (pl_pcs s') \<and> pl_pcs s' ! i \<in> {Posting x, PostWaiting x} \<and>
     pl_queue s' = pl_queue s \<and> pl_ran s' = pl_ran s"

lemma stranded_set_pc:
  assumes "stranded i x s s'" and "j = i \<Longrightarrow> p \<in> {Posting x, PostWaiting x}" and "\<not> is_worker p"
  shows "stranded i x s (set_pc j p s')"
proof -
  have "\<forall>q\<in>set ((pl_pcs s')[j := p]). is_worker q \<longrightarrow> q = WorkerDone"
    using assms(1,3) set_update_subset_insert [of "pl_pcs s'" j p] by (auto simp: stranded_def)
  then show ?thesis
    using assms(1,2) by (cases "i = j") (auto simp: stranded_def)
qed

lemma stranded_step:
  assumes "pool_step l s' s''" and "stranded i x s s'"
  shows "stranded i x s s''"
proof -
  have quiet: "\<And>j. j < length (pl_pcs s') \<Longrightarrow> is_worker (pl_pcs s' ! j) \<Longrightarrow> pl_pcs s' ! j = WorkerDone"
    using assms(2) by (auto simp: stranded_def)
  show ?thesis
    using assms quiet
  proof (induction rule: pool_step.induct)
    case (run_posts j s' y q pcs)
    then show ?case
      by (auto simp: stranded_def post_task_def)
  next
    case (stop s')
    have "WorkerWaiting \<notin> set (pl_pcs s')"
      using stop(1) by (force simp: stranded_def)
    then have "wakes_all worker_waits wake_worker (pl_pcs s') = pl_pcs s'"
      by (auto simp: wakes_all_def worker_waiting_iff intro!: map_idI)
    then show ?case
      using stop by (simp add: stranded_def pool_stop_def)
  next
    case (run_calls j s' y)
    then show ?case
      by (intro stranded_set_pc) (auto simp: stranded_def)
  next
    case (run_waits j s' y)
    then show ?case
      by (intro stranded_set_pc) (auto simp: stranded_def)
  next
    case (wakes_client j s' y)
    then show ?case
      by (intro stranded_set_pc) (auto simp: stranded_def)
  next
    case (run_direct j s' y)
    then show ?case
      by (simp add: stranded_def)
  qed fastforce+
qed

text \<open>\<open>stop\<close> notifies the workers only: a client that waits in \<open>run\<close> for room in a full queue when all workers have
  returned never returns, and the tasks in the queue are never run.\<close>

theorem stop_strands_clients:
  assumes "pool_reach s s'" and "\<not> pl_running s"
    and "\<forall>p\<in>set (pl_pcs s). is_worker p \<longrightarrow> p = WorkerDone" and "isFull (pl_queue s)"
    and "i < length (pl_pcs s)" and "pl_pcs s ! i = PostWaiting x"
  shows "pl_pcs s' ! i \<in> {Posting x, PostWaiting x} \<and> pl_queue s' = pl_queue s \<and> pl_ran s' = pl_ran s"
proof -
  have "stranded i x s s'"
    using assms(1)
  proof (induction rule: pool_reach.induct)
    case pool_here
    then show ?case
      using assms(2-6) by (simp add: stranded_def)
  next
    case (pool_next t l t')
    then show ?case
      by (blast intro: stranded_step)
  qed
  then show ?thesis
    by (simp add: stranded_def)
qed

text \<open>A pool with one worker, a queue for one task and two clients.  It is stopped at once; the first client fills the
  queue and the second waits.\<close>

definition stuck_pool :: "nat pool" where
  "stuck_pool = \<lparr>pl_queue = \<lparr>tq_items = [1], tq_max = 1\<rparr>, pl_running = False,
     pl_pcs = [WorkerDone, Client, PostWaiting 2], pl_posted = [1], pl_taken = [], pl_ran = [], pl_direct = []\<rparr>"

lemma stuck_pool_reach: "pool_reach (pool_init 1 1 2) stuck_pool"
proof -
  let ?s = "\<lambda>q r pcs. \<lparr>pl_queue = \<lparr>tq_items = q, tq_max = 1\<rparr>, pl_running = r, pl_pcs = pcs,
    pl_posted = q, pl_taken = [], pl_ran = [], pl_direct = []\<rparr> :: nat pool"
  have 0: "pool_reach (pool_init 1 1 2) (?s [] True [WorkerHead, Client, Client])"
    using pool_here [of "pool_init 1 1 2"] by (simp add: pool_init_def numeral_2_eq_2)
  have 1: "pool_step None (?s [] True [WorkerHead, Client, Client]) (?s [] False [WorkerHead, Client, Client])"
    using pool_step.stop [of "?s [] True [WorkerHead, Client, Client]"]
    by (simp add: pool_stop_def wakes_all_def worker_waiting_iff)
  have 2: "pool_step (Some 0) (?s [] False [WorkerHead, Client, Client]) (?s [] False [WorkerDone, Client, Client])"
    using pool_step.head [of 0 "?s [] False [WorkerHead, Client, Client]"] by simp
  have 3: "pool_step (Some 1) (?s [] False [WorkerDone, Client, Client]) (?s [] False [WorkerDone, Posting 1, Client])"
    using pool_step.run_calls [of 1 "?s [] False [WorkerDone, Client, Client]"] by simp
  have 4: "pool_step (Some 1) (?s [] False [WorkerDone, Posting 1, Client]) (?s [1] False [WorkerDone, Client, Client])"
    using pool_step.run_posts [of 1 "?s [] False [WorkerDone, Posting 1, Client]" 1 _ "[WorkerDone, Client, Client]"]
    by (simp add: task_queue_defs wakes_one_def count_pcs_def worker_waits_def)
  have 5: "pool_step (Some 2) (?s [1] False [WorkerDone, Client, Client]) (?s [1] False [WorkerDone, Client, Posting 2])"
    using pool_step.run_calls [of 2 "?s [1] False [WorkerDone, Client, Client]"] by simp
  have 6: "pool_step (Some 2) (?s [1] False [WorkerDone, Client, Posting 2]) stuck_pool"
    using pool_step.run_waits [of 2 "?s [1] False [WorkerDone, Client, Posting 2]" 2]
    by (simp add: task_queue_defs stuck_pool_def)
  show ?thesis
    by (rule pool_next [OF pool_next [OF pool_next [OF pool_next [OF pool_next [OF pool_next [OF 0 1] 2] 3] 4] 5] 6])
qed

theorem pool_runs_tasks_witness:
  "pl_posted stuck_pool = pl_taken stuck_pool @ tq_items (pl_queue stuck_pool) \<and> WorkerWaiting \<notin> set (pl_pcs stuck_pool)"
  using pool_runs_tasks [OF stuck_pool_reach] by (simp add: stuck_pool_def)

theorem stop_joins_witness:
  "\<exists>s'. pool_step (Some 0) (pool_stop (pool_init 1 1 0 :: nat pool)) s'"
proof -
  let ?s = "pool_stop (pool_init 1 1 0) :: nat pool"
  have "pool_reach (pool_init 1 1 0) ?s"
    by (blast intro: pool_here pool_next pool_step.stop)
  moreover have "\<not> pl_running ?s" "0 < length (pl_pcs ?s)" "pl_pcs ?s ! 0 = WorkerHead"
    by (simp_all add: pool_stop_def pool_init_def wakes_all_def worker_waiting_iff)
  ultimately show ?thesis
    using stop_joins [of 1 1 0 ?s 0] by simp
qed

theorem stop_strands_clients_witness:
  "pool_reach (pool_init 1 1 2) stuck_pool \<and> pl_pcs (set_pc 2 (Posting 2) stuck_pool) ! 2 \<in> {Posting 2, PostWaiting 2} \<and>
   isFull (pl_queue (set_pc 2 (Posting 2) stuck_pool))"
proof -
  have "pool_reach stuck_pool (set_pc 2 (Posting 2) stuck_pool)"
    by (rule pool_next [OF pool_here pool_step.wakes_client]) (simp_all add: stuck_pool_def)
  from stop_strands_clients [OF this, of 2 2] show ?thesis
    using stuck_pool_reach by (simp add: stuck_pool_def isFull_def)
qed

end
