(* ===== verification/Tcp_Client.thy ===== *)
theory Tcp_Client
  imports Connection_Owner Connector Decimal
begin

section \<open>The client: \<open>src/src/muduo/net/TcpClient.cc\<close>\<close>

text \<open>
  A \<open>TcpClient\<close> owns a connector, which hands it a connected socket, and the one connection it makes of it.  All of
  it runs in one loop.  Connections are objects of a heap, because they outlive the client; functors that the client queues are
  \<open>cl_tasks\<close>.  The destructor replaces the close callback of a connection that is still there, which \<open>cl_detached\<close> records.
\<close>

datatype client_task =
    ClDestroy nat        \<comment> \<open>\<open>bind(&TcpConnection::connectDestroyed, conn)\<close>\<close>
  | ClDetach nat         \<comment> \<open>\<open>bind(&TcpConnection::setCloseCallback, conn, cb)\<close>\<close>

record tcp_client =
  cl_name :: string
  cl_connector :: connector
  cl_retry :: bool
  cl_connect :: bool
  cl_nextConnId :: nat
  cl_connection :: "nat option"
  cl_heap :: "nat \<rightharpoonup> conn"
  cl_next :: nat
  cl_tasks :: "client_task list"
  cl_alive :: bool            \<comment> \<open>the destructor has not run\<close>
  cl_detached :: "nat option" \<comment> \<open>the connection whose close callback is \<open>detail::removeConnection\<close>\<close>

subsection \<open>Operations\<close>

definition new_tcp_client :: "string \<Rightarrow> tcp_client" where
  "new_tcp_client name =
     \<lparr>cl_name = name, cl_connector = new_connector, cl_retry = False, cl_connect = True, cl_nextConnId = 1,
      cl_connection = None, cl_heap = Map.empty, cl_next = 0, cl_tasks = [], cl_alive = True, cl_detached = None\<rparr>"

definition enableRetry :: "tcp_client \<Rightarrow> tcp_client" where
  "enableRetry c = c\<lparr>cl_retry := True\<rparr>"

definition cl_queue :: "client_task \<Rightarrow> tcp_client \<Rightarrow> tcp_client" where
  "cl_queue t c = c\<lparr>cl_tasks := cl_tasks c @ [t]\<rparr>"

definition on_client_conn :: "(conn \<Rightarrow> conn res) \<Rightarrow> nat \<Rightarrow> tcp_client \<Rightarrow> tcp_client res" where
  "on_client_conn f p c =
     (case cl_heap c p of
        None \<Rightarrow> Inl Undefined
      | Some k \<Rightarrow> bindR (f k) (\<lambda>k. Inr (c\<lparr>cl_heap := (cl_heap c)(p \<mapsto> k)\<rparr>)))"

definition client_connect :: "bool \<Rightarrow> int \<Rightarrow> int \<Rightarrow> tcp_client \<Rightarrow> tcp_client res" where
  "client_connect inLoopThread sockfd savedErrno c =
     bindR (start inLoopThread sockfd savedErrno (cl_connector c)) (\<lambda>k.
       Inr (c\<lparr>cl_connect := True, cl_connector := k\<rparr>))"

definition client_disconnect :: "bool \<Rightarrow> tcp_client \<Rightarrow> tcp_client res" where
  "client_disconnect inLoopThread c =
     (let c1 = c\<lparr>cl_connect := False\<rparr> in
      case cl_connection c1 of
        None \<Rightarrow> Inr c1
      | Some p \<Rightarrow> on_client_conn (\<lambda>k. Inr (shutdown inLoopThread k)) p c1)"

definition client_stop :: "tcp_client \<Rightarrow> tcp_client" where
  "client_stop c = c\<lparr>cl_connect := False, cl_connector := stop (cl_connector c)\<rparr>"

text \<open>\<open>snprintf\<close> into \<open>char buf[32]\<close>.\<close>

definition client_connName :: "string \<Rightarrow> tcp_client \<Rightarrow> string" where
  "client_connName ipPort c = cl_name c @ take 31 ('':'' @ ipPort @ ''#'' @ dec_nat (cl_nextConnId c))"

definition client_newConnection :: "int \<Rightarrow> tcp_client \<Rightarrow> tcp_client res" where
  "client_newConnection sockfd c =
     (if \<not> cl_alive c \<or> cl_nextConnId c = 2 ^ 31 - 1 then Inl Undefined
      else
        bindR (new_conn sockfd) (\<lambda>k.
          let p = cl_next c in
          on_client_conn connectEstablished p
            (c\<lparr>cl_nextConnId := cl_nextConnId c + 1, cl_next := Suc p, cl_heap := (cl_heap c)(p \<mapsto> k),
               cl_connection := Some p\<rparr>)))"

definition client_removeConnection :: "int \<Rightarrow> int \<Rightarrow> nat \<Rightarrow> tcp_client \<Rightarrow> tcp_client res" where
  "client_removeConnection sockfd savedErrno p c =
     asserting (cl_connection c = Some p)
       (let c1 = cl_queue (ClDestroy p) (c\<lparr>cl_connection := None\<rparr>) in
        if cl_retry c1 \<and> cl_connect c1 then
          bindR (restart_connector sockfd savedErrno (cl_connector c1)) (\<lambda>k. Inr (c1\<lparr>cl_connector := k\<rparr>))
        else Inr c1)"

text \<open>\<open>unique\<close>: nobody else has the connection.\<close>

definition destroy_client :: "bool \<Rightarrow> bool \<Rightarrow> tcp_client \<Rightarrow> tcp_client res" where
  "destroy_client inLoopThread unique c =
     (let c1 = c\<lparr>cl_connection := None, cl_alive := False\<rparr> in
      case cl_connection c of
        None \<Rightarrow> Inr (c1\<lparr>cl_connector := stop (cl_connector c1)\<rparr>)
      | Some p \<Rightarrow>
          let c2 = (if inLoopThread then c1\<lparr>cl_detached := Some p\<rparr> else cl_queue (ClDetach p) c1) in
          if unique then on_client_conn (\<lambda>k. Inr (forceClose k)) p c2 else Inr c2)"

subsection \<open>Events\<close>

text \<open>What a connection does when it calls its close callback.\<close>

definition client_closed :: "int \<Rightarrow> int \<Rightarrow> nat \<Rightarrow> tcp_client \<Rightarrow> tcp_client res" where
  "client_closed sockfd savedErrno p c =
     (if cl_detached c = Some p then Inr (cl_queue (ClDestroy p) c)
      else if \<not> cl_alive c then Inl Undefined
      else client_removeConnection sockfd savedErrno p c)"

definition client_conn_event :: "conn_label \<Rightarrow> int \<Rightarrow> int \<Rightarrow> nat \<Rightarrow> tcp_client \<Rightarrow> tcp_client res" where
  "client_conn_event l sockfd savedErrno p c =
     (case cl_heap c p of
        None \<Rightarrow> Inl Undefined
      | Some k \<Rightarrow>
          bindR (conn_step l k) (\<lambda>k'.
            let c1 = c\<lparr>cl_heap := (cl_heap c)(p \<mapsto> k')\<rparr> in
            if CloseConnCallback \<in> set (drop (length (c_effects k)) (c_effects k'))
            then client_closed sockfd savedErrno p c1 else Inr c1))"

text \<open>An event of the connector, with the call of \<open>newConnectionCallback_\<close> when it makes one.\<close>

definition client_connector_event :: "connector_event \<Rightarrow> tcp_client \<Rightarrow> tcp_client res" where
  "client_connector_event e c =
     bindR (connector_step e (cl_connector c)) (\<lambda>k.
       let c1 = c\<lparr>cl_connector := k\<rparr> in
       case drop (length (handed_over (cl_connector c))) (handed_over k) of
         [] \<Rightarrow> Inr c1
       | sockfd # _ \<Rightarrow> client_newConnection sockfd c1)"

definition client_run_task :: "tcp_client \<Rightarrow> tcp_client res" where
  "client_run_task c =
     (case cl_tasks c of
        [] \<Rightarrow> Inr c
      | ClDestroy p # ts \<Rightarrow> on_client_conn connectDestroyed p (c\<lparr>cl_tasks := ts\<rparr>)
      | ClDetach p # ts \<Rightarrow> Inr (c\<lparr>cl_tasks := ts, cl_detached := Some p\<rparr>))"

fun connector_own_event :: "connector_event \<Rightarrow> bool" where
  "connector_own_event (TaskEv sockfd err) = True"
| "connector_own_event (TimerEv sockfd err) = True"
| "connector_own_event (WriteEv err selfConnect) = True"
| "connector_own_event ErrorEv = True"
| "connector_own_event _ = False"

text \<open>The client is used by its owner until it is destroyed, in the thread of its loop.\<close>

inductive client_step :: "tcp_client \<Rightarrow> tcp_client \<Rightarrow> bool" where
  cl_connects: "cl_alive c \<Longrightarrow> client_connect inLoop sockfd err c = Inr c' \<Longrightarrow> client_step c c'"
| cl_disconnects: "cl_alive c \<Longrightarrow> client_disconnect inLoop c = Inr c' \<Longrightarrow> client_step c c'"
| cl_stops: "cl_alive c \<Longrightarrow> client_step c (client_stop c)"
| cl_enables: "cl_alive c \<Longrightarrow> client_step c (enableRetry c)"
| cl_dies: "cl_alive c \<Longrightarrow> destroy_client True unique c = Inr c' \<Longrightarrow> client_step c c'"
| cl_connector: "connector_own_event e \<Longrightarrow> client_connector_event e c = Inr c' \<Longrightarrow> client_step c c'"
| cl_conn: "user_label l \<Longrightarrow> client_conn_event l sockfd err p c = Inr c' \<Longrightarrow> client_step c c'"
| cl_task: "client_run_task c = Inr c' \<Longrightarrow> client_step c c'"

inductive client_reach :: "tcp_client \<Rightarrow> bool" where
  cl_fresh: "client_reach (new_tcp_client name)"
| cl_next: "client_reach c \<Longrightarrow> client_step c c' \<Longrightarrow> client_reach c'"

subsection \<open>The invariant\<close>

definition client_conn_ok :: "tcp_client \<Rightarrow> nat \<Rightarrow> conn \<Rightarrow> bool" where
  "client_conn_ok c p k \<longleftrightarrow> (\<exists>acc. conn_inv k acc) \<and> c_state k \<noteq> kConnecting \<and> p < cl_next c \<and>
     (if c_state k = kDisconnected
      then CloseConnCallback \<in> set (c_effects k) \<and> cl_connection c \<noteq> Some p \<and>
        count_list (cl_tasks c) (ClDestroy p) + count_list (c_effects k) RemoveChannel = 1
      else (cl_connection c = Some p \<or> cl_detached c = Some p) \<and>
        count_list (cl_tasks c) (ClDestroy p) = 0 \<and> count_list (c_effects k) RemoveChannel = 0)"

definition client_inv :: "tcp_client \<Rightarrow> bool" where
  "client_inv c \<longleftrightarrow>
     (\<forall>p k. cl_heap c p = Some k \<longrightarrow> client_conn_ok c p k) \<and>
     (\<forall>p. cl_connection c = Some p \<longrightarrow> (\<exists>k. cl_heap c p = Some k \<and> c_state k \<noteq> kDisconnected) \<and>
        cl_alive c \<and> cn_state (cl_connector c) = CnConnected) \<and>
     (\<forall>t\<in>set (cl_tasks c). \<exists>p k. t = ClDestroy p \<and> cl_heap c p = Some k) \<and>
     (cl_detached c \<noteq> None \<longrightarrow> \<not> cl_alive c) \<and>
     (\<not> cl_alive c \<longrightarrow> \<not> cn_connect (cl_connector c) \<or> cn_state (cl_connector c) = CnConnected) \<and>
     (\<not> cl_retry c \<longrightarrow> 0 < cl_next c \<longrightarrow> cn_state (cl_connector c) = CnConnected) \<and>
     connector_inv (cl_connector c)"

subsection \<open>What the connector does\<close>

lemma handed_over_simps [simp]:
  "handed_over (cn_effect e k) = handed_over k @ (case e of SockHandedOver fd \<Rightarrow> [fd] | _ \<Rightarrow> [])"
  "handed_over (cn_setState st k) = handed_over k" "handed_over (cn_queue t k) = handed_over k"
  "handed_over (k\<lparr>cn_timers := ds\<rparr>) = handed_over k" "handed_over (k\<lparr>cn_tasks := ts\<rparr>) = handed_over k"
  "handed_over (k\<lparr>cn_connect := b\<rparr>) = handed_over k" "handed_over (k\<lparr>cn_channel := ch\<rparr>) = handed_over k"
  "handed_over (k\<lparr>cn_retryDelayMs := d\<rparr>) = handed_over k"
  by (simp_all add: handed_over_def cn_effect_def cn_setState_def cn_queue_def)

lemma connector_parts [simp]:
  "cn_connect (cn_effect e k) = cn_connect k" "cn_state (cn_effect e k) = cn_state k"
  "cn_connect (cn_setState st k) = cn_connect k" "cn_state (cn_setState st k) = st"
  "cn_connect (cn_queue t k) = cn_connect k" "cn_state (cn_queue t k) = cn_state k"
  by (simp_all add: cn_effect_def cn_setState_def cn_queue_def)

lemma retry_parts:
  "handed_over (retry fd k) = handed_over k" "cn_connect (retry fd k) = cn_connect k"
  by (simp_all add: retry_def Let_def)

lemma connect_parts:
  "connect fd err k = Inr k' \<Longrightarrow> handed_over k' = handed_over k \<and> cn_connect k' = cn_connect k"
  by (auto simp: connect_def connecting_def retry_parts Let_def res_simps split: if_splits)

lemma startInLoop_parts:
  "startInLoop fd err k = Inr k' \<Longrightarrow>
     handed_over k' = handed_over k \<and> cn_connect k' = cn_connect k \<and> cn_state k = CnDisconnected"
  by (auto simp: startInLoop_def res_simps dest: connect_parts split: if_splits)

lemma removeAndResetChannel_parts:
  "removeAndResetChannel k = Inr (fd, k') \<Longrightarrow>
     handed_over k' = handed_over k \<and> cn_connect k' = cn_connect k \<and> cn_state k' = cn_state k"
  by (auto simp: removeAndResetChannel_def res_simps split: option.splits)

definition hands_over :: "connector \<Rightarrow> connector \<Rightarrow> bool" where
  "hands_over k k' \<longleftrightarrow>
     cn_connect k' = cn_connect k \<and> (cn_state k = CnConnected \<longrightarrow> cn_state k' = CnConnected) \<and>
     (handed_over k' = handed_over k \<or>
      (\<exists>fd. handed_over k' = handed_over k @ [fd] \<and> cn_connect k \<and> cn_state k = CnConnecting \<and> cn_state k' = CnConnected))"

lemma hands_over_nothing:
  "cn_connect k' = cn_connect k \<Longrightarrow> cn_state k \<noteq> CnConnected \<or> cn_state k' = CnConnected \<Longrightarrow>
   handed_over k' = handed_over k \<Longrightarrow> hands_over k k'"
  by (simp add: hands_over_def)

lemma handleConnectWrite_parts:
  assumes "handleConnectWrite err self k = Inr k'"
  shows "hands_over k k'"
proof (cases "cn_state k = CnConnecting")
  case True
  then obtain fd k1 where "removeAndResetChannel k = Inr (fd, k1)"
    using assms by (auto simp: handleConnectWrite_def res_simps)
  then show ?thesis
    using assms True removeAndResetChannel_parts [of k fd k1]
    by (auto simp: handleConnectWrite_def Let_def hands_over_def retry_parts split: if_splits)
next
  case False
  then show ?thesis
    using assms by (auto simp: handleConnectWrite_def res_simps hands_over_def)
qed

lemma own_event_parts:
  assumes "connector_own_event e" and "connector_step e k = Inr k'"
  shows "hands_over k k'"
proof (cases e)
  case (TaskEv fd err)
  show ?thesis
  proof (cases "cn_tasks k")
    case (Cons t ts)
    show ?thesis
    proof (cases t)
      case StopInLoopTask
      then show ?thesis
        using assms(2) TaskEv Cons removeAndResetChannel_parts
        by (auto simp: stopInLoop_def res_simps retry_parts split: if_splits intro!: hands_over_nothing dest!: removeAndResetChannel_parts)
    qed (use assms(2) TaskEv Cons in \<open>auto simp: resetChannel_def dest!: startInLoop_parts intro!: hands_over_nothing\<close>)
  qed (use assms(2) TaskEv in \<open>simp add: hands_over_def\<close>)
next
  case (TimerEv fd err)
  then show ?thesis
    using assms(2) by (cases "cn_timers k") (auto dest!: startInLoop_parts intro!: hands_over_nothing)
next
  case (WriteEv err self)
  then show ?thesis
    using assms(2) handleConnectWrite_parts by simp
next
  case ErrorEv
  then show ?thesis
    using assms(2) by (auto simp: handleConnectError_def res_simps retry_parts split: if_splits
        dest!: removeAndResetChannel_parts intro!: hands_over_nothing)
qed (use assms(1) in simp_all)

lemma own_event_ok: "connector_own_event e \<Longrightarrow> connector_event_ok e k"
  by (cases e) simp_all

subsection \<open>The invariant is kept\<close>

lemma client_invD:
  assumes "client_inv c"
  shows client_inv_conn: "cl_heap c p = Some k \<Longrightarrow> client_conn_ok c p k"
    and client_inv_live: "cl_connection c = Some p \<Longrightarrow> (\<exists>k. cl_heap c p = Some k \<and> c_state k \<noteq> kDisconnected) \<and>
      cl_alive c \<and> cn_state (cl_connector c) = CnConnected"
    and client_inv_task: "t \<in> set (cl_tasks c) \<Longrightarrow> \<exists>p k. t = ClDestroy p \<and> cl_heap c p = Some k"
    and client_inv_detached: "cl_detached c = Some p \<Longrightarrow> \<not> cl_alive c"
    and client_inv_dead: "\<not> cl_alive c \<Longrightarrow> \<not> cn_connect (cl_connector c) \<or> cn_state (cl_connector c) = CnConnected"
    and client_inv_once: "\<not> cl_retry c \<Longrightarrow> 0 < cl_next c \<Longrightarrow> cn_state (cl_connector c) = CnConnected"
    and client_inv_connector_inv: "connector_inv (cl_connector c)"
  using assms unfolding client_inv_def by blast+

lemma client_conn_ok_other:
  assumes "client_conn_ok c q k" and "q \<noteq> p" and "cl_next c \<le> cl_next c'"
    and "count_list (cl_tasks c') (ClDestroy q) = count_list (cl_tasks c) (ClDestroy q)"
    and "cl_connection c' = cl_connection c \<or> cl_connection c' = None \<and> cl_connection c = Some p \<or>
      cl_connection c' = Some p \<and> cl_connection c = None"
    and "cl_detached c' = cl_detached c"
  shows "client_conn_ok c' q k"
  using assms by (auto simp: client_conn_ok_def)

lemma client_conn_ok_flags [simp]:
  "client_conn_ok (c\<lparr>cl_connector := k\<rparr>) = client_conn_ok c"
  "client_conn_ok (c\<lparr>cl_connect := b\<rparr>) = client_conn_ok c"
  "client_conn_ok (c\<lparr>cl_retry := b\<rparr>) = client_conn_ok c"
  "client_conn_ok (c\<lparr>cl_alive := b\<rparr>) = client_conn_ok c"
  by (simp_all add: client_conn_ok_def fun_eq_iff)

text \<open>An operation on the connector alone.\<close>

lemma client_inv_connector:
  assumes "client_inv c" and "connector_inv k"
    and "cn_state (cl_connector c) = CnConnected \<longrightarrow> cn_state k = CnConnected"
    and "cl_alive c \<or> cn_connect k = cn_connect (cl_connector c)"
  shows "client_inv (c\<lparr>cl_connector := k\<rparr>)"
  using assms by (auto simp: client_inv_def)

lemma client_flags_inv [simp]:
  "client_inv (c\<lparr>cl_connect := b\<rparr>) = client_inv c"
  by (simp add: client_inv_def)

text \<open>A step of the connection \<open>p\<close> that does not close it, and one that does.\<close>

lemma conn_step_ok:
  assumes inv: "client_inv c" and k: "cl_heap c p = Some k" and step: "conn_step l k = Inr k'" and user: "user_label l"
  obtains acc es where "conn_inv k' acc" and "c_effects k' = c_effects k @ es" and "RemoveChannel \<notin> set es"
    and "c_state k \<noteq> kConnecting"
    and "if CloseConnCallback \<in> set es then c_state k \<noteq> kDisconnected \<and> c_state k' = kDisconnected
         else if c_state k = kDisconnected then c_state k' = kDisconnected
         else c_state k' = kConnected \<or> c_state k' = kDisconnecting"
proof -
  have ok: "client_conn_ok c p k"
    using inv k by (simp add: client_inv_def)
  then obtain acc where acc: "conn_inv k acc"
    by (auto simp: client_conn_ok_def)
  have "label_ok l"
    using user by (cases l) simp_all
  then have inv': "conn_inv k' (acc @ accepted l k)"
    using conn_step_inv [OF acc _ step] by simp
  obtain es where es: "c_effects k' = c_effects k @ es" "RemoveChannel \<notin> set es"
      "ConnectionCallback False \<in> set es \<longrightarrow> CloseConnCallback \<in> set es"
    using conn_step_tells [OF step user] by (auto simp: tells_owner_def)
  have st: "c_state k \<noteq> kConnecting" "c_state k = kDisconnected \<longrightarrow> CloseConnCallback \<in> set (c_effects k)"
    using ok by (auto simp: client_conn_ok_def split: if_splits)
  show thesis
    using that [OF inv' es(1,2) st(1)] step_closes [OF acc st(1) inv' es(1,3) st(2)] by blast
qed

lemma client_inv_update:
  assumes inv: "client_inv c" and k: "cl_heap c p = Some k"
    and ok: "client_conn_ok (c\<lparr>cl_heap := (cl_heap c)(p \<mapsto> k')\<rparr>) p k'"
    and live: "c_state k \<noteq> kDisconnected \<longrightarrow> c_state k' \<noteq> kDisconnected"
  shows "client_inv (c\<lparr>cl_heap := (cl_heap c)(p \<mapsto> k')\<rparr>)"
proof -
  let ?c = "c\<lparr>cl_heap := (cl_heap c)(p \<mapsto> k')\<rparr>"
  have "client_conn_ok ?c q j" if "cl_heap ?c q = Some j" for q j
  proof (cases "q = p")
    case False
    then have "client_conn_ok c q j"
      using inv that by (simp add: client_inv_def)
    then show ?thesis
      using client_conn_ok_other [of c q j p ?c] False by simp
  qed (use ok that in simp)
  moreover have "\<exists>j. cl_heap ?c q = Some j \<and> c_state j \<noteq> kDisconnected" if "cl_connection c = Some q" for q
    using client_inv_live [OF inv that] k live by (cases "q = p") auto
  moreover have "\<exists>q j. t = ClDestroy q \<and> cl_heap ?c q = Some j" if t: "t \<in> set (cl_tasks c)" for t
  proof -
    obtain q j where "t = ClDestroy q" "cl_heap c q = Some j"
      using client_inv_task [OF inv t] by blast
    then show ?thesis
      by (cases "q = p") auto
  qed
  ultimately show ?thesis
    using inv by (simp add: client_inv_def)
qed

lemma client_inv_close:
  assumes inv: "client_inv c" and k: "cl_heap c p = Some k" and live: "c_state k \<noteq> kDisconnected"
    and k': "conn_inv k' acc" "c_state k' = kDisconnected" "CloseConnCallback \<in> set (c_effects k')"
      "count_list (c_effects k') RemoveChannel = count_list (c_effects k) RemoveChannel"
    and c': "cl_heap c' = (cl_heap c)(p \<mapsto> k')" "cl_tasks c' = cl_tasks c @ [ClDestroy p]"
      "cl_connection c' = cl_connection c \<or> cl_connection c' = None \<and> cl_connection c = Some p"
      "cl_connection c' \<noteq> Some p"
    and same: "cl_next c' = cl_next c" "cl_detached c' = cl_detached c" "cl_alive c' = cl_alive c"
      "cl_retry c' = cl_retry c" "cl_connector c' = cl_connector c"
  shows "client_inv c'"
proof -
  have "client_conn_ok c' q j" if "cl_heap c' q = Some j" for q j
  proof (cases "q = p")
    case True
    then show ?thesis
      using that client_inv_conn [OF inv k] live k' c' same by (simp add: client_conn_ok_def count_list_append) blast
  next
    case False
    then show ?thesis
      using client_conn_ok_other [OF client_inv_conn [OF inv, of q j] False, of c'] that c' same
      by (auto simp: count_list_append)
  qed
  moreover have "(\<exists>j. cl_heap c' q = Some j \<and> c_state j \<noteq> kDisconnected) \<and> cl_alive c \<and>
      cn_state (cl_connector c) = CnConnected" if "cl_connection c' = Some q" for q
  proof -
    have "cl_connection c = Some q" "q \<noteq> p"
      using that c'(3,4) by auto
    then show ?thesis
      using client_inv_live [OF inv, of q] c'(1) by simp
  qed
  moreover have "\<exists>q j. t = ClDestroy q \<and> cl_heap c' q = Some j" if t: "t \<in> set (cl_tasks c')" for t
  proof (cases "t = ClDestroy p")
    case False
    then obtain q j where "t = ClDestroy q" "cl_heap c q = Some j"
      using client_inv_task [OF inv, of t] t c'(2) by auto
    then show ?thesis
      using c'(1) by (cases "q = p") auto
  qed (simp add: c'(1))
  ultimately show ?thesis
    using client_invD(4-) [OF inv] unfolding client_inv_def same by blast
qed

lemma client_inv_restart:
  assumes "client_inv c" and "cl_connection c = None" and "cl_alive c" and "cl_retry c" and "connector_inv k"
  shows "client_inv (c\<lparr>cl_connector := k\<rparr>)"
  using assms by (simp add: client_inv_def)

lemma restart_inv:
  assumes "connector_inv k" and "cn_state k = CnConnected" and "restart_connector sockfd err k = Inr k'"
  shows "connector_inv k'"
  using connector_step_ok [OF assms(1), of "RestartEv sockfd err" k'] assms(2,3) by simp

text \<open>The close callback finds the connection it was made for, or the client is gone and the callback was replaced.\<close>

lemma client_closed_ok:
  assumes inv: "client_inv c" and k: "cl_heap c p = Some k" and live: "c_state k \<noteq> kDisconnected"
    and k': "conn_inv k' acc" "c_state k' = kDisconnected" "CloseConnCallback \<in> set (c_effects k')"
      "count_list (c_effects k') RemoveChannel = count_list (c_effects k) RemoveChannel"
  shows "\<not> (cl_retry c \<and> cl_connect c) \<Longrightarrow> \<exists>c'. client_closed sockfd err p (c\<lparr>cl_heap := (cl_heap c)(p \<mapsto> k')\<rparr>) = Inr c'"
    and "client_closed sockfd err p (c\<lparr>cl_heap := (cl_heap c)(p \<mapsto> k')\<rparr>) = Inr c' \<Longrightarrow> client_inv c'"
proof -
  let ?c = "c\<lparr>cl_heap := (cl_heap c)(p \<mapsto> k')\<rparr>"
  have owned: "cl_connection c = Some p \<or> cl_detached c = Some p"
    using client_inv_conn [OF inv k] live by (simp add: client_conn_ok_def)
  have alive: "cl_alive c" if "cl_detached c \<noteq> Some p"
    using client_inv_live [OF inv, of p] owned that by blast
  note close = client_inv_close [OF inv k live k']
  show "\<exists>c'. client_closed sockfd err p ?c = Inr c'" if "\<not> (cl_retry c \<and> cl_connect c)"
    using owned alive that
    by (cases "cl_detached c = Some p") (auto simp: client_closed_def client_removeConnection_def cl_queue_def Let_def)
  show "client_inv c'" if res: "client_closed sockfd err p ?c = Inr c'"
  proof (cases "cl_detached c = Some p")
    case True
    then have "cl_connection c = None"
      using client_inv_detached [OF inv True] client_inv_live [OF inv] by (cases "cl_connection c") blast+
    moreover have "c' = cl_queue (ClDestroy p) ?c"
      using res True by (simp add: client_closed_def)
    ultimately show ?thesis
      by (intro close) (simp_all add: cl_queue_def)
  next
    case False
    let ?c1 = "cl_queue (ClDestroy p) (?c\<lparr>cl_connection := None\<rparr>)"
    have conn: "cl_connection c = Some p" and "cl_alive c"
      using owned False alive by auto
    have inv1: "client_inv ?c1"
      using conn by (intro close) (simp_all add: cl_queue_def)
    show ?thesis
    proof (cases "cl_retry c \<and> cl_connect c")
      case True
      then obtain j where j: "restart_connector sockfd err (cl_connector c) = Inr j" "c' = ?c1\<lparr>cl_connector := j\<rparr>"
        using res False conn \<open>cl_alive c\<close>
        by (auto simp: client_closed_def client_removeConnection_def cl_queue_def Let_def res_simps)
      have "connector_inv j"
        using restart_inv [OF client_inv_connector_inv [OF inv] _ j(1)] client_inv_live [OF inv conn] by blast
      with client_inv_restart [OF inv1, of j] True \<open>cl_alive c\<close> show ?thesis
        unfolding j(2) by (simp add: cl_queue_def)
    next
      case no: False
      then have "c' = ?c1"
        using res False conn \<open>cl_alive c\<close>
        by (auto simp: client_closed_def client_removeConnection_def cl_queue_def Let_def)
      with inv1 show ?thesis
        by simp
    qed
  qed
qed

lemma client_conn_event_ok:
  assumes inv: "client_inv c" and k: "cl_heap c p = Some k" and step: "conn_step l k = Inr k'" and user: "user_label l"
  shows "\<not> (cl_retry c \<and> cl_connect c) \<Longrightarrow> \<exists>c'. client_conn_event l sockfd err p c = Inr c'"
    and "client_conn_event l sockfd err p c = Inr c' \<Longrightarrow> client_inv c'"
proof -
  let ?c = "c\<lparr>cl_heap := (cl_heap c)(p \<mapsto> k')\<rparr>"
  obtain acc es where k': "conn_inv k' acc" "c_effects k' = c_effects k @ es" "RemoveChannel \<notin> set es" "c_state k \<noteq> kConnecting"
    and st: "if CloseConnCallback \<in> set es then c_state k \<noteq> kDisconnected \<and> c_state k' = kDisconnected
         else if c_state k = kDisconnected then c_state k' = kDisconnected
         else c_state k' = kConnected \<or> c_state k' = kDisconnecting"
    using conn_step_ok [OF inv k step user] .
  have removes: "count_list (c_effects k') RemoveChannel = count_list (c_effects k) RemoveChannel"
    using k'(2,3) by (simp add: count_list_append)
  have event: "client_conn_event l sockfd err p c =
      (if CloseConnCallback \<in> set es then client_closed sockfd err p ?c else Inr ?c)"
    using k step k'(2) by (simp add: client_conn_event_def Let_def)
  have "(\<not> (cl_retry c \<and> cl_connect c) \<longrightarrow> (\<exists>c'. client_conn_event l sockfd err p c = Inr c')) \<and>
    (client_conn_event l sockfd err p c = Inr c' \<longrightarrow> client_inv c')"
  proof (cases "CloseConnCallback \<in> set es")
    case True
    then show ?thesis
      using client_closed_ok [OF inv k _ k'(1) _ _ removes] st k'(2) unfolding event by simp
  next
    case False
    have "client_conn_ok ?c p k'"
      using client_inv_conn [OF inv k] st False k' removes
      by (auto simp: client_conn_ok_def split: if_splits)
    then show ?thesis
      using client_inv_update [OF inv k] st False unfolding event by (auto split: if_splits)
  qed
  then show "\<not> (cl_retry c \<and> cl_connect c) \<Longrightarrow> \<exists>c'. client_conn_event l sockfd err p c = Inr c'"
    and "client_conn_event l sockfd err p c = Inr c' \<Longrightarrow> client_inv c'"
    by blast+
qed

lemma client_newConnection_ok:
  assumes inv: "client_inv c" and alive: "cl_alive c" and free: "cl_connection c = None"
    and st: "cn_state (cl_connector c) = CnConnected" and id: "cl_nextConnId c \<noteq> 2 ^ 31 - 1"
  shows "\<exists>c'. client_newConnection sockfd c = Inr c' \<and> client_inv c'"
proof -
  obtain k where k: "new_conn sockfd = Inr k"
    using new_conn_returns by blast
  obtain k' where k': "connectEstablished k = Inr k'" "conn_inv k' []" "c_state k' = kConnected"
    "count_list (c_effects k') RemoveChannel = count_list (c_effects k) RemoveChannel"
    using connectEstablished_ok [OF new_conn_inv [OF k]] new_conn_state [OF k] by metis
  define c' where "c' = c\<lparr>cl_nextConnId := cl_nextConnId c + 1, cl_next := Suc (cl_next c),
      cl_heap := (cl_heap c)(cl_next c \<mapsto> k'), cl_connection := Some (cl_next c)\<rparr>"
  have new: "client_newConnection sockfd c = Inr c'"
    using alive id k k'(1) by (simp add: client_newConnection_def on_client_conn_def Let_def c'_def)
  have fresh: "cl_heap c (cl_next c) = None"
    using client_inv_conn [OF inv, of "cl_next c"] by (cases "cl_heap c (cl_next c)") (auto simp: client_conn_ok_def)
  have untold: "count_list (cl_tasks c) (ClDestroy (cl_next c)) = 0"
    using client_inv_task [OF inv, of "ClDestroy (cl_next c)"] fresh by (auto simp: count_list_0_iff)
  have "client_conn_ok c' q j" if "cl_heap c' q = Some j" for q j
  proof (cases "q = cl_next c")
    case True
    then show ?thesis
      using that k'(2-4) new_conn_state [OF k] untold by (auto simp: client_conn_ok_def c'_def)
  next
    case False
    then show ?thesis
      using client_conn_ok_other [OF client_inv_conn [OF inv, of q j] False, of c'] that free by (simp add: c'_def)
  qed
  moreover have "\<exists>q j. t = ClDestroy q \<and> cl_heap c' q = Some j" if "t \<in> set (cl_tasks c')" for t
    using client_inv_task [OF inv, of t] that fresh by (auto simp: c'_def)
  moreover have "cl_detached c = None"
    using client_inv_detached [OF inv] alive by (cases "cl_detached c") auto
  ultimately have "client_inv c'"
    using client_inv_connector_inv [OF inv] alive st k'(3) unfolding client_inv_def by (auto simp: c'_def)
  then show ?thesis
    using new by blast
qed

lemma client_connector_event_ok:
  assumes inv: "client_inv c" and own: "connector_own_event e" and step: "connector_step e (cl_connector c) = Inr k"
  shows "cl_nextConnId c \<noteq> 2 ^ 31 - 1 \<Longrightarrow> \<exists>c'. client_connector_event e c = Inr c' \<and> client_inv c'"
    and "client_connector_event e c = Inr c' \<Longrightarrow> client_inv c'"
proof -
  let ?c = "c\<lparr>cl_connector := k\<rparr>"
  have kinv: "connector_inv k"
    using connector_step_ok [OF client_inv_connector_inv [OF inv] own_event_ok [OF own] step] .
  have hands: "hands_over (cl_connector c) k"
    using own_event_parts [OF own step] .
  then have inv1: "client_inv ?c"
    by (intro client_inv_connector [OF inv kinv]) (auto simp: hands_over_def)
  have cases: "client_connector_event e c = Inr ?c \<or>
    (\<exists>fd. client_connector_event e c = client_newConnection fd ?c) \<and> cl_alive c \<and> cl_connection c = None \<and> cn_state k = CnConnected"
  proof (cases "handed_over k = handed_over (cl_connector c)")
    case True
    then show ?thesis
      using step by (simp add: client_connector_event_def)
  next
    case False
    then obtain fd where "handed_over k = handed_over (cl_connector c) @ [fd]" "cn_connect (cl_connector c)"
      "cn_state (cl_connector c) = CnConnecting" "cn_state k = CnConnected"
      using hands by (auto simp: hands_over_def)
    moreover from this have "cl_alive c" "cl_connection c = None"
      using client_inv_dead [OF inv] client_inv_live [OF inv] by (cases "cl_connection c"; fastforce)+
    ultimately show ?thesis
      using step by (auto simp: client_connector_event_def)
  qed
  then show "cl_nextConnId c \<noteq> 2 ^ 31 - 1 \<Longrightarrow> \<exists>c'. client_connector_event e c = Inr c' \<and> client_inv c'"
    using client_newConnection_ok [OF inv1] inv1 by force
  show "client_inv c'" if res: "client_connector_event e c = Inr c'"
    using cases
  proof
    assume new: "(\<exists>fd. client_connector_event e c = client_newConnection fd ?c) \<and> cl_alive c \<and> cl_connection c = None \<and> cn_state k = CnConnected"
    then obtain fd where fd: "client_newConnection fd ?c = Inr c'"
      using res by auto
    then have "cl_nextConnId ?c \<noteq> 2 ^ 31 - 1"
      by (auto simp: client_newConnection_def split: if_splits)
    then show ?thesis
      using client_newConnection_ok [OF inv1, of fd] new fd by auto
  qed (use res inv1 in simp)
qed

lemma client_destroy_task_inv:
  assumes inv: "client_inv c" and res: "client_run_task c = Inr c'"
  shows "client_inv c'"
proof (cases "cl_tasks c")
  case (Cons t ts)
  then obtain p k where t: "t = ClDestroy p" and k: "cl_heap c p = Some k"
    using client_inv_task [OF inv, of t] by auto
  obtain k' where k': "connectDestroyed k = Inr k'" "c' = c\<lparr>cl_tasks := ts, cl_heap := (cl_heap c)(p \<mapsto> k')\<rparr>"
    using res Cons t k by (auto simp: client_run_task_def on_client_conn_def res_simps)
  have ok: "client_conn_ok c p k"
    using client_inv_conn [OF inv k] .
  then have st: "c_state k = kDisconnected"
    using Cons t by (auto simp: client_conn_ok_def split: if_splits)
  obtain acc where "conn_inv k acc"
    using ok by (auto simp: client_conn_ok_def)
  then have kinv: "conn_inv k' acc"
    using conn_step_inv [of k acc ConnectDestroyed k'] k'(1) by simp
  have eff: "c_effects k' = c_effects k @ [RemoveChannel]" "c_state k' = kDisconnected"
    using k'(1) st by (auto simp: connectDestroyed_def conn_parts Let_def res_simps)
  have "client_conn_ok c' q j" if "cl_heap c' q = Some j" for q j
  proof (cases "q = p")
    case True
    then show ?thesis
      using that ok st kinv eff Cons t by (auto simp: client_conn_ok_def k'(2) count_list_append)
  next
    case False
    then show ?thesis
      using client_conn_ok_other [OF client_inv_conn [OF inv, of q j] False, of c'] that Cons t by (simp add: k'(2))
  qed
  moreover have "\<exists>j. cl_heap c' q = Some j \<and> c_state j \<noteq> kDisconnected" if "cl_connection c = Some q" for q
    using client_inv_live [OF inv that] k st by (cases "q = p") (auto simp: k'(2))
  moreover have "\<exists>q j. t' = ClDestroy q \<and> cl_heap c' q = Some j" if "t' \<in> set ts" for t'
    using client_inv_task [OF inv, of t'] that Cons by (auto simp: k'(2))
  ultimately show ?thesis
    using client_inv_live [OF inv] client_invD(4-) [OF inv] unfolding client_inv_def by (simp add: k'(2)) blast
qed (use assms in \<open>simp add: client_run_task_def\<close>)

lemma client_user_step_inv:
  assumes inv: "client_inv c" and k: "cl_heap c p = Some k" and step: "conn_step l k = Inr k'" and user: "user_label l"
    and silent: "c_effects k' = c_effects k @ es" "CloseConnCallback \<notin> set es"
  shows "client_inv (c\<lparr>cl_heap := (cl_heap c)(p \<mapsto> k')\<rparr>)"
  using client_conn_event_ok(2) [OF inv k step user, of 0 0] silent k step
  by (simp add: client_conn_event_def Let_def)

lemma client_disconnect_inv:
  assumes "client_inv c" and "client_disconnect inLoop c = Inr c'"
  shows "client_inv c'"
proof (cases "cl_connection c")
  case (Some p)
  then obtain k where k: "cl_heap c p = Some k"
    using client_inv_live [OF assms(1)] by blast
  have "CloseConnCallback \<notin> set (drop (length (c_effects k)) (c_effects (shutdown inLoop k)))"
    "\<exists>es. c_effects (shutdown inLoop k) = c_effects k @ es"
    by (auto simp: shutdown_def shutdownInLoop_def conn_parts Let_def)
  then have "client_inv (c\<lparr>cl_heap := (cl_heap c)(p \<mapsto> shutdown inLoop k)\<rparr>)"
    using client_user_step_inv [OF assms(1) k, of "Shutdown inLoop" "shutdown inLoop k"] by auto
  moreover have "c' = (c\<lparr>cl_heap := (cl_heap c)(p \<mapsto> shutdown inLoop k)\<rparr>)\<lparr>cl_connect := False\<rparr>"
    using assms(2) Some k by (cases c) (simp add: client_disconnect_def on_client_conn_def)
  ultimately show ?thesis
    using client_flags_inv by metis
qed (use assms in \<open>auto simp: client_disconnect_def\<close>)

lemma stop_parts [simp]:
  "cn_state (stop k) = cn_state k" "\<not> cn_connect (stop k)"
  by (simp_all add: stop_def)

lemma stop_connector_inv: "connector_inv k \<Longrightarrow> connector_inv (stop k)"
  using connector_step_ok [of k StopEv "stop k"] by simp

lemma client_connect_inv:
  assumes inv: "client_inv c" and alive: "cl_alive c" and res: "client_connect inLoop fd err c = Inr c'"
  shows "client_inv c'"
proof -
  obtain k where k: "start inLoop fd err (cl_connector c) = Inr k" "c' = (c\<lparr>cl_connector := k\<rparr>)\<lparr>cl_connect := True\<rparr>"
    using res by (auto simp: client_connect_def res_simps)
  have "connector_inv k"
    using connector_step_ok [OF client_inv_connector_inv [OF inv], of "StartEv inLoop fd err" k] k(1) by simp
  moreover have "cn_state (cl_connector c) = CnConnected \<longrightarrow> cn_state k = CnConnected"
    using k(1) by (auto simp: start_def Let_def split: if_splits dest: startInLoop_parts)
  ultimately show ?thesis
    unfolding k(2) client_flags_inv using alive by (intro client_inv_connector [OF inv]) auto
qed

text \<open>The destructor hands the connection over to its own close callback.\<close>

lemma client_orphan_inv:
  assumes inv: "client_inv c" and conn: "cl_connection c = Some p"
  shows "client_inv (c\<lparr>cl_connection := None, cl_alive := False, cl_detached := Some p\<rparr>)"
proof -
  have st: "cn_state (cl_connector c) = CnConnected" and alive: "cl_alive c"
    using client_inv_live [OF inv conn] by auto
  have "cl_detached c = None"
    using client_inv_detached [OF inv] alive by (cases "cl_detached c") auto
  then have "client_conn_ok (c\<lparr>cl_connection := None, cl_alive := False, cl_detached := Some p\<rparr>) q j" if "cl_heap c q = Some j" for q j
    using client_inv_conn [OF inv that] conn by (auto simp: client_conn_ok_def split: if_splits)
  then show ?thesis
    using client_inv_task [OF inv] client_inv_connector_inv [OF inv] st unfolding client_inv_def by simp
qed

lemma destroy_client_inv:
  assumes inv: "client_inv c" and alive: "cl_alive c" and res: "destroy_client True unique c = Inr c'"
  shows "client_inv c'"
proof (cases "cl_connection c")
  case None
  then have "c' = c\<lparr>cl_alive := False, cl_connector := stop (cl_connector c)\<rparr>"
    using res by (cases c) (simp add: destroy_client_def)
  moreover have "client_inv \<dots>"
    using None client_inv_conn [OF inv] client_inv_task [OF inv] client_inv_once [OF inv]
      stop_connector_inv [OF client_inv_connector_inv [OF inv]]
    unfolding client_inv_def by simp
  ultimately show ?thesis
    by simp
next
  case (Some p)
  let ?c = "c\<lparr>cl_connection := None, cl_alive := False, cl_detached := Some p\<rparr>"
  have inv1: "client_inv ?c"
    using client_orphan_inv [OF inv Some] .
  obtain k where k: "cl_heap c p = Some k"
    using client_inv_live [OF inv Some] by blast
  have "\<exists>es. c_effects (forceClose k) = c_effects k @ es \<and> CloseConnCallback \<notin> set es"
    by (auto simp: forceClose_def conn_parts)
  then have "client_inv (?c\<lparr>cl_heap := (cl_heap ?c)(p \<mapsto> forceClose k)\<rparr>)"
    using client_user_step_inv [OF inv1, of p k ForceClose "forceClose k"] k by auto
  then show ?thesis
    using res Some inv1 k by (cases unique) (auto simp: destroy_client_def Let_def on_client_conn_def)
qed

lemma client_step_inv: "client_step c c' \<Longrightarrow> client_inv c \<Longrightarrow> client_inv c'"
proof (induction rule: client_step.induct)
  case (cl_conn l fd err p c c')
  then obtain k k' where "cl_heap c p = Some k" "conn_step l k = Inr k'"
    by (auto simp: client_conn_event_def res_simps split: option.splits)
  then show ?case
    using client_conn_event_ok(2) cl_conn by blast
next
  case (cl_connector e c c')
  then obtain k where "connector_step e (Tcp_Client.cl_connector c) = Inr k"
    by (auto simp: client_connector_event_def res_simps)
  then show ?case
    using client_connector_event_ok(2) cl_connector by blast
next
  case (cl_stops c)
  then show ?case
    unfolding client_stop_def
    using client_inv_connector [OF _ stop_connector_inv [OF client_inv_connector_inv]] client_flags_inv by simp
next
  case (cl_enables c)
  then show ?case
    by (simp add: enableRetry_def client_inv_def)
qed (auto intro: client_connect_inv client_disconnect_inv destroy_client_inv client_destroy_task_inv)

lemma client_reach_inv: "client_reach c \<Longrightarrow> client_inv c"
proof (induction rule: client_reach.induct)
  case (cl_fresh name)
  show ?case
    using connector_reach_inv [OF connector_reach.fresh]
    by (simp add: client_inv_def new_tcp_client_def)
qed (rule client_step_inv)

subsection \<open>Properties\<close>


text \<open>A client without \<open>enableRetry\<close> connects once: after it has had a connection, \<open>connect\<close> in its loop fails the assertion of
  \<open>Connector::startInLoop\<close>, also when that connection is long closed, because nothing resets the state of
  the connector.\<close>

theorem client_connects_once:
  assumes "client_reach c" and "\<not> cl_retry c" and "0 < cl_next c"
  shows "client_connect True sockfd savedErrno c = Inl Assertion"
  using client_inv_once [OF client_reach_inv [OF assms(1)] assms(2,3)]
  by (simp add: client_connect_def start_def startInLoop_def)

text \<open>A client that is destroyed in another thread while it has a connection leaves the old close callback in place until
  its loop runs the functor that replaces it: a connection that closes before that calls into the destroyed
  client.\<close>

theorem destructor_race:
  assumes "client_reach c" and "cl_connection c = Some p" and "cl_heap c p = Some k"
    and "destroy_client False False c = Inr c'"
    and "conn_step (Callback CloseCallback readv w) k = Inr k'"
  shows "client_conn_event (Callback CloseCallback readv w) sockfd err p c' = Inl Undefined"
proof -
  have alive: "cl_alive c"
    using client_inv_live [OF client_reach_inv [OF assms(1)] assms(2)] by blast
  have "c' = cl_queue (ClDetach p) (c\<lparr>cl_connection := None, cl_alive := False\<rparr>)"
    using assms(2,4) by (simp add: destroy_client_def)
  then have c': "cl_heap c' = cl_heap c" "\<not> cl_alive c'" "cl_detached c' = cl_detached c"
    by (simp_all add: cl_queue_def)
  have "cl_detached c = None"
    using client_inv_detached [OF client_reach_inv [OF assms(1)]] alive by (cases "cl_detached c") auto
  moreover have "CloseConnCallback \<in> set (drop (length (c_effects k)) (c_effects k'))"
    using assms(5) by (auto simp: handleClose_def conn_parts Let_def res_simps)
  ultimately show ?thesis
    using c' assms(3,5) by (simp add: client_conn_event_def client_closed_def)
qed

lemma client_newConnection_parts:
  "client_newConnection fd c = Inr c' \<Longrightarrow>
     cl_next c' = Suc (cl_next c) \<and> cl_retry c' = cl_retry c \<and> cl_connection c' = Some (cl_next c)"
  by (auto simp: client_newConnection_def on_client_conn_def Let_def res_simps split: if_splits option.splits)

text \<open>A client that connects at the first attempt.\<close>

lemma connected_client:
  obtains c where "client_reach c" and "cl_connection c = Some 0" and "cl_next c = 1" and "\<not> cl_retry c"
proof -
  let ?ch = "enableWriting (fold setCallback [WriteCallback, ErrorCallback] (new_channel 5))"
  define c1 where "c1 = (new_tcp_client ''db'')\<lparr>cl_connector := new_connector\<lparr>cn_connect := True, cn_state := CnConnecting,
    cn_channel := Some ?ch, cn_effects := [SockOpened 5]\<rparr>\<rparr>"
  have 1: "client_connect True 5 115 (new_tcp_client ''db'') = Inr c1"
    by (simp add: client_connect_def start_def startInLoop_def connect_def connecting_def connecting_errors_def
        new_tcp_client_def new_connector_def connector_defs c1_def Let_def)
  then have r1: "client_reach c1"
    by (rule cl_next [OF cl_fresh cl_connects, rotated]) (simp add: new_tcp_client_def)
  obtain ch where ch: "channel_remove (disableAll ?ch) = Inr ch" "ch_fd ch = 5"
    by (auto simp: channel_remove_def channel_ops new_channel_def setCallback_def isNoneEvent_def)
  have "\<exists>k. connector_step (WriteEv 0 False) (cl_connector c1) = Inr k \<and> handed_over k = [5]"
    using ch by (simp add: c1_def handleConnectWrite_def removeAndResetChannel_def new_tcp_client_def new_connector_def
        handed_over_def connector_defs Let_def)
  then obtain k where k: "connector_step (WriteEv 0 False) (cl_connector c1) = Inr k" "handed_over k = [5]"
    by blast
  have "handed_over (cl_connector c1) = []"
    by (simp add: c1_def new_tcp_client_def new_connector_def handed_over_def)
  then have event: "client_connector_event (WriteEv 0 False) c1 = client_newConnection 5 (c1\<lparr>cl_connector := k\<rparr>)"
    using k by (simp add: client_connector_event_def)
  obtain c where c: "client_connector_event (WriteEv 0 False) c1 = Inr c"
    using client_connector_event_ok(1) [OF client_reach_inv [OF r1] _ k(1)] by (auto simp: c1_def new_tcp_client_def)
  then have "client_reach c"
    by (intro cl_next [OF r1 cl_connector]) simp_all
  moreover have "cl_connection c = Some 0" "cl_next c = 1" "\<not> cl_retry c"
    using client_newConnection_parts [of 5 "c1\<lparr>cl_connector := k\<rparr>" c] c event by (simp_all add: c1_def new_tcp_client_def)
  ultimately show thesis
    using that by blast
qed


theorem destructor_race_witness:
  "\<exists>c p c' readv w. client_reach c \<and> cl_connection c = Some p \<and> destroy_client False False c = Inr c' \<and>
     client_conn_event (Callback CloseCallback readv w) 0 0 p c' = Inl Undefined"
proof -
  obtain c where c: "client_reach c" "cl_connection c = Some 0" "cl_next c = 1" "\<not> cl_retry c"
    using connected_client .
  obtain k where k: "cl_heap c 0 = Some k" "c_state k \<noteq> kDisconnected"
    using client_inv_live [OF client_reach_inv [OF c(1)] c(2)] by blast
  then have "c_state k = kConnected \<or> c_state k = kDisconnecting"
    using client_inv_conn [OF client_reach_inv [OF c(1)] k(1)] by (cases "c_state k") (auto simp: client_conn_ok_def)
  then obtain k' where "conn_step (Callback CloseCallback undefined undefined) k = Inr k'"
    by (auto simp: handleClose_def Let_def)
  moreover obtain c' where "destroy_client False False c = Inr c'"
    using c(2) by (simp add: destroy_client_def)
  ultimately show ?thesis
    using destructor_race [OF c(1,2) k(1)] c by blast
qed

theorem client_connects_once_witness:
  "\<exists>c. client_reach c \<and> cl_connection c \<noteq> None \<and> client_connect True 6 0 c = Inl Assertion"
proof -
  obtain c where c: "client_reach c" "cl_connection c = Some 0" "cl_next c = 1" "\<not> cl_retry c"
    using connected_client .
  then show ?thesis
    using client_connects_once [of c 6 0] by auto
qed

end
