(* ===== verification/Protobuf_Codec.thy ===== *)
theory Protobuf_Codec
  imports Tcp_Connection
begin

section \<open>The message codec: \<open>src/src/muduo/net/protobuf/ProtobufCodecLite.cc\<close>\<close>

text \<open>
  Messages travel in frames: the length of the rest, the tag, the payload and a checksum over tag and payload.  Protobuf
  and zlib are parameters: \<open>ser\<close> serializes a message, \<open>par\<close> parses a payload, \<open>adler\<close> computes the checksum.  The callbacks of the
  codec appear as the events \<open>codec_event\<close> in the order they are made; \<open>rawCb\<close> is the optional raw callback with
  its answer.
\<close>

subsection \<open>Constants and codes\<close>

definition kHeaderLen :: nat where
  "kHeaderLen = 4"

definition kChecksumLen :: nat where
  "kChecksumLen = 4"

definition kMaxMessageLen :: int where
  "kMaxMessageLen = 64 * 1024 * 1024"

datatype codec_error =
    kNoError | kInvalidLength | kCheckSumError | kInvalidNameLen | kUnknownMessageType | kParseError

fun errorCodeToString :: "codec_error \<Rightarrow> string" where
  "errorCodeToString kNoError = ''NoError''"
| "errorCodeToString kInvalidLength = ''InvalidLength''"
| "errorCodeToString kCheckSumError = ''CheckSumError''"
| "errorCodeToString kInvalidNameLen = ''InvalidNameLen''"
| "errorCodeToString kUnknownMessageType = ''UnknownMessageType''"
| "errorCodeToString kParseError = ''ParseError''"

text \<open>The tag is fixed at construction.\<close>

record codec_lite =
  cd_tag :: "byte list"

definition kMinMessageLen :: "codec_lite \<Rightarrow> nat" where
  "kMinMessageLen cd = length (cd_tag cd) + kChecksumLen"

subsection \<open>Sending\<close>

text \<open>\<open>int byte_size\<close>: sizes from 2 GiB on overflow.\<close>

definition serializeToBuffer :: "('m \<Rightarrow> byte list) \<Rightarrow> 'm \<Rightarrow> net_buffer \<Rightarrow> (nat \<times> net_buffer) res" where
  "serializeToBuffer ser m b =
     (let bytes = ser m; byte_size = length bytes in
      if 2 ^ 31 \<le> byte_size + kChecksumLen then Inl Undefined
      else
        bindR (ensureWritableBytes (byte_size + kChecksumLen) b) (\<lambda>b1.
        bindR (hasWritten byte_size (b1\<lparr>buf_mem := write_at (beginWrite b1) bytes (buf_mem b1)\<rparr>)) (\<lambda>b2.
          Inr (byte_size, b2))))"

definition checksum :: "(byte list \<Rightarrow> 32 word) \<Rightarrow> byte list \<Rightarrow> nat \<Rightarrow> 32 word" where
  "checksum adler buf len = adler (take (len mod 2 ^ 32) buf)"

definition fillEmptyBuffer ::
  "(byte list \<Rightarrow> 32 word) \<Rightarrow> ('m \<Rightarrow> byte list) \<Rightarrow> codec_lite \<Rightarrow> 'm \<Rightarrow> net_buffer \<Rightarrow> net_buffer res" where
  "fillEmptyBuffer adler ser cd m b =
     asserting (readableBytes b = 0)
       (bindR (append_bytes (cd_tag cd) b) (\<lambda>b1.
        bindR (serializeToBuffer ser m b1) (\<lambda>(byte_size, b2).
        bindR (appendInt32 (checksum adler (drop (peek b2) (buf_mem b2)) (readableBytes b2)) b2) (\<lambda>b3.
        asserting (readableBytes b3 = length (cd_tag cd) + byte_size + kChecksumLen)
          (prepend (mem_bytes (hostToNetwork32 (word_of_nat (readableBytes b3)))) 4 b3)))))"

definition codec_send ::
  "(byte list \<Rightarrow> 32 word) \<Rightarrow> ('m \<Rightarrow> byte list) \<Rightarrow> codec_lite \<Rightarrow> bool \<Rightarrow> write_call \<Rightarrow> 'm \<Rightarrow> conn \<Rightarrow> conn res" where
  "codec_send adler ser cd inLoopThread write m c =
     bindR (new_buffer kInitialSize) (\<lambda>buf.
     bindR (fillEmptyBuffer adler ser cd m buf) (\<lambda>buf.
     bindR (send_buffer inLoopThread write buf c) (\<lambda>(buf, c). Inr c)))"

subsection \<open>Receiving\<close>

definition asInt32 :: "byte list \<Rightarrow> 32 word" where
  "asInt32 buf = networkToHost32 (of_mem_bytes (take 4 buf))"

definition validateChecksum :: "(byte list \<Rightarrow> 32 word) \<Rightarrow> byte list \<Rightarrow> nat \<Rightarrow> bool" where
  "validateChecksum adler buf len \<longleftrightarrow>
     checksum adler buf (len - kChecksumLen) = asInt32 (drop (len - kChecksumLen) buf)"

text \<open>\<open>parse\<close> reads at least the tag and the checksum; the message is there when there is no error.\<close>

definition parse ::
  "(byte list \<Rightarrow> 32 word) \<Rightarrow> (byte list \<Rightarrow> 'm option) \<Rightarrow> codec_lite \<Rightarrow> byte list \<Rightarrow> nat \<Rightarrow> (codec_error \<times> 'm option) res" where
  "parse adler par cd buf len =
     (if len < kMinMessageLen cd \<or> length buf < len then Inl Undefined
      else Inr
       (if validateChecksum adler buf len then
          if take (length (cd_tag cd)) buf = cd_tag cd then
            let data = drop (length (cd_tag cd)) buf; dataLen = len - kChecksumLen - length (cd_tag cd) in
            case par (take dataLen data) of
              Some m \<Rightarrow> (kNoError, Some m)
            | None \<Rightarrow> (kParseError, None)
          else (kUnknownMessageType, None)
        else (kCheckSumError, None)))"

datatype 'm codec_event =
    RawMessage "byte list" bool
  | GotMessage 'm
  | CodecError codec_error

text \<open>Progress of the loop: taking bytes out leaves fewer, also across the wrap-around of the indices.\<close>

lemma int_sz_sub: "int (sz_sub a b) = (int a - int b) mod 2 ^ 64"
proof -
  define M :: int where "M = 2 ^ 64"
  have "int (sz_sub a b) = (int a - int b mod M + M) mod M"
    by (simp add: sz_sub_def M_def zmod_int of_nat_diff algebra_simps)
  also have "\<dots> = (int a - int b mod M) mod M"
    by (rule mod_add_self2)
  also have "\<dots> = (int a - int b) mod M"
    by (rule mod_diff_right_eq)
  finally show ?thesis
    by (simp add: M_def)
qed

lemma retrieve_decreases:
  assumes "retrieve len b = Inr b'" and "0 < len"
  shows "readableBytes b' < readableBytes b"
proof (cases "len < readableBytes b")
  case True
  let ?M = "2 ^ 64 :: int"
  have b': "b' = b\<lparr>readerIndex := sz_add (readerIndex b) len\<rparr>"
    using assms(1) True by (simp add: retrieve_def)
  have "int (readableBytes b') = (int (writerIndex b) - int (readerIndex b) - int len) mod ?M"
    by (simp add: b' readableBytes_def int_sz_sub sz_add_def zmod_int mod_diff_right_eq diff_diff_eq)
  also have "\<dots> = (int (readableBytes b) - int len) mod ?M"
    by (simp add: readableBytes_def int_sz_sub mod_diff_left_eq)
  also have "\<dots> = int (readableBytes b) - int len"
  proof (rule mod_pos_pos_trivial)
    show "int (readableBytes b) - int len < ?M"
      using int_sz_sub [of "writerIndex b" "readerIndex b"] pos_mod_bound [of ?M "int (writerIndex b) - int (readerIndex b)"]
      by (simp add: readableBytes_def)
  qed (use True in simp)
  finally show ?thesis
    using assms(2) True by linarith
next
  case False
  then have "b' = retrieveAll b" "0 < readableBytes b"
    using assms by (auto simp: retrieve_def asserting_def split: if_splits)
  moreover have "sz_sub kCheapPrepend kCheapPrepend = 0"
    by (simp add: sz_sub_def kCheapPrepend_def)
  ultimately show ?thesis
    by (simp add: retrieveAll_def readableBytes_def)
qed

definition raw_declines :: "(byte list \<Rightarrow> bool) option \<Rightarrow> byte list \<Rightarrow> bool" where
  "raw_declines rawCb frame = (case rawCb of None \<Rightarrow> False | Some cb \<Rightarrow> \<not> cb frame)"

lemma bindR_cong [fundef_cong]:
  "m = m' \<Longrightarrow> (\<And>x. m' = Inr x \<Longrightarrow> f x = g x) \<Longrightarrow> bindR m f = bindR m' g"
  by (cases m') auto

function codec_onMessage ::
  "(byte list \<Rightarrow> 32 word) \<Rightarrow> (byte list \<Rightarrow> 'm option) \<Rightarrow> (byte list \<Rightarrow> bool) option \<Rightarrow> codec_lite \<Rightarrow> net_buffer \<Rightarrow>
     ('m codec_event list \<times> net_buffer) res" where
  "codec_onMessage adler par rawCb cd b =
     (if readableBytes b < kMinMessageLen cd + kHeaderLen then Inr ([], b)
      else
        bindR (peekInt32 b) (\<lambda>w.
        if kMaxMessageLen < sint w \<or> sint w < int (kMinMessageLen cd) then Inr ([CodecError kInvalidLength], b)
        else if readableBytes b < kHeaderLen + nat (sint w) then Inr ([], b)
        else
          let len = nat (sint w);
              frame = take (kHeaderLen + len) (drop (peek b) (buf_mem b));
              raw = (case rawCb of None \<Rightarrow> [] | Some cb \<Rightarrow> [RawMessage frame (cb frame)]) in
          if raw_declines rawCb frame then
            bindR (retrieve (kHeaderLen + len) b) (\<lambda>b1.
            bindR (codec_onMessage adler par rawCb cd b1) (\<lambda>(es, b2). Inr (raw @ es, b2)))
          else
            bindR (parse adler par cd (drop kHeaderLen frame) len) (\<lambda>(errorCode, message).
            case message of
              Some m \<Rightarrow>
                bindR (retrieve (kHeaderLen + len) b) (\<lambda>b1.
                bindR (codec_onMessage adler par rawCb cd b1) (\<lambda>(es, b2). Inr (raw @ GotMessage m # es, b2)))
            | None \<Rightarrow> Inr (raw @ [CodecError errorCode], b))))"
  by pat_completeness auto

termination
  by (relation "measure (\<lambda>(_, _, _, _, b). readableBytes b)") (auto intro: retrieve_decreases simp: kHeaderLen_def)

declare codec_onMessage.simps [simp del]

definition defaultErrorCallback :: "bool \<Rightarrow> conn \<Rightarrow> conn" where
  "defaultErrorCallback inLoopThread c = (if connected c then shutdown inLoopThread c else c)"

subsection \<open>Frames\<close>

definition frame_body :: "('m \<Rightarrow> byte list) \<Rightarrow> codec_lite \<Rightarrow> 'm \<Rightarrow> byte list" where
  "frame_body ser cd m = cd_tag cd @ ser m"

definition frame_of :: "(byte list \<Rightarrow> 32 word) \<Rightarrow> ('m \<Rightarrow> byte list) \<Rightarrow> codec_lite \<Rightarrow> 'm \<Rightarrow> byte list" where
  "frame_of adler ser cd m =
     be_bytes (word_of_nat (length (frame_body ser cd m) + kChecksumLen) :: 32 word) @
     frame_body ser cd m @ be_bytes (adler (frame_body ser cd m))"

text \<open>A message that the receiver accepts: its frame is within the limit.\<close>

definition fits_frame :: "('m \<Rightarrow> byte list) \<Rightarrow> codec_lite \<Rightarrow> 'm \<Rightarrow> bool" where
  "fits_frame ser cd m \<longleftrightarrow> int (length (frame_body ser cd m) + kChecksumLen) \<le> kMaxMessageLen"

lemma makeSpace_reader:
  "makeSpace len b = Inr b' \<Longrightarrow> readerIndex b' = readerIndex b \<or> readerIndex b' = kCheapPrepend"
  by (auto simp: makeSpace_def res_simps Let_def split: if_splits)

lemma ensureWritableBytes_reader:
  "ensureWritableBytes len b = Inr b' \<Longrightarrow> readerIndex b' = readerIndex b \<or> readerIndex b' = kCheapPrepend"
  by (auto simp: ensureWritableBytes_def res_simps dest: makeSpace_reader split: if_splits)

lemma append_bytes_reader:
  "append_bytes xs b = Inr b' \<Longrightarrow> readerIndex b' = readerIndex b \<or> readerIndex b' = kCheapPrepend"
  by (auto simp: append_bytes_def append_mem_def hasWritten_def res_simps dest: ensureWritableBytes_reader
      split: if_splits)

lemma serializeToBuffer_ok:
  assumes ok: "buf_ok b" and fits: "writerIndex b + length (ser m) + kChecksumLen \<le> max_size"
    and small: "length (ser m) + kChecksumLen < 2 ^ 31"
  obtains b' where "serializeToBuffer ser m b = Inr (length (ser m), b')" and "buf_ok b'"
    and "readable b' = readable b @ ser m"
    and "readerIndex b' = readerIndex b \<or> readerIndex b' = kCheapPrepend"
    and "writerIndex b' \<le> writerIndex b + length (ser m)"
proof -
  let ?n = "length (ser m)"
  obtain b1 where b1: "ensureWritableBytes (?n + kChecksumLen) b = Inr b1" "buf_ok b1" "readable b1 = readable b"
      "?n + kChecksumLen \<le> writableBytes b1"
    using ensureWritableBytes_cases [OF ok, of "?n + kChecksumLen"] fits by auto
  obtain b2 where b2: "hasWritten ?n (b1\<lparr>buf_mem := write_at (writerIndex b1) (ser m) (buf_mem b1)\<rparr>) = Inr b2"
      "buf_ok b2" "readable b2 = readable b1 @ ser m"
    using hasWritten_readable [OF b1(2), of "ser m"] b1(4) by auto
  have w: "writerIndex b1 \<le> writerIndex b"
    using b1(1) makeSpace_writer [OF ok] by (auto simp: ensureWritableBytes_def res_simps split: if_splits)
  have "writerIndex b2 \<le> writerIndex b1 + ?n"
    using b2(1) sz_add_le by (auto simp: hasWritten_def res_simps)
  moreover have "readerIndex b2 = readerIndex b \<or> readerIndex b2 = kCheapPrepend"
    using b2(1) ensureWritableBytes_reader [OF b1(1)] by (auto simp: hasWritten_def res_simps)
  moreover have "serializeToBuffer ser m b = Inr (?n, b2)"
    using small b1(1) b2(1) by (simp add: serializeToBuffer_def beginWrite_def)
  ultimately show thesis
    using that b2 b1(3) w by simp
qed

lemma hostToNetwork32_bytes: "mem_bytes (hostToNetwork32 w) = be_bytes w"
  by (simp add: endian_defs mem_bytes_byte_swap)

lemma fillEmptyBuffer_frame:
  assumes ok: "buf_ok b" and empty: "readable b = []" and front: "4 \<le> readerIndex b"
    and room: "writerIndex b + length (frame_of adler ser cd m) \<le> max_size"
    and small: "length (frame_body ser cd m) + kChecksumLen < 2 ^ 31"
  obtains b' where "fillEmptyBuffer adler ser cd m b = Inr b'" and "buf_ok b'"
    and "readable b' = frame_of adler ser cd m"
proof -
  have len: "length (frame_of adler ser cd m) = length (cd_tag cd) + length (ser m) + 8"
    by (simp add: frame_of_def frame_body_def)
  obtain b1 where b1: "append_bytes (cd_tag cd) b = Inr b1" "buf_ok b1" "readable b1 = cd_tag cd"
    using append_bytes_ok [OF ok, of "cd_tag cd"] room len empty by auto
  have w1: "writerIndex b1 \<le> writerIndex b + length (cd_tag cd)"
    using append_mem_writer [OF ok] b1(1) by (simp add: append_bytes_def)
  obtain b2 where b2: "serializeToBuffer ser m b1 = Inr (length (ser m), b2)" "buf_ok b2"
      "readable b2 = frame_body ser cd m" "readerIndex b2 = readerIndex b1 \<or> readerIndex b2 = kCheapPrepend"
      "writerIndex b2 \<le> writerIndex b1 + length (ser m)"
    using serializeToBuffer_ok [OF b1(2), of ser m] room len w1 small b1(3)
    by (auto simp: frame_body_def kChecksumLen_def)
  have sum: "checksum adler (drop (peek b2) (buf_mem b2)) (readableBytes b2) = adler (frame_body ser cd m)"
  proof -
    have "readableBytes b2 = length (frame_body ser cd m)"
      using b2(2,3) by (simp add: buf_ok_sizes(1))
    moreover have "take (length (frame_body ser cd m)) (drop (peek b2) (buf_mem b2)) = frame_body ser cd m"
      using readable_drop [OF b2(2)] b2(3) by (simp add: peek_def)
    ultimately show ?thesis
      using small by (simp add: checksum_def)
  qed
  obtain b3 where b3: "appendInt32 (adler (frame_body ser cd m)) b2 = Inr b3" "buf_ok b3"
      "readable b3 = frame_body ser cd m @ be_bytes (adler (frame_body ser cd m))"
    using append_bytes_ok [OF b2(2), of "be_bytes (adler (frame_body ser cd m))"] b2(3,5) w1 room len
    by (auto simp: appendInt_eq)
  have r3: "4 \<le> readerIndex b3"
    using append_bytes_reader [OF b1(1)] b2(4) front
      append_bytes_reader [of "be_bytes (adler (frame_body ser cd m))" b2 b3] b3(1)
    by (auto simp: appendInt_eq kCheapPrepend_def)
  have n3: "readableBytes b3 = length (frame_body ser cd m) + kChecksumLen"
    using b3(2,3) by (simp add: buf_ok_sizes(1) kChecksumLen_def)
  obtain b4 where b4: "prepend (be_bytes (word_of_nat (readableBytes b3) :: 32 word)) 4 b3 = Inr b4" "buf_ok b4"
      "readable b4 = be_bytes (word_of_nat (readableBytes b3) :: 32 word) @ readable b3"
    using prepend_ok [OF b3(2), of "be_bytes (word_of_nat (readableBytes b3) :: 32 word)"] r3 by auto
  have "readableBytes b = 0"
    using ok empty by (simp add: buf_ok_sizes(1))
  then have "fillEmptyBuffer adler ser cd m b = Inr b4"
    using b1(1) b2(1) sum b3(1) b4(1) n3
    by (simp add: fillEmptyBuffer_def frame_body_def hostToNetwork32_bytes)
  then show thesis
    using that b4 b3(3) n3 by (simp add: frame_of_def)
qed

subsection \<open>Receiving frames\<close>

lemma length_frame_of: "length (frame_of adler ser cd m) = kHeaderLen + (length (frame_body ser cd m) + kChecksumLen)"
  by (simp add: frame_of_def kHeaderLen_def kChecksumLen_def)

definition frame_len :: "('m \<Rightarrow> byte list) \<Rightarrow> codec_lite \<Rightarrow> 'm \<Rightarrow> nat" where
  "frame_len ser cd m = length (frame_body ser cd m) + kChecksumLen"

lemma frame_len_bounds:
  assumes "fits_frame ser cd m"
  shows "\<not> kMaxMessageLen < int (frame_len ser cd m)" and "\<not> int (frame_len ser cd m) < int (kMinMessageLen cd)"
    and "frame_len ser cd m < 2 ^ 31"
  using assms by (simp_all add: fits_frame_def kMinMessageLen_def frame_len_def frame_body_def kMaxMessageLen_def)

lemma frame_length_field:
  assumes ok: "buf_ok b" and "take 4 (readable b) = take 4 (frame_of adler ser cd m)" and fits: "fits_frame ser cd m"
  obtains w where "peekInt32 b = Inr w" and "sint w = int (frame_len ser cd m)"
proof -
  have w: "take 4 (readable b) = be_bytes (word_of_nat (frame_len ser cd m) :: 32 word)"
    using assms(2) by (simp add: frame_of_def frame_len_def del: of_nat_add)
  have "length (take 4 (readable b)) = 4"
    by (simp only: w) simp
  then have "4 \<le> length (readable b)"
    by simp
  then have "peekInt32 b = Inr (word_of_nat (frame_len ser cd m))"
    using peekInt32_eq [OF ok] w by simp
  moreover have "sint (word_of_nat (frame_len ser cd m) :: 32 word) = int (frame_len ser cd m)"
    using frame_len_bounds(3) [OF fits] by (simp add: signed_of_nat signed_take_bit_int_eq_self)
  ultimately show thesis
    using that by blast
qed

lemma parse_frame:
  assumes "par (ser m) = Some m" and "fits_frame ser cd m"
  shows "parse adler par cd (frame_body ser cd m @ be_bytes (adler (frame_body ser cd m)))
    (length (frame_body ser cd m) + kChecksumLen) = Inr (kNoError, Some m)"
proof -
  have "length (frame_body ser cd m) < 2 ^ 32"
    using assms(2) by (simp add: fits_frame_def kMaxMessageLen_def)
  moreover have "asInt32 (be_bytes w) = w" for w
    by (simp add: asInt32_def endian_defs byte_swap_of_mem_bytes)
  ultimately have "validateChecksum adler (frame_body ser cd m @ be_bytes (adler (frame_body ser cd m)))
      (length (frame_body ser cd m) + kChecksumLen)"
    by (simp add: validateChecksum_def checksum_def)
  then show ?thesis
    using assms(1) by (simp add: parse_def kMinMessageLen_def frame_body_def kChecksumLen_def)
qed

lemma retrieve_load: "retrieve n b = Inr b' \<Longrightarrow> buf_load b' \<le> buf_load b"
  by (auto simp: retrieve_def retrieveAll_def res_simps buf_load_def split: if_splits)

lemma onMessage_frame:
  assumes ok: "buf_ok b" and content: "readable b = frame_of adler ser cd m @ rest"
    and par: "par (ser m) = Some m" and fits: "fits_frame ser cd m"
  obtains b1 where "buf_ok b1" and "readable b1 = rest" and "buf_load b1 \<le> buf_load b"
    and "codec_onMessage adler par None cd b =
      bindR (codec_onMessage adler par None cd b1) (\<lambda>(es, b2). Inr (GotMessage m # es, b2))"
proof -
  let ?n = "frame_len ser cd m"
  have size: "length (frame_of adler ser cd m) = kHeaderLen + ?n"
    by (simp add: length_frame_of frame_len_def)
  have len: "readableBytes b = kHeaderLen + ?n + length rest"
    using ok content size by (simp add: buf_ok_sizes(1))
  obtain b1 where b1: "retrieve (kHeaderLen + ?n) b = Inr b1" "buf_ok b1" "readable b1 = rest"
    using retrieve_ok [OF ok, of "kHeaderLen + ?n"] content size by auto
  obtain w where w: "peekInt32 b = Inr w" "sint w = int ?n"
    using frame_length_field [OF ok _ fits, of adler] content size by (auto simp: kHeaderLen_def)
  have frame: "take (kHeaderLen + ?n) (drop (peek b) (buf_mem b)) = frame_of adler ser cd m"
    using arg_cong [OF readable_drop [OF ok], of "take (kHeaderLen + ?n)"] content size
    by (simp add: peek_def min_def)
  have "drop kHeaderLen (frame_of adler ser cd m) = frame_body ser cd m @ be_bytes (adler (frame_body ser cd m))"
    by (simp add: frame_of_def kHeaderLen_def)
  then have parsed: "parse adler par cd (drop kHeaderLen (frame_of adler ser cd m)) ?n = Inr (kNoError, Some m)"
    using parse_frame [of par ser m, OF par fits] by (simp add: frame_len_def)
  have "\<not> readableBytes b < kMinMessageLen cd + kHeaderLen" "\<not> readableBytes b < kHeaderLen + ?n"
    using len frame_len_bounds(2) [OF fits] by simp_all
  then have "codec_onMessage adler par None cd b =
      bindR (codec_onMessage adler par None cd b1) (\<lambda>(es, b2). Inr (GotMessage m # es, b2))"
    using frame_len_bounds(1,2) [OF fits] b1(1)
    by (subst codec_onMessage.simps) (simp add: w frame parsed raw_declines_def)
  then show thesis
    using that b1(2,3) retrieve_load [OF b1(1)] by blast
qed

text \<open>A proper prefix of a frame stays in the buffer.\<close>

lemma onMessage_incomplete:
  assumes ok: "buf_ok b" and content: "frame_of adler ser cd m = readable b @ missing" "missing \<noteq> []"
    and fits: "fits_frame ser cd m"
  shows "codec_onMessage adler par None cd b = Inr ([], b)"
proof (cases "readableBytes b < kMinMessageLen cd + kHeaderLen")
  case True
  then show ?thesis
    by (simp add: codec_onMessage.simps [of adler par None cd b])
next
  case False
  have "4 \<le> length (readable b)"
    using False ok by (simp add: buf_ok_sizes(1) kHeaderLen_def)
  then obtain w where w: "peekInt32 b = Inr w" "sint w = int (frame_len ser cd m)"
    using frame_length_field [OF ok _ fits, of adler] content(1) by auto
  have "readableBytes b < kHeaderLen + frame_len ser cd m"
    using arg_cong [OF content(1), of length] content(2) ok by (simp add: length_frame_of frame_len_def buf_ok_sizes(1))
  then show ?thesis
    using False frame_len_bounds(1,2) [OF fits]
    by (subst codec_onMessage.simps) (simp add: w)
qed

subsection \<open>Streams of frames\<close>

definition frames_of :: "(byte list \<Rightarrow> 32 word) \<Rightarrow> ('m \<Rightarrow> byte list) \<Rightarrow> codec_lite \<Rightarrow> 'm list \<Rightarrow> byte list" where
  "frames_of adler ser cd ms = concat (map (frame_of adler ser cd) ms)"

text \<open>Chunks arrive: each is appended to the input buffer, then the codec looks at it.\<close>

fun receive_chunks ::
  "(byte list \<Rightarrow> 32 word) \<Rightarrow> (byte list \<Rightarrow> 'm option) \<Rightarrow> codec_lite \<Rightarrow> byte list list \<Rightarrow> net_buffer \<Rightarrow>
     ('m codec_event list \<times> net_buffer) res" where
  "receive_chunks adler par cd [] b = Inr ([], b)"
| "receive_chunks adler par cd (ch # chs) b =
     bindR (append_bytes ch b) (\<lambda>b1.
     bindR (codec_onMessage adler par None cd b1) (\<lambda>(es, b2).
     bindR (receive_chunks adler par cd chs b2) (\<lambda>(es', b3). Inr (es @ es', b3))))"

text \<open>Any prefix of a stream of frames is some complete frames and a proper prefix of the next.\<close>

lemma split_frames:
  assumes "xs @ ys = concat fs" and "\<forall>f\<in>set fs. f \<noteq> []"
  obtains fs1 fs2 rest where "fs = fs1 @ fs2" and "xs = concat fs1 @ rest" and "rest @ ys = concat fs2"
    and "rest = [] \<and> fs2 = [] \<or> (\<exists>f fs' missing. fs2 = f # fs' \<and> f = rest @ missing \<and> missing \<noteq> [])"
proof -
  have "\<exists>fs1 fs2 rest. fs = fs1 @ fs2 \<and> xs = concat fs1 @ rest \<and> rest @ ys = concat fs2 \<and>
    (rest = [] \<and> fs2 = [] \<or> (\<exists>f fs' missing. fs2 = f # fs' \<and> f = rest @ missing \<and> missing \<noteq> []))"
    using assms
  proof (induction fs arbitrary: xs)
    case (Cons f fs)
    show ?case
    proof (cases "length f \<le> length xs")
      case True
      then obtain xs' where xs': "xs = f @ xs'" "xs' @ ys = concat fs"
        using Cons.prems(1) by (auto simp: append_eq_append_conv2)
      then obtain fs1 fs2 rest where "fs = fs1 @ fs2" "xs' = concat fs1 @ rest" "rest @ ys = concat fs2"
        "rest = [] \<and> fs2 = [] \<or> (\<exists>f fs' missing. fs2 = f # fs' \<and> f = rest @ missing \<and> missing \<noteq> [])"
        using Cons.IH [of xs'] Cons.prems(2) by auto
      then show ?thesis
        using xs'(1) by (intro exI [of _ "f # fs1"] exI [of _ fs2] exI [of _ rest]) simp
    next
      case False
      then obtain missing where "f = xs @ missing" "missing \<noteq> []"
        using Cons.prems(1) by (auto simp: append_eq_append_conv2)
      then show ?thesis
        using Cons.prems(1) by (intro exI [of _ "[]"] exI [of _ "f # fs"] exI [of _ xs]) simp
    qed
  qed simp
  then show thesis
    using that by blast
qed

text \<open>What the codec relies on: parsing takes serializing back, for messages within the limit.\<close>

definition format_ok :: "('m \<Rightarrow> byte list) \<Rightarrow> (byte list \<Rightarrow> 'm option) \<Rightarrow> codec_lite \<Rightarrow> 'm list \<Rightarrow> bool" where
  "format_ok ser par cd ms \<longleftrightarrow> list_all (\<lambda>m. par (ser m) = Some m \<and> fits_frame ser cd m) ms"

definition incomplete :: "(byte list \<Rightarrow> 32 word) \<Rightarrow> ('m \<Rightarrow> byte list) \<Rightarrow> codec_lite \<Rightarrow> 'm list \<Rightarrow> byte list \<Rightarrow> bool" where
  "incomplete adler ser cd ms rest \<longleftrightarrow> rest = [] \<and> ms = [] \<or>
     (\<exists>m ms' missing. ms = m # ms' \<and> frame_of adler ser cd m = rest @ missing \<and> missing \<noteq> [])"

lemma onMessage_frames:
  assumes "buf_ok b" and "readable b = frames_of adler ser cd ms @ rest"
    and "format_ok ser par cd (ms @ ms')" and "incomplete adler ser cd ms' rest"
  shows "\<exists>b'. codec_onMessage adler par None cd b = Inr (map GotMessage ms, b') \<and> buf_ok b' \<and> readable b' = rest \<and>
    buf_load b' \<le> buf_load b"
  using assms
proof (induction ms arbitrary: b)
  case Nil
  have "codec_onMessage adler par None cd b = Inr ([], b)"
  proof (cases "rest = [] \<and> ms' = []")
    case True
    then have "readableBytes b = 0"
      using Nil by (simp add: buf_ok_sizes(1) frames_of_def)
    then show ?thesis
      by (simp add: codec_onMessage.simps [of adler par None cd b] kHeaderLen_def)
  next
    case False
    then obtain m ms1 missing where "ms' = m # ms1" "frame_of adler ser cd m = rest @ missing" "missing \<noteq> []"
      using Nil(4) by (auto simp: incomplete_def)
    then show ?thesis
      using onMessage_incomplete [OF Nil(1), of adler ser cd m missing par] Nil(2,3)
      by (simp add: frames_of_def format_ok_def)
  qed
  then show ?case
    using Nil by (simp add: frames_of_def)
next
  case (Cons m ms)
  obtain b1 where b1: "buf_ok b1" "readable b1 = frames_of adler ser cd ms @ rest" "buf_load b1 \<le> buf_load b"
    "codec_onMessage adler par None cd b =
      bindR (codec_onMessage adler par None cd b1) (\<lambda>(es, b2). Inr (GotMessage m # es, b2))"
    using onMessage_frame [OF Cons.prems(1), of adler ser cd m "frames_of adler ser cd ms @ rest" par] Cons.prems(2,3)
    by (auto simp: frames_of_def format_ok_def)
  then show ?case
    using Cons.IH [OF b1(1,2)] Cons.prems(3,4) by (fastforce simp: format_ok_def)
qed

lemma frame_nonempty [simp]: "frame_of adler ser cd m \<noteq> []"
  using length_frame_of [of adler ser cd m] by (auto simp: kHeaderLen_def)

lemma receive_chunks_frames:
  assumes "buf_ok b" and "buf_load b + length (concat chs) \<le> max_size"
    and "readable b @ concat chs = frames_of adler ser cd ms" and "format_ok ser par cd ms"
    and "chs = [] \<longrightarrow> ms = []"
  shows "\<exists>b'. receive_chunks adler par cd chs b = Inr (map GotMessage ms, b') \<and> buf_ok b' \<and> readable b' = []"
  using assms
proof (induction chs arbitrary: b ms)
  case Nil
  then show ?case
    by (simp add: frames_of_def)
next
  case (Cons ch chs)
  obtain b1 where b1: "append_bytes ch b = Inr b1" "buf_ok b1" "readable b1 = readable b @ ch" "buf_load b1 \<le> buf_load b + length ch"
    using bq.put_law [OF Cons.prems(1), of ch] Cons.prems(2) by auto
  obtain fs1 fs2 rest where split: "map (frame_of adler ser cd) ms = fs1 @ fs2" "readable b @ ch = concat fs1 @ rest"
      "rest @ concat chs = concat fs2"
      "rest = [] \<and> fs2 = [] \<or> (\<exists>f fs' missing. fs2 = f # fs' \<and> f = rest @ missing \<and> missing \<noteq> [])"
  proof (rule split_frames [of "readable b @ ch" "concat chs" "map (frame_of adler ser cd) ms"])
    show "(readable b @ ch) @ concat chs = concat (map (frame_of adler ser cd) ms)"
      using Cons.prems(3) by (simp add: frames_of_def)
  qed auto
  obtain ms1 ms2 where ms: "ms = ms1 @ ms2" "fs1 = map (frame_of adler ser cd) ms1" "fs2 = map (frame_of adler ser cd) ms2"
    using split(1) by (auto simp: map_eq_append_conv)
  have inc: "incomplete adler ser cd ms2 rest"
    using split(4) ms(3) by (auto simp: incomplete_def)
  obtain b2 where b2: "codec_onMessage adler par None cd b1 = Inr (map GotMessage ms1, b2)" "buf_ok b2" "readable b2 = rest"
      "buf_load b2 \<le> buf_load b1"
    using onMessage_frames [OF b1(2) _ _ inc, of ms1 par] b1(3) split(2) ms Cons.prems(4) by (auto simp: frames_of_def)
  have "chs = [] \<longrightarrow> ms2 = []"
    using inc split(3) ms(3) by (auto simp: incomplete_def)
  then obtain b3 where "receive_chunks adler par cd chs b2 = Inr (map GotMessage ms2, b3)" "buf_ok b3" "readable b3 = []"
    using Cons.IH [OF b2(2), of ms2] b2 b1(4) Cons.prems(2,4) split(3) ms by (auto simp: frames_of_def format_ok_def)
  then show ?case
    using b1(1) b2(1) ms(1) by simp
qed

lemma fillEmptyBuffer_new:
  assumes "new_buffer kInitialSize = Inr b" and "fits_frame ser cd m"
  shows "\<exists>b'. fillEmptyBuffer adler ser cd m b = Inr b' \<and> readable b' = frame_of adler ser cd m"
proof -
  have room: "kCheapPrepend + kInitialSize \<le> max_size"
    by (simp add: kCheapPrepend_def kInitialSize_def max_size_def)
  have b: "buf_ok b" "readable b = []" "readerIndex b = kCheapPrepend" "writerIndex b = kCheapPrepend"
  proof -
    obtain b0 where b0: "new_buffer kInitialSize = Inr b0" "buf_ok b0" "readable b0 = []" "readerIndex b0 = kCheapPrepend"
      using new_buffer_ok [OF room] by blast
    then show "buf_ok b" "readable b = []" "readerIndex b = kCheapPrepend"
      using assms(1) by simp_all
    then show "writerIndex b = kCheapPrepend"
      using buf_ok_sizes(4) [of b] by (simp add: buf_ok_def)
  qed
  have n: "frame_len ser cd m \<le> 64 * 1024 * 1024"
    using assms(2) by (simp add: fits_frame_def frame_len_def kMaxMessageLen_def)
  obtain b' where "fillEmptyBuffer adler ser cd m b = Inr b'" "buf_ok b'" "readable b' = frame_of adler ser cd m"
    using fillEmptyBuffer_frame [OF b(1,2), of adler ser cd m] b(3,4) n
    by (auto simp: length_frame_of frame_len_def kCheapPrepend_def kHeaderLen_def max_size_def)
  then show ?thesis
    by blast
qed

text \<open>The bytes of a message on the wire.\<close>

definition wire_of ::
  "(byte list \<Rightarrow> 32 word) \<Rightarrow> ('m \<Rightarrow> byte list) \<Rightarrow> codec_lite \<Rightarrow> net_buffer \<Rightarrow> 'm \<Rightarrow> byte list" where
  "wire_of adler ser cd b0 m = (case fillEmptyBuffer adler ser cd m b0 of Inr b' \<Rightarrow> readable b' | Inl e \<Rightarrow> [])"

lemma wire_of_frames:
  assumes "new_buffer kInitialSize = Inr b0" and "format_ok ser par cd ms"
  shows "concat (map (wire_of adler ser cd b0) ms) = frames_of adler ser cd ms"
proof -
  have "wire_of adler ser cd b0 m = frame_of adler ser cd m" if "m \<in> set ms" for m
    using fillEmptyBuffer_new [OF assms(1), of ser cd m adler] assms(2) that
    by (auto simp: format_ok_def list_all_iff wire_of_def)
  then show ?thesis
    by (auto simp: frames_of_def intro!: arg_cong [of _ _ concat])
qed

text \<open>The frame the codec looks at, and what \<open>parse\<close> makes of it.\<close>

lemma frame_in_buffer:
  assumes "buf_ok b" and "readable b = be_bytes (w :: 32 word) @ rest" and "n \<le> length rest"
  shows "drop kHeaderLen (take (kHeaderLen + n) (drop (peek b) (buf_mem b))) = take n rest"
proof -
  have "take (kHeaderLen + n) (drop (peek b) (buf_mem b)) = take (kHeaderLen + n) (readable b)"
    using arg_cong [OF readable_drop [OF assms(1)], of "take (kHeaderLen + n)"] assms(2,3)
    by (simp add: peek_def min_def kHeaderLen_def)
  then show ?thesis
    using assms(2) by (simp add: kHeaderLen_def)
qed

lemma validateChecksum_frame:
  assumes "kMinMessageLen cd \<le> n" and "n \<le> length rest" and "int n \<le> kMaxMessageLen"
  shows "validateChecksum adler (take n rest) n \<longleftrightarrow>
    adler (take (n - kChecksumLen) rest) = of_be_bytes (take 4 (drop (n - kChecksumLen) rest))"
proof -
  have "byte_swap (of_mem_bytes (take 4 (drop (n - 4) rest)) :: 32 word) = of_be_bytes (take 4 (drop (n - 4) rest))"
    using assms by (intro byte_swap_of_mem_bytes) (simp add: kMinMessageLen_def kChecksumLen_def)
  then show ?thesis
    using assms by (simp add: validateChecksum_def checksum_def asInt32_def endian_defs
        kMinMessageLen_def kChecksumLen_def kMaxMessageLen_def min_def drop_take)
qed

lemma parse_result:
  assumes "kMinMessageLen cd \<le> n" and "n \<le> length rest" and "int n \<le> kMaxMessageLen"
  shows "parse adler par cd (take n rest) n = Inr
     (if adler (take (n - kChecksumLen) rest) \<noteq> of_be_bytes (take 4 (drop (n - kChecksumLen) rest)) then (kCheckSumError, None)
      else if take (length (cd_tag cd)) rest \<noteq> cd_tag cd then (kUnknownMessageType, None)
      else case par (drop (length (cd_tag cd)) (take (n - kChecksumLen) rest)) of
          Some m \<Rightarrow> (kNoError, Some m) | None \<Rightarrow> (kParseError, None))"
  using assms validateChecksum_frame [OF assms]
  by (simp add: parse_def Let_def kMinMessageLen_def kChecksumLen_def min_def drop_take diff_commute)

subsection \<open>Properties\<close>

text \<open>C34: Messages sent one after the other through the codec arrive one after the other: \<open>fillEmptyBuffer\<close> succeeds on every
  message within the limit, and whatever chunks the bytes it writes arrive in, the receiver's codec calls the message callback
  exactly with the messages, in order, reports no error and leaves the buffer empty.\<close>

theorem codec_stream_roundtrip:
  assumes "new_buffer kInitialSize = Inr b0" and "format_ok ser par cd ms"
    and "buf_ok b" and "readable b = []" and "buf_load b + length (concat chunks) \<le> max_size"
    and "concat chunks = concat (map (wire_of adler ser cd b0) ms)"
  shows "(\<forall>m\<in>set ms. \<exists>b'. fillEmptyBuffer adler ser cd m b0 = Inr b') \<and>
    (\<exists>b'. receive_chunks adler par cd chunks b = Inr (map GotMessage ms, b') \<and> readable b' = [])"
proof -
  have fill: "\<exists>b'. fillEmptyBuffer adler ser cd m b0 = Inr b'" if "m \<in> set ms" for m
    using fillEmptyBuffer_new [OF assms(1), of ser cd m adler] assms(2) that by (auto simp: format_ok_def list_all_iff)
  have chunks: "concat chunks = frames_of adler ser cd ms"
    unfolding assms(6) by (rule wire_of_frames [OF assms(1,2)])
  have "ms = []" if "chunks = []"
    using that chunks by (cases ms) (auto simp: frames_of_def)
  then show ?thesis
    using receive_chunks_frames [OF assms(3,5), of adler ser cd ms par] assms(2,4) chunks fill by auto
qed

definition rpc_codec :: codec_lite where
  "rpc_codec = \<lparr>cd_tag = [82, 80, 67, 48]\<rparr>"

definition byte_sum :: "byte list \<Rightarrow> 32 word" where
  "byte_sum bs = foldl (\<lambda>a b. a + ucast b) 1 bs"

theorem codec_stream_roundtrip_witness:
  "\<exists>b0 b' wire. new_buffer kInitialSize = Inr b0 \<and> length wire = 27 \<and>
     receive_chunks byte_sum Some rpc_codec [take 5 wire, drop 5 wire] sample_buffer =
       Inr ([GotMessage [1, 2], GotMessage [3]], b') \<and> readable b' = []"
proof -
  have "kCheapPrepend + kInitialSize \<le> max_size"
    by (simp add: kCheapPrepend_def kInitialSize_def max_size_def)
  then obtain b0 where b0: "new_buffer kInitialSize = Inr b0"
    using new_buffer_ok by blast
  let ?ms = "[[1, 2], [3]] :: byte list list"
  define wire where "wire = concat (map (wire_of byte_sum id rpc_codec b0) ?ms)"
  have ok: "format_ok id Some rpc_codec ?ms"
    by (simp add: format_ok_def fits_frame_def frame_body_def rpc_codec_def kChecksumLen_def kMaxMessageLen_def)
  then have fill: "\<exists>b'. fillEmptyBuffer byte_sum id rpc_codec m b0 = Inr b' \<and> readable b' = frame_of byte_sum id rpc_codec m"
    if "m \<in> set ?ms" for m
    using fillEmptyBuffer_new [OF b0, of id rpc_codec m byte_sum] that by (auto simp: format_ok_def)
  have len: "length wire = 27"
    using fill [of "[1, 2]"] fill [of "[3]"]
    by (auto simp: wire_def wire_of_def length_frame_of frame_body_def rpc_codec_def kChecksumLen_def kHeaderLen_def)
  have chunks: "concat [take 5 wire, drop 5 wire] = wire"
    by simp
  have "\<exists>b'. receive_chunks byte_sum Some rpc_codec [take 5 wire, drop 5 wire] sample_buffer =
       Inr (map GotMessage ?ms, b') \<and> readable b' = []"
    using codec_stream_roundtrip [OF b0 ok _ _ _ trans [OF chunks wire_def], of sample_buffer] len
    by (simp only: chunks sample_facts) (simp add: max_size_def)
  then show ?thesis
    using b0 len by auto
qed

text \<open>C35: What the codec does with the first frame in the buffer, by its length field, checksum, tag and payload.  On
  every error it reports the code and leaves the bytes in the buffer, so the same error is reported again with the
  next bytes that arrive.\<close>

theorem codec_error_codes:
  assumes "buf_ok b" and "readable b = be_bytes (w :: 32 word) @ rest" and "kMinMessageLen cd \<le> length rest"
  shows "codec_onMessage adler par None cd b =
    (if kMaxMessageLen < sint w \<or> sint w < int (kMinMessageLen cd) then Inr ([CodecError kInvalidLength], b)
     else let n = nat (sint w); body = take (n - kChecksumLen) rest; tag = cd_tag cd in
       if length rest < n then Inr ([], b)
       else if adler body \<noteq> of_be_bytes (take 4 (drop (n - kChecksumLen) rest)) then Inr ([CodecError kCheckSumError], b)
       else if take (length tag) rest \<noteq> tag then Inr ([CodecError kUnknownMessageType], b)
       else case par (drop (length tag) body) of
           None \<Rightarrow> Inr ([CodecError kParseError], b)
         | Some m \<Rightarrow> bindR (retrieve (kHeaderLen + n) b) (\<lambda>b1.
             bindR (codec_onMessage adler par None cd b1) (\<lambda>(es, b2). Inr (GotMessage m # es, b2))))"
proof -
  have size: "readableBytes b = kHeaderLen + length rest"
    using assms(1,2) by (simp add: buf_ok_sizes(1) kHeaderLen_def)
  have four: "take 4 (readable b) = be_bytes w" "4 \<le> length (readable b)"
    using assms(2) by simp_all
  have w: "peekInt32 b = Inr w"
    using peekInt32_eq [OF assms(1)] four by simp
  show ?thesis
  proof (cases "kMaxMessageLen < sint w \<or> sint w < int (kMinMessageLen cd)")
    case True
    then show ?thesis
      using assms(3) size w by (subst codec_onMessage.simps) simp
  next
    case False
    define n where "n = nat (sint w)"
    have n: "sint w = int n" "kMinMessageLen cd \<le> n" "int n \<le> kMaxMessageLen"
      using False by (auto simp: n_def)
    show ?thesis
    proof (cases "length rest < n")
      case True
      then show ?thesis
        using assms(3) size w n by (subst codec_onMessage.simps) (simp add: Let_def)
    next
      case no: False
      then show ?thesis
        using assms(3) size w n frame_in_buffer [OF assms(1,2), of n] parse_result [of cd n rest adler par]
        by (subst codec_onMessage.simps) (auto simp: Let_def raw_declines_def split: option.splits)
    qed
  qed
qed

theorem codec_error_codes_witness:
  "codec_onMessage byte_sum (Some :: byte list \<Rightarrow> byte list option) None rpc_codec
     (sample_buffer\<lparr>buf_mem := replicate 8 0 @ be_bytes (8 :: 32 word) @ [82, 80, 67, 48] @ be_bytes (7 :: 32 word), writerIndex := 20\<rparr>) =
   Inr ([CodecError kCheckSumError],
     sample_buffer\<lparr>buf_mem := replicate 8 0 @ be_bytes (8 :: 32 word) @ [82, 80, 67, 48] @ be_bytes (7 :: 32 word), writerIndex := 20\<rparr>)"
  (is "codec_onMessage _ _ _ _ ?b = _")
proof -
  have "buf_ok ?b" "readable ?b = be_bytes (8 :: 32 word) @ [82, 80, 67, 48] @ be_bytes (7 :: 32 word)"
    "kMinMessageLen rpc_codec \<le> length ([82, 80, 67, 48] @ be_bytes (7 :: 32 word))"
    by (simp_all add: sample_buffer_def buf_ok_def readable_def slice_of_def kCheapPrepend_def max_size_def
        kMinMessageLen_def rpc_codec_def kChecksumLen_def)
  from codec_error_codes [OF this, of byte_sum Some] show ?thesis
    by (simp add: kMaxMessageLen_def kMinMessageLen_def rpc_codec_def kChecksumLen_def Let_def byte_sum_def)
qed

end
