(* ===== verification/Atomic_Integer.thy ===== *)
theory Atomic_Integer
  imports Muduo_Prelude
begin

section \<open>Atomic integers: \<open>src/src/muduo/base/Atomic.h\<close>\<close>

text \<open>
  \<open>AtomicIntegerT\<close> over words of any width.  The compiler's built-in operations are atomic: each is one
  function of the value, which returns what it returns and the new value.  The sum that \<open>addAndGet\<close> forms after
  the built-in operation is signed arithmetic of \<open>T\<close>; its overflow is undefined.
\<close>

definition new_atomic :: "'a::len word" where
  "new_atomic = 0"

definition atomic_get :: "'a::len word \<Rightarrow> 'a word \<times> 'a word" where
  "atomic_get v = (v, v)"

definition getAndAdd :: "'a::len word \<Rightarrow> 'a word \<Rightarrow> 'a word \<times> 'a word" where
  "getAndAdd x v = (v, v + x)"

definition getAndSet :: "'a::len word \<Rightarrow> 'a word \<Rightarrow> 'a word \<times> 'a word" where
  "getAndSet newValue v = (v, newValue)"

definition addAndGet :: "'a::len word \<Rightarrow> 'a word \<Rightarrow> ('a word \<times> 'a word) res" where
  "addAndGet x v =
     (let (old, v') = getAndAdd x v in
      if sint (old + x) = sint old + sint x then Inr (old + x, v') else Inl Undefined)"

definition incrementAndGet :: "'a::len word \<Rightarrow> ('a word \<times> 'a word) res" where
  "incrementAndGet v = addAndGet 1 v"

definition decrementAndGet :: "'a::len word \<Rightarrow> ('a word \<times> 'a word) res" where
  "decrementAndGet v = addAndGet (- 1) v"

definition atomic_add :: "'a::len word \<Rightarrow> 'a word \<Rightarrow> 'a word" where
  "atomic_add x v = snd (getAndAdd x v)"

definition atomic_increment :: "'a::len word \<Rightarrow> 'a word res" where
  "atomic_increment v = bindR (incrementAndGet v) (\<lambda>(_, v'). Inr v')"

definition atomic_decrement :: "'a::len word \<Rightarrow> 'a word res" where
  "atomic_decrement v = bindR (decrementAndGet v) (\<lambda>(_, v'). Inr v')"

text \<open>The value after \<open>n\<close> increments from zero, and that the next increment returns a value that was not returned before.\<close>

lemma incrementAndGet_id:
  assumes "n + 1 < 2 ^ 63"
  shows "incrementAndGet (word_of_nat n :: 64 word) = Inr (word_of_nat (Suc n), word_of_nat (Suc n))"
proof -
  have "sint (word_of_nat k :: 64 word) = int k" if "k < 2 ^ 63" for k
    using that by (simp add: signed_of_nat signed_take_bit_int_eq_self)
  from this [of n] this [of "Suc n"] this [of 1] show ?thesis
    using assms by (simp add: incrementAndGet_def addAndGet_def getAndAdd_def add.commute)
qed

lemma ids_distinct: "n < 2 ^ 63 \<Longrightarrow> inj_on (word_of_nat :: nat \<Rightarrow> 64 word) {..n}"
  by (rule inj_on_inverseI [of _ unat]) (simp add: unat_of_nat)

end
