(* ===== verification/Rpc_Channel.thy ===== *)
theory Rpc_Channel
  imports Atomic_Integer "HOL-Library.Multiset"
begin

section \<open>Remote calls: \<open>src/src/muduo/net/protorpc\<close>\<close>

text \<open>
  \<open>RpcChannel\<close> matches responses with the calls that wait for them, and dispatches requests to services; \<open>RpcServer\<close> makes one
  for every connection.  A message sent through the codec is appended to \<open>rc_sent\<close>; that messages arrive once and in
  order is what \<open>Protobuf_Codec\<close> shows, so the two directions between a client and a server are queues of messages here.  A
  service is known by the methods it has and the requests it can parse; when and with what response it finishes a call is
  open.  The objects \<open>response\<close> and \<open>done\<close> of a call are the handle \<open>'h\<close>.
\<close>

subsection \<open>Messages\<close>

datatype message_type = REQUEST | RESPONSE | ERROR

datatype rpc_error = NO_ERROR | WRONG_PROTO | NO_SERVICE | NO_METHOD | INVALID_REQUEST | INVALID_RESPONSE | TIMEOUT

record rpc_message =
  rm_type :: message_type
  rm_id :: "64 word"
  rm_service :: string
  rm_method :: string
  rm_request :: "byte list"
  rm_response :: "byte list option"
  rm_error :: "rpc_error option"

definition blank_message :: "message_type \<Rightarrow> 64 word \<Rightarrow> rpc_message" where
  "blank_message t i = \<lparr>rm_type = t, rm_id = i, rm_service = '''', rm_method = '''', rm_request = [],
     rm_response = None, rm_error = None\<rparr>"

text \<open>A service: for each of its methods, whether a request can be parsed.\<close>

type_synonym rpc_service = "string \<rightharpoonup> (byte list \<Rightarrow> bool)"

subsection \<open>The channel\<close>

datatype 'h channel_event =
    CallDone 'h "byte list option"                  \<comment> \<open>\<open>done->Run()\<close>, with the response that was parsed, if any\<close>
  | CallService "64 word" string string "byte list" \<comment> \<open>\<open>service->CallMethod\<close> for the request of this id\<close>

record 'h rpc_channel =
  rc_id :: "64 word"
  rc_outstandings :: "64 word \<rightharpoonup> 'h"
  rc_services :: "(string \<rightharpoonup> rpc_service) option"
  rc_sent :: "rpc_message list"
  rc_events :: "'h channel_event list"

definition new_rpc_channel :: "'h rpc_channel" where
  "new_rpc_channel = \<lparr>rc_id = new_atomic, rc_outstandings = Map.empty, rc_services = None, rc_sent = [], rc_events = []\<rparr>"

definition setServices :: "(string \<rightharpoonup> rpc_service) \<Rightarrow> 'h rpc_channel \<Rightarrow> 'h rpc_channel" where
  "setServices s ch = ch\<lparr>rc_services := Some s\<rparr>"

definition rpc_send :: "rpc_message \<Rightarrow> 'h rpc_channel \<Rightarrow> 'h rpc_channel" where
  "rpc_send m ch = ch\<lparr>rc_sent := rc_sent ch @ [m]\<rparr>"

definition callMethod :: "string \<Rightarrow> string \<Rightarrow> byte list \<Rightarrow> 'h \<Rightarrow> 'h rpc_channel \<Rightarrow> 'h rpc_channel res" where
  "callMethod service method request out ch =
     bindR (incrementAndGet (rc_id ch)) (\<lambda>(i, rcid).
       Inr (rpc_send ((blank_message REQUEST i)\<lparr>rm_service := service, rm_method := method, rm_request := request\<rparr>)
         (ch\<lparr>rc_id := rcid, rc_outstandings := (rc_outstandings ch)(i \<mapsto> out)\<rparr>)))"

text \<open>The error a request is answered with, \<open>NO_ERROR\<close> when the service is called.\<close>

definition request_error :: "rpc_message \<Rightarrow> 'h rpc_channel \<Rightarrow> rpc_error" where
  "request_error m ch =
     (case rc_services ch of
        None \<Rightarrow> NO_SERVICE
      | Some services \<Rightarrow>
          case services (rm_service m) of
            None \<Rightarrow> NO_SERVICE
          | Some service \<Rightarrow>
              case service (rm_method m) of
                None \<Rightarrow> NO_METHOD
              | Some parses \<Rightarrow> if parses (rm_request m) then NO_ERROR else INVALID_REQUEST)"

text \<open>\<open>sameConn\<close> is the assertion at the start.  What \<open>ParseFromString\<close> of the response object returns is not looked at, so the
  event carries the bytes it was given; a response without bytes leaves the object as the caller made it.\<close>

definition onRpcMessage :: "bool \<Rightarrow> rpc_message \<Rightarrow> 'h rpc_channel \<Rightarrow> 'h rpc_channel res" where
  "onRpcMessage sameConn m ch =
     asserting sameConn
       (case rm_type m of
          RESPONSE \<Rightarrow>
            asserting (rm_response m \<noteq> None \<or> rm_error m \<noteq> None)
              (case rc_outstandings ch (rm_id m) of
                 None \<Rightarrow> Inr ch
               | Some out \<Rightarrow>
                   Inr (ch\<lparr>rc_outstandings := (rc_outstandings ch)(rm_id m := None),
                           rc_events := rc_events ch @ [CallDone out (rm_response m)]\<rparr>))
        | REQUEST \<Rightarrow>
            (let e = request_error m ch in
             if e = NO_ERROR
             then Inr (ch\<lparr>rc_events := rc_events ch @ [CallService (rm_id m) (rm_service m) (rm_method m) (rm_request m)]\<rparr>)
             else Inr (rpc_send ((blank_message RESPONSE (rm_id m))\<lparr>rm_error := Some e\<rparr>) ch))
        | ERROR \<Rightarrow> Inr ch)"

definition doneCallback :: "byte list \<Rightarrow> 64 word \<Rightarrow> 'h rpc_channel \<Rightarrow> 'h rpc_channel" where
  "doneCallback response i ch = rpc_send ((blank_message RESPONSE i)\<lparr>rm_response := Some response\<rparr>) ch"

text \<open>The destructor deletes what still waits, without running it.\<close>

definition destroy_rpc_channel :: "'h rpc_channel \<Rightarrow> 'h set" where
  "destroy_rpc_channel ch = ran (rc_outstandings ch)"

subsection \<open>The server\<close>

record rpc_server =
  rs_services :: "string \<rightharpoonup> rpc_service"
  rs_channel :: "unit rpc_channel option"       \<comment> \<open>the context of a connection\<close>

text \<open>A channel points to the map of the server, so a service that is registered later is seen by it too.\<close>

definition registerService :: "string \<Rightarrow> rpc_service \<Rightarrow> rpc_server \<Rightarrow> rpc_server" where
  "registerService name service s =
     (let services = (rs_services s)(name \<mapsto> service)
      in s\<lparr>rs_services := services, rs_channel := map_option (setServices services) (rs_channel s)\<rparr>)"

definition rpc_onConnection :: "bool \<Rightarrow> rpc_server \<Rightarrow> rpc_server" where
  "rpc_onConnection connected s =
     s\<lparr>rs_channel := if connected then Some (setServices (rs_services s) new_rpc_channel) else None\<rparr>"

text \<open>A service finishes a call: the closure it was given points to the channel.\<close>

definition service_finishes :: "byte list \<Rightarrow> 64 word \<Rightarrow> rpc_server \<Rightarrow> rpc_server res" where
  "service_finishes response i s =
     (case rs_channel s of
        None \<Rightarrow> Inl Undefined
      | Some ch \<Rightarrow> Inr (s\<lparr>rs_channel := Some (doneCallback response i ch)\<rparr>))"

subsection \<open>A client and a server\<close>

record 'h rpc_link =
  rl_client :: "'h rpc_channel"
  rl_server :: "unit rpc_channel"
  rl_requests :: "rpc_message list"         \<comment> \<open>on the way to the server\<close>
  rl_running :: "(64 word \<times> string \<times> string \<times> byte list) list" \<comment> \<open>calls the services work on\<close>
  rl_replies :: "rpc_message list"          \<comment> \<open>on the way to the client\<close>
  rl_called :: "(64 word \<times> string \<times> string \<times> byte list \<times> 'h) list" \<comment> \<open>calls made\<close>
  rl_finished :: "(64 word \<times> byte list) list" \<comment> \<open>responses given by services\<close>
  rl_returned :: "(64 word \<times> 'h \<times> byte list option) list" \<comment> \<open>calls that returned\<close>

definition new_link :: "(string \<rightharpoonup> rpc_service) \<Rightarrow> 'h rpc_link" where
  "new_link services = \<lparr>rl_client = new_rpc_channel, rl_server = setServices services new_rpc_channel,
     rl_requests = [], rl_running = [], rl_replies = [], rl_called = [], rl_finished = [], rl_returned = []\<rparr>"

text \<open>What a channel sent and which services it called in a step.\<close>

definition new_sent :: "'h rpc_channel \<Rightarrow> 'h rpc_channel \<Rightarrow> rpc_message list" where
  "new_sent ch ch' = drop (length (rc_sent ch)) (rc_sent ch')"

definition new_calls :: "unit rpc_channel \<Rightarrow> unit rpc_channel \<Rightarrow> (64 word \<times> string \<times> string \<times> byte list) list" where
  "new_calls ch ch' = concat (map (\<lambda>e. case e of CallService i s m r \<Rightarrow> [(i, s, m, r)] | _ \<Rightarrow> []) (drop (length (rc_events ch)) (rc_events ch')))"

definition new_done :: "64 word \<Rightarrow> 'h rpc_channel \<Rightarrow> 'h rpc_channel \<Rightarrow> (64 word \<times> 'h \<times> byte list option) list" where
  "new_done i ch ch' = concat (map (\<lambda>e. case e of CallDone out r \<Rightarrow> [(i, out, r)] | _ \<Rightarrow> []) (drop (length (rc_events ch)) (rc_events ch')))"

inductive link_step :: "'h rpc_link \<Rightarrow> 'h rpc_link \<Rightarrow> bool" where
  calls: "callMethod service method request out (rl_client l) = Inr ch \<Longrightarrow> length (rl_called l) + 1 < 2 ^ 63 \<Longrightarrow>
     link_step l (l\<lparr>rl_client := ch, rl_requests := rl_requests l @ new_sent (rl_client l) ch,
       rl_called := rl_called l @ [(rc_id ch, service, method, request, out)]\<rparr>)"
| serves: "rl_requests l = m # ms \<Longrightarrow> onRpcMessage True m (rl_server l) = Inr ch \<Longrightarrow>
     link_step l (l\<lparr>rl_server := ch, rl_requests := ms, rl_running := rl_running l @ new_calls (rl_server l) ch,
       rl_replies := rl_replies l @ new_sent (rl_server l) ch\<rparr>)"
| finishes: "rl_running l = xs @ (i, s, m, r) # ys \<Longrightarrow> ch = doneCallback response i (rl_server l) \<Longrightarrow>
     link_step l (l\<lparr>rl_server := ch, rl_running := xs @ ys, rl_finished := rl_finished l @ [(i, response)],
       rl_replies := rl_replies l @ new_sent (rl_server l) ch\<rparr>)"
| returns: "rl_replies l = m # ms \<Longrightarrow> onRpcMessage True m (rl_client l) = Inr ch \<Longrightarrow>
     link_step l (l\<lparr>rl_client := ch, rl_replies := ms, rl_returned := rl_returned l @ new_done (rm_id m) (rl_client l) ch\<rparr>)"

inductive link_reach :: "(string \<rightharpoonup> rpc_service) \<Rightarrow> 'h rpc_link \<Rightarrow> bool" for services where
  link_new: "link_reach services (new_link services)"
| link_next: "link_reach services l \<Longrightarrow> link_step l l' \<Longrightarrow> link_reach services l'"

subsection \<open>The invariant\<close>

text \<open>The calls that have not returned, by where they are.\<close>

definition stage_ids :: "'h rpc_link \<Rightarrow> 64 word list" where
  "stage_ids l = map rm_id (rl_requests l) @ map fst (rl_running l) @ map rm_id (rl_replies l)"

definition handles :: "'h rpc_link \<Rightarrow> 64 word \<rightharpoonup> 'h" where
  "handles l = map_of (map (\<lambda>(i, s, m, r, out). (i, out)) (rl_called l))"

definition issued_ids :: "nat \<Rightarrow> 64 word list" where
  "issued_ids n = map word_of_nat [1..<Suc n]"

definition ids_ok :: "'h rpc_link \<Rightarrow> bool" where
  "ids_ok l \<longleftrightarrow> length (rl_called l) < 2 ^ 63 \<and> rc_id (rl_client l) = word_of_nat (length (rl_called l)) \<and>
     map fst (rl_called l) = issued_ids (length (rl_called l)) \<and>
     mset (stage_ids l) + mset (map fst (rl_returned l)) = mset (issued_ids (length (rl_called l)))"

definition waiting_ok :: "'h rpc_link \<Rightarrow> bool" where
  "waiting_ok l \<longleftrightarrow>
     (\<forall>i. rc_outstandings (rl_client l) i = (if i \<in> set (stage_ids l) then handles l i else None)) \<and>
     (\<forall>(i, out, r) \<in> set (rl_returned l). handles l i = Some out)"

definition replies_ok :: "'h rpc_link \<Rightarrow> bool" where
  "replies_ok l \<longleftrightarrow>
     list_all (\<lambda>m. rm_type m = REQUEST) (rl_requests l) \<and>
     list_all (\<lambda>m. rm_type m = RESPONSE \<and> (rm_response m \<noteq> None \<or> rm_error m \<noteq> None)) (rl_replies l) \<and>
     distinct (map fst (rl_finished l)) \<and>
     (\<forall>m \<in> set (rl_replies l). rm_response m = map_of (rl_finished l) (rm_id m)) \<and>
     (\<forall>(i, out, r) \<in> set (rl_returned l). r = map_of (rl_finished l) i) \<and>
     (\<forall>i \<in> set (map rm_id (rl_requests l) @ map fst (rl_running l)). i \<notin> fst ` set (rl_finished l)) \<and>
     fst ` set (rl_finished l) \<subseteq> set (map fst (rl_called l))"

definition link_inv :: "'h rpc_link \<Rightarrow> bool" where
  "link_inv l \<longleftrightarrow> ids_ok l \<and> waiting_ok l \<and> replies_ok l"

lemma issued_ids_Suc: "issued_ids (Suc n) = issued_ids n @ [word_of_nat (Suc n)]"
  by (simp add: issued_ids_def)

lemma issued_ids_distinct: "n < 2 ^ 63 \<Longrightarrow> distinct (issued_ids n)"
  using inj_on_subset [OF ids_distinct [of n], of "set [1..<Suc n]"]
  by (simp add: issued_ids_def distinct_map subset_eq del: upt_Suc)

lemma stages_distinct:
  assumes "ids_ok l"
  shows "distinct (stage_ids l)" and "distinct (map fst (rl_returned l))"
    and "set (stage_ids l) \<inter> fst ` set (rl_returned l) = {}"
    and "set (stage_ids l) \<union> fst ` set (rl_returned l) = fst ` set (rl_called l)"
proof -
  have eq: "mset (stage_ids l @ map fst (rl_returned l)) = mset (issued_ids (length (rl_called l)))"
    using assms by (simp add: ids_ok_def)
  have "distinct (stage_ids l @ map fst (rl_returned l))"
    using mset_eq_imp_distinct_iff [OF eq] issued_ids_distinct assms by (simp add: ids_ok_def)
  then show "distinct (stage_ids l)" "distinct (map fst (rl_returned l))"
    "set (stage_ids l) \<inter> fst ` set (rl_returned l) = {}"
    by auto
  have "set (issued_ids (length (rl_called l))) = fst ` set (rl_called l)"
    using assms by (metis ids_ok_def list.set_map)
  then show "set (stage_ids l) \<union> fst ` set (rl_returned l) = fst ` set (rl_called l)"
    using arg_cong [OF eq, of set_mset] by simp
qed

lemma handles_dom: "dom (handles l) = fst ` set (rl_called l)"
  by (force simp: handles_def dom_map_of_conv_image_fst)

subsection \<open>The steps keep the invariant\<close>

lemma callMethod_eq:
  assumes "ids_ok l" and "length (rl_called l) + 1 < 2 ^ 63"
  defines "i \<equiv> word_of_nat (Suc (length (rl_called l)))"
  shows "callMethod service method request out (rl_client l) = Inr (rpc_send
      ((blank_message REQUEST i)\<lparr>rm_service := service, rm_method := method, rm_request := request\<rparr>)
      ((rl_client l)\<lparr>rc_id := i, rc_outstandings := (rc_outstandings (rl_client l))(i \<mapsto> out)\<rparr>))"
  using assms incrementAndGet_id [of "length (rl_called l)"]
  by (simp add: callMethod_def ids_ok_def del: of_nat_Suc)

lemma fresh_id:
  assumes "ids_ok l" and "length (rl_called l) + 1 < 2 ^ 63"
  shows "word_of_nat (Suc (length (rl_called l))) \<notin> fst ` set (rl_called l)"
proof -
  have "distinct (issued_ids (Suc (length (rl_called l))))"
    using assms(2) by (intro issued_ids_distinct) simp
  moreover have "set (issued_ids (length (rl_called l))) = fst ` set (rl_called l)"
    using assms(1) by (metis ids_ok_def set_map)
  ultimately show ?thesis
    by (simp add: issued_ids_Suc del: of_nat_Suc)
qed

lemma calls_inv:
  fixes l :: "'h rpc_link"
  assumes inv: "link_inv l" and res: "callMethod service method request out (rl_client l) = Inr ch"
    and bound: "length (rl_called l) + 1 < 2 ^ 63"
  shows "link_inv (l\<lparr>rl_client := ch, rl_requests := rl_requests l @ new_sent (rl_client l) ch,
    rl_called := rl_called l @ [(rc_id ch, service, method, request, out)]\<rparr>)"
proof -
  have ok: "ids_ok l" and wait: "waiting_ok l" and rep: "replies_ok l"
    using inv by (simp_all add: link_inv_def)
  define i :: "64 word" where "i = word_of_nat (Suc (length (rl_called l)))"
  define m where "m = (blank_message REQUEST i)\<lparr>rm_service := service, rm_method := method, rm_request := request\<rparr>"
  have m: "rm_id m = i" "rm_type m = REQUEST"
    by (simp_all add: m_def blank_message_def)
  have ch: "ch = rpc_send m ((rl_client l)\<lparr>rc_id := i, rc_outstandings := (rc_outstandings (rl_client l))(i \<mapsto> out)\<rparr>)"
    using callMethod_eq [OF ok bound] res by (simp add: m_def i_def)
  have sent: "new_sent (rl_client l) ch = [m]" and parts: "rc_id ch = i" "rc_outstandings ch = (rc_outstandings (rl_client l))(i \<mapsto> out)"
    by (simp_all add: ch new_sent_def rpc_send_def)
  let ?l = "l\<lparr>rl_client := ch, rl_requests := rl_requests l @ [m], rl_called := rl_called l @ [(i, service, method, request, out)]\<rparr>"
  have fresh: "i \<notin> fst ` set (rl_called l)"
    using fresh_id [OF ok bound] by (simp add: i_def del: of_nat_Suc)
  then have fresh': "i \<notin> set (stage_ids l)" "i \<notin> fst ` set (rl_returned l)"
    using stages_distinct(4) [OF ok] by auto
  have stages: "mset (stage_ids ?l) = add_mset i (mset (stage_ids l))"
    by (simp add: stage_ids_def m(1))
  then have set_stages: "set (stage_ids ?l) = insert i (set (stage_ids l))"
    by (metis set_mset_add_mset_insert set_mset_mset)
  have "handles l i = None"
    using handles_dom [of l] fresh by auto
  then have h: "handles ?l j = (if j = i then Some out else handles l j)" for j
    by (cases "handles l j") (auto simp: handles_def map_add_def)
  have "ids_ok ?l"
    using ok bound stages parts(1) by (simp add: ids_ok_def issued_ids_Suc i_def del: of_nat_Suc)
  moreover have "waiting_ok ?l"
    using wait fresh' set_stages h parts(2) by (fastforce simp: waiting_ok_def)
  moreover have "replies_ok ?l"
  proof -
    have "i \<notin> fst ` set (rl_finished l)"
      using rep fresh by (auto simp: replies_ok_def)
    then show ?thesis
      using rep m by (auto simp: replies_ok_def)
  qed
  ultimately show ?thesis
    by (simp add: link_inv_def sent parts(1))
qed

text \<open>Steps on the way of a call: the calls stay the same, only where they are changes.\<close>

lemma link_inv_moves:
  assumes inv: "link_inv l" and same: "rl_client l' = rl_client l" "rl_called l' = rl_called l" "rl_returned l' = rl_returned l"
    and stages: "mset (stage_ids l') = mset (stage_ids l)" and rep: "replies_ok l'"
  shows "link_inv l'"
proof -
  have "set (stage_ids l') = set (stage_ids l)"
    using stages by (metis set_mset_mset)
  moreover have "handles l' = handles l"
    by (simp add: handles_def same)
  ultimately show ?thesis
    using inv rep stages by (simp add: link_inv_def ids_ok_def waiting_ok_def same)
qed

lemma serves_inv:
  assumes inv: "link_inv l" and req: "rl_requests l = m # ms" and res: "onRpcMessage True m (rl_server l) = Inr ch"
  shows "link_inv (l\<lparr>rl_server := ch, rl_requests := ms, rl_running := rl_running l @ new_calls (rl_server l) ch,
    rl_replies := rl_replies l @ new_sent (rl_server l) ch\<rparr>)" (is "link_inv ?l")
proof -
  have rep: "replies_ok l" and ids: "ids_ok l"
    using inv by (simp_all add: link_inv_def)
  have m: "rm_type m = REQUEST"
    using rep req by (simp add: replies_ok_def)
  have open_call: "rm_id m \<notin> fst ` set (rl_finished l)"
    using rep req by (simp add: replies_ok_def)
  show ?thesis
  proof (cases "request_error m (rl_server l) = NO_ERROR")
    case True
    then have new: "new_calls (rl_server l) ch = [(rm_id m, rm_service m, rm_method m, rm_request m)]"
      "new_sent (rl_server l) ch = []"
      using res m by (auto simp: onRpcMessage_def new_calls_def new_sent_def)
    show ?thesis
    proof (rule link_inv_moves [OF inv])
      show "mset (stage_ids ?l) = mset (stage_ids l)"
        by (simp add: stage_ids_def req new)
      show "replies_ok ?l"
        using rep req open_call by (simp add: replies_ok_def new)
    qed simp_all
  next
    case False
    define a where "a = (blank_message RESPONSE (rm_id m))\<lparr>rm_error := Some (request_error m (rl_server l))\<rparr>"
    have a: "rm_id a = rm_id m" "rm_type a = RESPONSE" "rm_response a = None" "rm_error a \<noteq> None"
      by (simp_all add: a_def blank_message_def)
    have new: "new_calls (rl_server l) ch = []" "new_sent (rl_server l) ch = [a]"
      using res m False by (auto simp: onRpcMessage_def new_calls_def new_sent_def rpc_send_def a_def)
    show ?thesis
    proof (rule link_inv_moves [OF inv])
      show "mset (stage_ids ?l) = mset (stage_ids l)"
        by (simp add: stage_ids_def req new a)
      have "map_of (rl_finished l) (rm_id a) = None"
        using open_call by (simp add: map_of_eq_None_iff a)
      then show "replies_ok ?l"
        using rep req a(2-4) by (simp add: replies_ok_def new)
    qed simp_all
  qed
qed

lemma replies_okD:
  assumes "replies_ok l"
  shows "m \<in> set (rl_replies l) \<Longrightarrow> rm_response m = map_of (rl_finished l) (rm_id m)"
    and "(i, out, r) \<in> set (rl_returned l) \<Longrightarrow> r = map_of (rl_finished l) i"
    and "i \<in> set (map rm_id (rl_requests l) @ map fst (rl_running l)) \<Longrightarrow> i \<notin> fst ` set (rl_finished l)"
proof -
  have all: "\<forall>m \<in> set (rl_replies l). rm_response m = map_of (rl_finished l) (rm_id m)"
    "\<forall>(i, out, r) \<in> set (rl_returned l). r = map_of (rl_finished l) i"
    "\<forall>i \<in> set (map rm_id (rl_requests l) @ map fst (rl_running l)). i \<notin> fst ` set (rl_finished l)"
    using assms unfolding replies_ok_def by - (elim conjE, assumption)+
  show "m \<in> set (rl_replies l) \<Longrightarrow> rm_response m = map_of (rl_finished l) (rm_id m)"
    using all(1) by (rule bspec)
  show "(i, out, r) \<in> set (rl_returned l) \<Longrightarrow> r = map_of (rl_finished l) i"
    using all(2) by (auto dest: bspec)
  show "i \<in> set (map rm_id (rl_requests l) @ map fst (rl_running l)) \<Longrightarrow> i \<notin> fst ` set (rl_finished l)"
    using all(3) by (rule bspec)
qed

lemma map_of_snoc: "x \<notin> fst ` set kvs \<Longrightarrow> map_of (kvs @ [(x, v)]) = (map_of kvs)(x \<mapsto> v)"
  by (induction kvs) auto

lemma finishes_inv:
  assumes inv: "link_inv l" and run: "rl_running l = xs @ (i, s, m, r) # ys" and ch: "ch = doneCallback response i (rl_server l)"
  shows "link_inv (l\<lparr>rl_server := ch, rl_running := xs @ ys, rl_finished := rl_finished l @ [(i, response)],
    rl_replies := rl_replies l @ new_sent (rl_server l) ch\<rparr>)" (is "link_inv ?l")
proof -
  have rep: "replies_ok l" and ids: "ids_ok l"
    using inv by (simp_all add: link_inv_def)
  define a where "a = (blank_message RESPONSE i)\<lparr>rm_response := Some response\<rparr>"
  have a: "rm_id a = i" "rm_type a = RESPONSE" "rm_response a = Some response"
    by (simp_all add: a_def blank_message_def)
  have new: "new_sent (rl_server l) ch = [a]"
    by (simp add: ch new_sent_def doneCallback_def rpc_send_def a_def)
  have dist: "distinct (stage_ids l)" and apart: "set (stage_ids l) \<inter> fst ` set (rl_returned l) = {}"
    using stages_distinct [OF ids] by auto
  have stage: "i \<in> set (stage_ids l)"
    by (simp add: stage_ids_def run)
  have i: "i \<notin> fst ` set (rl_finished l)"
    using replies_okD(3) [OF rep, of i] run by simp
  have called: "i \<in> fst ` set (rl_called l)" and returned: "i \<notin> fst ` set (rl_returned l)"
    using stage apart stages_distinct(4) [OF ids] by blast+
  have rest: "i \<notin> set (map rm_id (rl_requests l) @ map fst (xs @ ys))" "i \<notin> rm_id ` set (rl_replies l)"
    using dist unfolding stage_ids_def run by auto
  note look = map_of_snoc [OF i, of response]
  show ?thesis
  proof (rule link_inv_moves [OF inv])
    show "mset (stage_ids ?l) = mset (stage_ids l)"
      by (simp add: stage_ids_def run new a)
    have "\<forall>q \<in> set (rl_replies l @ [a]). rm_response q = map_of (rl_finished l @ [(i, response)]) (rm_id q)"
      using replies_okD(1) [OF rep] rest(2) unfolding look by (auto simp: a)
    moreover have "\<forall>(j, out, r) \<in> set (rl_returned l). r = map_of (rl_finished l @ [(i, response)]) j"
      using replies_okD(2) [OF rep] returned unfolding look by (force simp: image_iff)
    moreover have "\<forall>j \<in> set (map rm_id (rl_requests l) @ map fst (xs @ ys)). j \<notin> fst ` set (rl_finished l @ [(i, response)])"
      using replies_okD(3) [OF rep] rest(1) unfolding run by auto
    moreover have "list_all (\<lambda>m. rm_type m = REQUEST) (rl_requests l)"
      "list_all (\<lambda>m. rm_type m = RESPONSE \<and> (rm_response m \<noteq> None \<or> rm_error m \<noteq> None)) (rl_replies l @ [a])"
      "distinct (map fst (rl_finished l @ [(i, response)]))"
      "fst ` set (rl_finished l @ [(i, response)]) \<subseteq> set (map fst (rl_called l))"
      using rep i called a by (simp_all add: replies_ok_def)
    moreover have "rl_requests ?l = rl_requests l" "rl_running ?l = xs @ ys" "rl_replies ?l = rl_replies l @ [a]"
      "rl_finished ?l = rl_finished l @ [(i, response)]" "rl_returned ?l = rl_returned l" "rl_called ?l = rl_called l"
      by (simp_all add: new)
    ultimately show "replies_ok ?l"
      by (simp only: replies_ok_def HOL.simp_thms)
  qed simp_all
qed

lemma returns_inv:
  assumes inv: "link_inv l" and reply: "rl_replies l = m # ms" and res: "onRpcMessage True m (rl_client l) = Inr ch"
  shows "link_inv (l\<lparr>rl_client := ch, rl_replies := ms, rl_returned := rl_returned l @ new_done (rm_id m) (rl_client l) ch\<rparr>)"
    (is "link_inv ?l")
proof -
  have rep: "replies_ok l" and ids: "ids_ok l" and wait: "waiting_ok l"
    using inv by (simp_all add: link_inv_def)
  have "rm_id m \<in> set (stage_ids l)"
    by (simp add: stage_ids_def reply)
  then obtain out where out: "handles l (rm_id m) = Some out" "rc_outstandings (rl_client l) (rm_id m) = Some out"
    using wait stages_distinct(4) [OF ids] handles_dom [of l] unfolding waiting_ok_def by (metis UnI1 domD)
  have m: "rm_type m = RESPONSE" "rm_response m \<noteq> None \<or> rm_error m \<noteq> None"
    and answer: "rm_response m = map_of (rl_finished l) (rm_id m)"
    using rep reply unfolding replies_ok_def by auto
  have ch: "ch = (rl_client l)\<lparr>rc_outstandings := (rc_outstandings (rl_client l))(rm_id m := None),
      rc_events := rc_events (rl_client l) @ [CallDone out (rm_response m)]\<rparr>"
    using res m out(2) by (simp add: onRpcMessage_def)
  have new: "new_done (rm_id m) (rl_client l) ch = [(rm_id m, out, rm_response m)]"
    and parts: "rc_id ch = rc_id (rl_client l)" "rc_outstandings ch = (rc_outstandings (rl_client l))(rm_id m := None)"
    by (simp_all add: ch new_done_def)
  have stages: "mset (stage_ids l) = add_mset (rm_id m) (mset (stage_ids ?l))"
    by (simp add: stage_ids_def reply)
  have set_stages: "set (stage_ids ?l) = set (stage_ids l) - {rm_id m}"
  proof -
    have "distinct (rm_id m # stage_ids ?l)"
      using mset_eq_imp_distinct_iff [of "stage_ids l" "rm_id m # stage_ids ?l"] stages stages_distinct(1) [OF ids] by simp
    moreover have "set (stage_ids l) = set (rm_id m # stage_ids ?l)"
      using stages by (metis mset.simps(2) set_mset_mset)
    ultimately show ?thesis
      by auto
  qed
  have "ids_ok ?l"
    using ids stages new parts(1) by (simp add: ids_ok_def)
  moreover have "waiting_ok ?l"
  proof -
    have "handles ?l = handles l"
      by (simp add: handles_def)
    then show ?thesis
      using wait out(1) set_stages parts(2) by (auto simp: waiting_ok_def new)
  qed
  moreover have "replies_ok ?l"
    using rep reply answer by (simp add: replies_ok_def new)
  ultimately show ?thesis
    by (simp add: link_inv_def)
qed

lemma link_step_inv: "link_step l l' \<Longrightarrow> link_inv l \<Longrightarrow> link_inv l'"
  by (induction rule: link_step.induct) (blast intro: calls_inv serves_inv finishes_inv returns_inv)+

lemma new_link_inv: "link_inv (new_link services)"
  by (simp add: link_inv_def ids_ok_def waiting_ok_def replies_ok_def new_link_def new_rpc_channel_def new_atomic_def
      stage_ids_def issued_ids_def)

lemma link_reach_inv: "link_reach services l \<Longrightarrow> link_inv l"
  by (induction rule: link_reach.induct) (auto intro: new_link_inv link_step_inv)

subsection \<open>What a caller can rely on\<close>

text \<open>C36: Every call of a client returns at most once, to the caller that made it and with the response its service gave for it
  (or none, when the server answered with an error); the calls that wait are exactly those that were made and have not
  returned, each is in one place between client and server, and the next reply that arrives is accepted and ends one of them.\<close>

theorem rpc_exactly_once:
  assumes "link_reach services l"
  shows "distinct (map fst (rl_called l)) \<and> distinct (map fst (rl_returned l)) \<and>
    (\<forall>(i, out, r) \<in> set (rl_returned l). handles l i = Some out \<and> r = map_of (rl_finished l) i) \<and>
    dom (rc_outstandings (rl_client l)) = fst ` set (rl_called l) - fst ` set (rl_returned l) \<and>
    distinct (stage_ids l) \<and> set (stage_ids l) = dom (rc_outstandings (rl_client l)) \<and>
    (case rl_replies l of
       [] \<Rightarrow> True
     | m # _ \<Rightarrow> \<exists>ch out. rc_outstandings (rl_client l) (rm_id m) = Some out \<and>
         onRpcMessage True m (rl_client l) = Inr ch \<and>
         new_done (rm_id m) (rl_client l) ch = [(rm_id m, out, map_of (rl_finished l) (rm_id m))])"
proof -
  have ids: "ids_ok l" and wait: "waiting_ok l" and rep: "replies_ok l"
    using link_reach_inv [OF assms] by (simp_all add: link_inv_def)
  note stages = stages_distinct [OF ids]
  have "distinct (map fst (rl_called l))"
    using ids issued_ids_distinct by (simp add: ids_ok_def)
  moreover have "\<forall>(i, out, r) \<in> set (rl_returned l). handles l i = Some out \<and> r = map_of (rl_finished l) i"
    using wait replies_okD(2) [OF rep] by (auto simp: waiting_ok_def)
  moreover have waits: "dom (rc_outstandings (rl_client l)) = set (stage_ids l)"
  proof -
    have "rc_outstandings (rl_client l) j = (if j \<in> set (stage_ids l) then handles l j else None)" for j
      using wait by (simp add: waiting_ok_def)
    moreover have "set (stage_ids l) \<subseteq> dom (handles l)"
      using stages(4) by (auto simp: handles_dom)
    ultimately show ?thesis
      by (auto simp: dom_def)
  qed
  moreover have "set (stage_ids l) = fst ` set (rl_called l) - fst ` set (rl_returned l)"
    using stages(3,4) by blast
  moreover have "\<exists>ch out. rc_outstandings (rl_client l) (rm_id m) = Some out \<and>
      onRpcMessage True m (rl_client l) = Inr ch \<and>
      new_done (rm_id m) (rl_client l) ch = [(rm_id m, out, map_of (rl_finished l) (rm_id m))]"
    if m: "rl_replies l = m # ms" for m ms
  proof -
    have "rm_id m \<in> dom (rc_outstandings (rl_client l))"
      using m by (simp add: waits stage_ids_def)
    then obtain out where "rc_outstandings (rl_client l) (rm_id m) = Some out"
      by blast
    moreover have "rm_type m = RESPONSE" "rm_response m \<noteq> None \<or> rm_error m \<noteq> None"
      using rep m unfolding replies_ok_def by auto
    ultimately show ?thesis
      using replies_okD(1) [OF rep, of m] m by (simp add: onRpcMessage_def new_done_def)
  qed
  ultimately show ?thesis
    using stages(1,2) by (simp split: list.split)
qed

definition echo_services :: "string \<rightharpoonup> rpc_service" where
  "echo_services = [''Echo'' \<mapsto> [''echo'' \<mapsto> (\<lambda>request. request \<noteq> [])]]"

definition echo_request :: "64 word \<Rightarrow> byte list \<Rightarrow> rpc_message" where
  "echo_request i request = (blank_message REQUEST i)\<lparr>rm_service := ''Echo'', rm_method := ''echo'', rm_request := request\<rparr>"

definition echo_reply :: "rpc_message" where
  "echo_reply = (blank_message RESPONSE 1)\<lparr>rm_response := Some [8]\<rparr>"

definition echo_link :: "nat rpc_link" where
  "echo_link =
     \<lparr>rl_client = \<lparr>rc_id = 2, rc_outstandings = [1 \<mapsto> 41, 2 \<mapsto> 42], rc_services = None,
        rc_sent = [echo_request 1 [7], echo_request 2 []], rc_events = []\<rparr>,
      rl_server = \<lparr>rc_id = 0, rc_outstandings = Map.empty, rc_services = Some echo_services,
        rc_sent = [echo_reply], rc_events = [CallService 1 ''Echo'' ''echo'' [7]]\<rparr>,
      rl_requests = [echo_request 2 []], rl_running = [], rl_replies = [echo_reply],
      rl_called = [(1, ''Echo'', ''echo'', [7], 41), (2, ''Echo'', ''echo'', [], 42)], rl_finished = [(1, [8])], rl_returned = []\<rparr>"

lemma echo_link_reach: "link_reach echo_services echo_link"
proof -
  have id1: "incrementAndGet (0 :: 64 word) = Inr (1, 1)" and id2: "incrementAndGet (1 :: 64 word) = Inr (2, 2)"
    using incrementAndGet_id [of 0] incrementAndGet_id [of 1] by simp_all
  define l0 :: "nat rpc_link" where "l0 = new_link echo_services"
  define l1 where "l1 = l0\<lparr>rl_client := \<lparr>rc_id = 1, rc_outstandings = [1 \<mapsto> 41], rc_services = None,
      rc_sent = [echo_request 1 [7]], rc_events = []\<rparr>, rl_requests := [echo_request 1 [7]],
    rl_called := [(1, ''Echo'', ''echo'', [7], 41)]\<rparr>"
  define l2 where "l2 = l1\<lparr>rl_client := rl_client echo_link, rl_requests := [echo_request 1 [7], echo_request 2 []],
    rl_called := rl_called echo_link\<rparr>"
  define l3 where "l3 = l2\<lparr>rl_server := (rl_server echo_link)\<lparr>rc_sent := []\<rparr>, rl_requests := [echo_request 2 []],
    rl_running := [(1, ''Echo'', ''echo'', [7])]\<rparr>"
  note state = l0_def l1_def l2_def l3_def echo_link_def new_link_def new_rpc_channel_def new_atomic_def setServices_def
    echo_request_def echo_reply_def blank_message_def new_sent_def new_calls_def rpc_send_def
  have "link_step l0 l1"
    using calls [of "''Echo''" "''echo''" "[7]" 41 l0 "rl_client l1"] id1 by (simp add: state callMethod_def)
  moreover have "link_step l1 l2"
    using calls [of "''Echo''" "''echo''" "[]" 42 l1 "rl_client l2"] id2 by (simp add: state callMethod_def)
  moreover have "link_step l2 l3"
    using serves [of l2 "echo_request 1 [7]" "[echo_request 2 []]" "rl_server l3"]
    by (simp add: state onRpcMessage_def request_error_def echo_services_def)
  moreover have "link_step l3 echo_link"
    using finishes [of l3 "[]" 1 "''Echo''" "''echo''" "[7]" "[]" "rl_server echo_link" "[8]"]
    by (simp add: state doneCallback_def)
  moreover have "link_reach echo_services l0"
    by (simp add: l0_def link_new)
  ultimately show ?thesis
    by (meson link_next)
qed

theorem rpc_exactly_once_witness:
  "link_reach echo_services echo_link \<and> distinct (map fst (rl_called echo_link)) \<and> distinct (map fst (rl_returned echo_link)) \<and>
   dom (rc_outstandings (rl_client echo_link)) = fst ` set (rl_called echo_link) - fst ` set (rl_returned echo_link) \<and>
   set (stage_ids echo_link) = {1, 2} \<and>
   (\<exists>ch out. rc_outstandings (rl_client echo_link) 1 = Some out \<and> onRpcMessage True echo_reply (rl_client echo_link) = Inr ch \<and>
      new_done 1 (rl_client echo_link) ch = [(1, out, Some [8])])"
proof -
  have "rl_replies echo_link = [echo_reply]" "rm_id echo_reply = 1" "map_of (rl_finished echo_link) 1 = Some [8]"
    "set (stage_ids echo_link) = {1, 2}"
    by (auto simp: echo_link_def echo_reply_def echo_request_def blank_message_def stage_ids_def)
  then show ?thesis
    using rpc_exactly_once [OF echo_link_reach] echo_link_reach by simp
qed

text \<open>A service may finish a call when its connection is gone: the closure it was given holds the channel by a bare pointer, and
  the channel went with the context of the connection.\<close>

lemma done_after_close:
  "service_finishes response i (rpc_onConnection False s) = Inl Undefined"
  "\<exists>s' ch. service_finishes response i (rpc_onConnection True s) = Inr s' \<and> rs_channel s' = Some ch \<and>
     rc_sent ch = [(blank_message RESPONSE i)\<lparr>rm_response := Some response\<rparr>]"
  by (simp_all add: service_finishes_def rpc_onConnection_def doneCallback_def rpc_send_def setServices_def new_rpc_channel_def)

end
