(* ===== verification/Logging.thy ===== *)
theory Logging
  imports Log_Stream Time_Zone Count_Down_Latch
begin

section \<open>Log records: \<open>src/src/muduo/base/Logging.h\<close> and \<open>Logging.cc\<close>\<close>

text \<open>
  A log statement makes a \<open>Logger\<close>, whose constructor prints the time, the thread and the level into the stream, inserts the
  items of the statement, and destroys the logger, which prints the place in the source, hands the line to \<open>g_output\<close>, and
  ends the process after a fatal one.  The stream is the one of \<open>Log_Stream\<close>, the local time the one of \<open>Time_Zone\<close>, the
  thread id the one of \<open>Count_Down_Latch\<close>.  What the process observes is the list \<open>g_written\<close>; the functions set by
  \<open>setOutput\<close> and \<open>setFlush\<close> are known by their names \<open>'f\<close>.
\<close>

subsection \<open>Levels and source files\<close>

datatype log_level = TRACE | DEBUG | INFO | WARN | ERROR | FATAL

fun level_number :: "log_level \<Rightarrow> nat" where
  "level_number TRACE = 0"
| "level_number DEBUG = 1"
| "level_number INFO = 2"
| "level_number WARN = 3"
| "level_number ERROR = 4"
| "level_number FATAL = 5"

instantiation log_level :: linorder
begin

definition less_eq_log_level :: "log_level \<Rightarrow> log_level \<Rightarrow> bool" where
  "less_eq_log_level a b \<longleftrightarrow> level_number a \<le> level_number b"

definition less_log_level :: "log_level \<Rightarrow> log_level \<Rightarrow> bool" where
  "less_log_level a b \<longleftrightarrow> level_number a < level_number b"

instance
proof
  fix a b c :: log_level
  show "a \<le> b \<Longrightarrow> b \<le> a \<Longrightarrow> a = b"
    by (cases a; cases b) (simp_all add: less_eq_log_level_def)
qed (auto simp: less_eq_log_level_def less_log_level_def)

end

fun LogLevelName :: "log_level \<Rightarrow> string" where
  "LogLevelName TRACE = ''TRACE ''"
| "LogLevelName DEBUG = ''DEBUG ''"
| "LogLevelName INFO = ''INFO  ''"
| "LogLevelName WARN = ''WARN  ''"
| "LogLevelName ERROR = ''ERROR ''"
| "LogLevelName FATAL = ''FATAL ''"

text \<open>\<open>strrchr\<close>: the position of the last occurrence.\<close>

definition strrchr :: "'a list \<Rightarrow> 'a \<Rightarrow> nat option" where
  "strrchr s c = (if c \<in> set s then Some (length s - Suc (length (takeWhile (\<lambda>x. x \<noteq> c) (rev s)))) else None)"

definition source_file :: "string \<Rightarrow> string" where
  "source_file filename = (case strrchr filename CHR ''/'' of Some slash \<Rightarrow> drop (slash + 1) filename | None \<Rightarrow> filename)"

definition initLogLevel :: "(string \<Rightarrow> bool) \<Rightarrow> log_level" where
  "initLogLevel getenv = (if getenv ''MUDUO_LOG_TRACE'' then TRACE else if getenv ''MUDUO_LOG_DEBUG'' then DEBUG else INFO)"

subsection \<open>State\<close>

text \<open>What a thread keeps, and what the process keeps.\<close>

record log_thread =
  t_lastSecond :: int
  t_time :: string
  t_current :: current_thread

definition new_log_thread :: log_thread where
  "new_log_thread = \<lparr>t_lastSecond = 0, t_time = '''', t_current = new_current_thread\<rparr>"

datatype 'f log_event = Output 'f "byte list" | Flush 'f

record 'f log_globals =
  g_logLevel :: log_level
  g_output :: 'f
  g_flush :: 'f
  g_logTimeZone :: "zone_data option"
  g_written :: "'f log_event list"

definition setLogLevel :: "log_level \<Rightarrow> 'f log_globals \<Rightarrow> 'f log_globals" where
  "setLogLevel level g = g\<lparr>g_logLevel := level\<rparr>"

definition setOutput :: "'f \<Rightarrow> 'f log_globals \<Rightarrow> 'f log_globals" where
  "setOutput out g = g\<lparr>g_output := out\<rparr>"

definition setFlush :: "'f \<Rightarrow> 'f log_globals \<Rightarrow> 'f log_globals" where
  "setFlush flush g = g\<lparr>g_flush := flush\<rparr>"

definition setTimeZone :: "zone_data option \<Rightarrow> 'f log_globals \<Rightarrow> 'f log_globals" where
  "setTimeZone tz g = g\<lparr>g_logTimeZone := tz\<rparr>"

subsection \<open>The time\<close>

text \<open>The class \<open>T\<close>, a string whose length is known.\<close>

definition put_T :: "string \<Rightarrow> nat \<Rightarrow> fixed_buffer \<Rightarrow> fixed_buffer res" where
  "put_T str len b = asserting (length str = len) (Inr (fb_append (bytes_of str) b))"

definition time_text :: "tm \<Rightarrow> string" where
  "time_text t = fmt_d 4 (tm_year t + 1900) @ fmt_0d 2 (tm_mon t + 1) @ fmt_0d 2 (tm_mday t) @ '' '' @
     fmt_0d 2 (tm_hour t) @ '':'' @ fmt_0d 2 (tm_min t) @ '':'' @ fmt_0d 2 (tm_sec t)"

definition log_clock :: "zone_data option \<Rightarrow> int \<Rightarrow> tm res" where
  "log_clock tz seconds = (if zone_valid tz then toLocalTime tz seconds else Inr (gmtime seconds))"

definition micros_text :: "zone_data option \<Rightarrow> int \<Rightarrow> string" where
  "micros_text tz microseconds = ''.'' @ fmt_0d 6 microseconds @ (if zone_valid tz then '' '' else ''Z '')"

definition formatTime :: "zone_data option \<Rightarrow> int \<Rightarrow> log_thread \<Rightarrow> fixed_buffer \<Rightarrow> (log_thread \<times> fixed_buffer) res" where
  "formatTime tz us t b =
     (let seconds = us sdiv kMicroSecondsPerSecond;
          microseconds = int_cast (us smod kMicroSecondsPerSecond);
          len = (if zone_valid tz then 8 else 9)
      in bindR
           (if seconds \<noteq> t_lastSecond t
            then bindR (log_clock tz seconds) (\<lambda>tm_time.
              asserting (length (time_text tm_time) = 17)
                (Inr (t\<lparr>t_lastSecond := seconds, t_time := take 63 (time_text tm_time)\<rparr>)))
            else Inr t) (\<lambda>t1.
         bindR (new_fmt (micros_text tz microseconds)) (\<lambda>us_text.
         asserting (length us_text = len)
           (bindR (put_T (t_time t1) 17 b) (\<lambda>b1.
            bindR (put_T us_text len b1) (\<lambda>b2. Inr (t1, b2)))))))"

subsection \<open>The logger\<close>

record logger =
  l_stream :: fixed_buffer
  l_level :: log_level
  l_line :: int
  l_basename :: string

text \<open>What a log statement takes from its surroundings: its place, \<open>errno\<close> and the message for it, the clock, the thread id and
  the memory the buffer of the stream lies in.\<close>

record log_place =
  e_file :: string
  e_line :: int
  e_func :: string
  e_errno :: int
  e_strerror :: "int \<Rightarrow> byte list"
  e_now :: int
  e_gettid :: int
  e_mem :: "byte list"

definition errno_items :: "log_place \<Rightarrow> int \<Rightarrow> log_item list" where
  "errno_items e savedErrno =
     (if savedErrno \<noteq> 0
      then [LCStr (Some (e_strerror e savedErrno)), LCStr (Some (bytes_of '' (errno='')), LInt savedErrno, LCStr (Some (bytes_of '') ''))]
      else [])"

definition new_impl :: "log_level \<Rightarrow> int \<Rightarrow> log_place \<Rightarrow> zone_data option \<Rightarrow> log_thread \<Rightarrow> (log_thread \<times> logger) res" where
  "new_impl level savedErrno e tz t =
     bindR (formatTime tz (e_now e) t (new_fixed_buffer (e_mem e))) (\<lambda>(t1, b1).
       let cur = snd (current_tid (e_gettid e) (t_current t1)) in
       bindR (put_T (t_tidString cur) (t_tidStringLength cur) b1) (\<lambda>b2.
       bindR (put_T (LogLevelName level) 6 b2) (\<lambda>b3.
       bindR (log_puts (errno_items e savedErrno) b3) (\<lambda>b4.
         Inr (t1\<lparr>t_current := cur\<rparr>,
              \<lparr>l_stream = b4, l_level = level, l_line = e_line e, l_basename = source_file (e_file e)\<rparr>)))))"

definition finish_items :: "logger \<Rightarrow> log_item list" where
  "finish_items l = [LCStr (Some (bytes_of '' - '')), LStr (bytes_of (l_basename l)), LChar 58, LInt (l_line l), LChar 10]"

definition impl_finish :: "logger \<Rightarrow> logger res" where
  "impl_finish l = bindR (log_puts (finish_items l) (l_stream l)) (\<lambda>b. Inr (l\<lparr>l_stream := b\<rparr>))"

datatype log_macro = LOG_TRACE | LOG_DEBUG | LOG_INFO | LOG_WARN | LOG_ERROR | LOG_FATAL | LOG_SYSERR | LOG_SYSFATAL

fun macro_level :: "log_macro \<Rightarrow> log_level" where
  "macro_level LOG_TRACE = TRACE"
| "macro_level LOG_DEBUG = DEBUG"
| "macro_level LOG_INFO = INFO"
| "macro_level LOG_WARN = WARN"
| "macro_level LOG_ERROR = ERROR"
| "macro_level LOG_FATAL = FATAL"
| "macro_level LOG_SYSERR = ERROR"
| "macro_level LOG_SYSFATAL = FATAL"

text \<open>The constructors the macros use: with the function, with the level only, with \<open>errno\<close>.\<close>

fun new_logger :: "log_macro \<Rightarrow> log_place \<Rightarrow> zone_data option \<Rightarrow> log_thread \<Rightarrow> (log_thread \<times> logger) res" where
  "new_logger LOG_SYSERR e tz t = new_impl ERROR (e_errno e) e tz t"
| "new_logger LOG_SYSFATAL e tz t = new_impl FATAL (e_errno e) e tz t"
| "new_logger m e tz t =
     bindR (new_impl (macro_level m) 0 e tz t) (\<lambda>(t1, l).
       if m = LOG_TRACE \<or> m = LOG_DEBUG
       then bindR (log_puts [LCStr (Some (bytes_of (e_func e))), LChar 32] (l_stream l)) (\<lambda>b. Inr (t1, l\<lparr>l_stream := b\<rparr>))
       else Inr (t1, l))"

text \<open>The macros that look at the level first.\<close>

definition log_enabled :: "log_macro \<Rightarrow> 'f log_globals \<Rightarrow> bool" where
  "log_enabled m g \<longleftrightarrow> (m \<in> {LOG_TRACE, LOG_DEBUG, LOG_INFO} \<longrightarrow> g_logLevel g \<le> macro_level m)"

definition destroy_logger :: "logger \<Rightarrow> 'f log_globals \<Rightarrow> 'f log_globals \<times> unit res" where
  "destroy_logger l g =
     (case impl_finish l of
        Inl f \<Rightarrow> (g, Inl f)
      | Inr l1 \<Rightarrow>
          let g1 = g\<lparr>g_written := g_written g @ [Output (g_output g) (fb_toString (l_stream l1))]\<rparr> in
          if l_level l1 = FATAL
          then (g1\<lparr>g_written := g_written g1 @ [Flush (g_flush g1)]\<rparr>, Inl Fatal)
          else (g1, Inr ()))"

definition log_statement :: "log_macro \<Rightarrow> log_place \<Rightarrow> log_item list \<Rightarrow> log_thread \<Rightarrow> 'f log_globals \<Rightarrow>
    (log_thread \<times> 'f log_globals) \<times> unit res" where
  "log_statement m e items t g =
     (if log_enabled m g
      then case bindR (new_logger m e (g_logTimeZone g) t) (\<lambda>(t1, l).
               bindR (log_puts items (l_stream l)) (\<lambda>b. Inr (t1, l\<lparr>l_stream := b\<rparr>))) of
             Inl f \<Rightarrow> ((t, g), Inl f)
           | Inr (t1, l) \<Rightarrow> let (g1, r) = destroy_logger l g in ((t1, g1), r)
      else ((t, g), Inr ()))"

text \<open>\<open>CHECK_NOTNULL\<close>.\<close>

definition CheckNotNull :: "string \<Rightarrow> log_place \<Rightarrow> 'p option \<Rightarrow> log_thread \<Rightarrow> 'f log_globals \<Rightarrow>
    (log_thread \<times> 'f log_globals) \<times> 'p option res" where
  "CheckNotNull names e ptr t g =
     (case ptr of
        None \<Rightarrow> (let (s, r) = log_statement LOG_FATAL e [LCStr (Some (bytes_of names))] t g in (s, bindR r (\<lambda>_. Inr ptr)))
      | Some _ \<Rightarrow> ((t, g), Inr ptr))"

subsection \<open>Levels and names\<close>

lemma level_name_length: "length (LogLevelName level) = 6"
  by (cases level) simp_all

text \<open>The name of a source file is what follows its last slash.\<close>

lemma source_file_suffix:
  "CHR ''/'' \<notin> set (source_file filename) \<and>
   (source_file filename = filename \<or> (\<exists>dir. filename = dir @ ''/'' @ source_file filename))"
proof (cases "CHR ''/'' \<in> set filename")
  case True
  then obtain dir name where split: "filename = dir @ CHR ''/'' # name" "CHR ''/'' \<notin> set name"
    using split_list_last by metis
  then have "takeWhile (\<lambda>x. x \<noteq> CHR ''/'') (rev filename) = rev name"
    by (simp add: takeWhile_append)
  then have "source_file filename = name"
    using split(1) by (simp add: source_file_def strrchr_def)
  then show ?thesis
    using split by auto
qed (simp add: source_file_def strrchr_def)

subsection \<open>The text of the time\<close>

lemma fmt_0d_length: "0 \<le> i \<Longrightarrow> i < 10 ^ Suc k \<Longrightarrow> length (fmt_0d (Suc k) i) = Suc k"
  using dec_nat_length [of "nat i" k] by (simp add: fmt_0d_def Let_def nat_less_iff del: power_Suc)

lemma fmt_d_length: "0 \<le> i \<Longrightarrow> i < 10 ^ Suc k \<Longrightarrow> length (fmt_d (Suc k) i) = Suc k"
  using dec_nat_length [of "nat i" k] by (simp add: fmt_d_def dec_int_def nat_less_iff del: power_Suc)

lemma civil_Suc: "0 \<le> n \<Longrightarrow> civil (n + 1) = next_day (civil n)"
  by (simp add: civil_def nat_add_distrib)

lemma civil_year_mono: "0 \<le> n \<Longrightarrow> fst (civil n) \<le> fst (civil (n + int k))"
proof (induction k)
  case (Suc k)
  obtain y m d where c: "civil (n + int k) = (y, m, d)"
    by (rule prod_cases3)
  have "civil (n + int (Suc k)) = next_day (civil (n + int k))"
    using civil_Suc [of "n + int k"] Suc.prems by (simp add: ac_simps)
  then have "y \<le> fst (civil (n + int (Suc k)))"
    by (simp add: c)
  with Suc c show ?case
    by simp
qed simp

text \<open>Up to the end of the year 9999.\<close>

lemma civil_last: "civil 2932896 = (9999, 12, 31)"
proof -
  obtain y m d where c: "civil 2932896 = (y, m, d)"
    by (rule prod_cases3)
  have "getYearMonthDay (2440588 + 2932896) = Inr \<lparr>ymd_year = y, ymd_month = m, ymd_day = d\<rparr>"
    using civil_facts [of 2932896] c
    by (intro getYearMonthDay_eq) (simp_all add: day_in_range_def del: civil_ok.simps day_number.simps)
  moreover have "getYearMonthDay (2440588 + 2932896) = Inr \<lparr>ymd_year = 9999, ymd_month = 12, ymd_day = 31\<rparr>"
    by code_simp
  ultimately show ?thesis
    by (simp add: c)
qed

lemma time_text_length:
  assumes "0 \<le> tm_year t + 1900" "tm_year t + 1900 < 10000" and "0 \<le> tm_mon t + 1" "tm_mon t + 1 < 100"
    and "0 \<le> tm_mday t" "tm_mday t < 100" and "0 \<le> tm_hour t" "tm_hour t < 100" and "0 \<le> tm_min t" "tm_min t < 100"
    and "0 \<le> tm_sec t" "tm_sec t < 100"
  shows "length (time_text t) = 17"
proof -
  have two: "length (fmt_0d 2 i) = 2" if "0 \<le> i" "i < 100" for i
    using fmt_0d_length [of i 1] that by (simp add: numeral_2_eq_2)
  have "length (fmt_d 4 (tm_year t + 1900)) = 4"
    using fmt_d_length [of "tm_year t + 1900" 3] assms(1,2) by (simp add: eval_nat_numeral)
  then show ?thesis
    unfolding time_text_def length_append
    by (simp add: two [OF assms(3,4)] two [OF assms(5,6)] two [OF assms(7,8)] two [OF assms(9,10)] two [OF assms(11,12)])
qed

lemma civil_range:
  assumes "0 \<le> n" and "n \<le> 2932896" and "civil n = (y, m, d)"
  shows "1970 \<le> y" "y \<le> 9999" "1 \<le> m" "m \<le> 12" "1 \<le> d" "d \<le> 31"
proof -
  show "1970 \<le> y"
    using civil_year_mono [of 0 "nat n"] assms by (simp add: civil_def [of 0])
  show "y \<le> 9999"
    using civil_year_mono [of n "nat (2932896 - n)"] assms by (simp add: civil_last)
  show "1 \<le> m" "m \<le> 12" "1 \<le> d" "d \<le> 31"
    using civil_facts(1) [of n] assms(3) by (auto simp: days_in_month_def split: if_splits)
qed

lemma gmtime_text_length:
  assumes "0 \<le> s" and "s < 253402300800"
  shows "length (time_text (gmtime s)) = 17"
proof -
  obtain y m d where c: "civil (s div 86400) = (y, m, d)"
    by (rule prod_cases3)
  have "0 \<le> s div 86400" "s div 86400 \<le> 2932896"
    using assms zdiv_mono1 [of s 253402300799 86400] by (simp_all add: pos_imp_zdiv_nonneg_iff)
  note r = civil_range [OF this c]
  define r where "r = s mod 86400"
  have "0 \<le> r" "r \<le> 86399"
    using pos_mod_bound [of 86400 s] by (simp_all add: r_def)
  then have time: "0 \<le> r div 3600" "r div 3600 < 100" "0 \<le> r div 60 mod 60" "r div 60 mod 60 < 100" "0 \<le> r mod 60" "r mod 60 < 100"
    using zdiv_mono1 [of r 86399 3600] pos_mod_bound [of 60 "r div 60"] pos_mod_bound [of 60 r]
    by (simp_all add: pos_imp_zdiv_nonneg_iff)
  show ?thesis
    by (rule time_text_length) (use r time in \<open>simp_all add: gmtime_def c Let_def flip: r_def\<close>)
qed

subsection \<open>A record\<close>

text \<open>The items of a record: what the logger prints around the items of the statement.\<close>

definition record_items :: "log_macro \<Rightarrow> log_place \<Rightarrow> zone_data option \<Rightarrow> tm \<Rightarrow> log_item list \<Rightarrow> log_item list" where
  "record_items m e tz tm items =
     [LStr (bytes_of (time_text tm)), LStr (bytes_of (micros_text tz (e_now e mod 1000000))),
      LStr (bytes_of (pad5 (dec_int (e_gettid e)) @ '' '')), LStr (bytes_of (LogLevelName (macro_level m)))] @
     errno_items e (if m \<in> {LOG_SYSERR, LOG_SYSFATAL} then e_errno e else 0) @
     (if m \<in> {LOG_TRACE, LOG_DEBUG} then [LCStr (Some (bytes_of (e_func e))), LChar 32] else []) @
     items @
     [LCStr (Some (bytes_of '' - '')), LStr (bytes_of (source_file (e_file e))), LChar 58, LInt (e_line e), LChar 10]"

text \<open>What a thread keeps is right: the text of the second it last logged, and its id.\<close>

definition log_thread_ok :: "zone_data option \<Rightarrow> int \<Rightarrow> log_thread \<Rightarrow> bool" where
  "log_thread_ok tz gettid t \<longleftrightarrow>
     (t_lastSecond t = 0 \<or> (case log_clock tz (t_lastSecond t) of Inl _ \<Rightarrow> False | Inr tm \<Rightarrow> t_time t = time_text tm)) \<and>
     current_ok gettid (t_current t)"

text \<open>The surroundings are as the kernel and the compiler give them.\<close>

definition log_place_ok :: "log_place \<Rightarrow> bool" where
  "log_place_ok e \<longleftrightarrow> length (e_mem e) = kSmallBuffer \<and> e_gettid e \<noteq> 0 \<and> 1000000 \<le> e_now e \<and>
     - (2 ^ 31) \<le> e_line e \<and> e_line e < 2 ^ 31 \<and> - (2 ^ 31) \<le> e_errno e \<and> e_errno e < 2 ^ 31"

lemma put_T_eq: "length str = len \<Longrightarrow> put_T str len b = log_put (LStr (bytes_of str)) b"
  by (simp add: put_T_def)

lemma log_puts_append: "log_puts (xs @ ys) b = bindR (log_puts xs b) (log_puts ys)"
proof (induction xs arbitrary: b)
  case (Cons a xs)
  then show ?case by (cases "log_put a b") simp_all
qed simp

lemma micros_text_length:
  assumes "0 \<le> us" and "us < 1000000"
  shows "length (micros_text tz us) = (if zone_valid tz then 8 else 9)"
  using fmt_0d_length [of us 5] assms by (simp add: micros_text_def eval_nat_numeral)

lemma formatTime_eq:
  assumes "log_thread_ok tz gettid t" and "1000000 \<le> us" and clock: "log_clock tz (us div 1000000) = Inr tm"
    and len: "length (time_text tm) = 17"
  shows "formatTime tz us t b =
    bindR (log_puts [LStr (bytes_of (time_text tm)), LStr (bytes_of (micros_text tz (us mod 1000000)))] b)
      (\<lambda>b'. Inr (t\<lparr>t_lastSecond := us div 1000000, t_time := time_text tm\<rparr>, b'))"
proof -
  have s: "us sdiv kMicroSecondsPerSecond = us div 1000000" "us div 1000000 \<noteq> 0"
    "int_cast (us smod kMicroSecondsPerSecond) = us mod 1000000"
    using assms(2) int_cast_small [OF in_int32_small, of "us mod 1000000"] pos_mod_bound [of 1000000 us] pos_mod_sign [of 1000000 us]
    by (simp_all add: kMicroSecondsPerSecond_def div_eq_0_iff)
  have "length (micros_text tz (us mod 1000000)) = (if zone_valid tz then 8 else 9)"
    by (simp add: micros_text_length)
  then have fmt: "new_fmt (micros_text tz (us mod 1000000)) = Inr (micros_text tz (us mod 1000000))"
    "length (micros_text tz (us mod 1000000)) = (if zone_valid tz then 8 else 9)"
    by (simp_all add: new_fmt_def)
  have cached: "(if us div 1000000 \<noteq> t_lastSecond t
      then bindR (log_clock tz (us div 1000000)) (\<lambda>tm_time.
        asserting (length (time_text tm_time) = 17)
          (Inr (t\<lparr>t_lastSecond := us div 1000000, t_time := take 63 (time_text tm_time)\<rparr>)))
      else Inr t) = Inr (t\<lparr>t_lastSecond := us div 1000000, t_time := time_text tm\<rparr>)"
  proof (cases "us div 1000000 = t_lastSecond t")
    case True
    then have "t_time t = time_text tm"
      using assms(1) clock s(2) by (simp add: log_thread_ok_def)
    with True show ?thesis
      by (cases t) simp
  qed (simp add: clock len)
  show ?thesis
    unfolding formatTime_def Let_def s(1,3) cached bindR.simps fmt by (simp add: put_T_def fmt(2) len)
qed

definition logged_thread :: "log_place \<Rightarrow> tm \<Rightarrow> log_thread \<Rightarrow> log_thread" where
  "logged_thread e tm t = t\<lparr>t_lastSecond := e_now e div 1000000, t_time := time_text tm,
     t_current := snd (current_tid (e_gettid e) (t_current t))\<rparr>"

lemma tid_text:
  assumes "current_ok gettid cur" and "gettid \<noteq> 0"
  defines "cur' \<equiv> snd (current_tid gettid cur)"
  shows "t_tidString cur' = pad5 (dec_int gettid) @ '' ''" and "t_tidStringLength cur' = length (t_tidString cur')"
    and "current_ok gettid cur'"
  using assms by (auto simp: current_ok_def current_tid_def cacheTid_def Let_def)

lemma new_impl_eq:
  assumes "log_thread_ok tz (e_gettid e) t" and "log_place_ok e" and "log_clock tz (e_now e div 1000000) = Inr tm"
    and "length (time_text tm) = 17"
  shows "new_impl level savedErrno e tz t =
    bindR (log_puts ([LStr (bytes_of (time_text tm)), LStr (bytes_of (micros_text tz (e_now e mod 1000000))),
        LStr (bytes_of (pad5 (dec_int (e_gettid e)) @ '' '')), LStr (bytes_of (LogLevelName level))] @ errno_items e savedErrno)
        (new_fixed_buffer (e_mem e)))
      (\<lambda>b. Inr (logged_thread e tm t, \<lparr>l_stream = b, l_level = level, l_line = e_line e, l_basename = source_file (e_file e)\<rparr>))"
proof -
  have env: "1000000 \<le> e_now e" "e_gettid e \<noteq> 0" and cur: "current_ok (e_gettid e) (t_current t)"
    using assms(1,2) by (simp_all add: log_place_ok_def log_thread_ok_def)
  show ?thesis
    using tid_text [OF cur env(2)] level_name_length [of level]
    by (simp add: new_impl_def formatTime_eq [OF assms(1) env(1) assms(3,4)] put_T_def log_puts_append logged_thread_def Let_def)
qed

lemma new_logger_eq:
  assumes "log_thread_ok tz (e_gettid e) t" and "log_place_ok e" and "log_clock tz (e_now e div 1000000) = Inr tm"
    and "length (time_text tm) = 17"
  shows "\<exists>prefix. new_logger m e tz t =
      bindR (log_puts prefix (new_fixed_buffer (e_mem e)))
        (\<lambda>b. Inr (logged_thread e tm t,
          \<lparr>l_stream = b, l_level = macro_level m, l_line = e_line e, l_basename = source_file (e_file e)\<rparr>)) \<and>
    (\<forall>items. record_items m e tz tm items = prefix @ items @
      [LCStr (Some (bytes_of '' - '')), LStr (bytes_of (source_file (e_file e))), LChar 58, LInt (e_line e), LChar 10])"
proof (intro exI conjI allI)
  let ?prefix = "[LStr (bytes_of (time_text tm)), LStr (bytes_of (micros_text tz (e_now e mod 1000000))),
      LStr (bytes_of (pad5 (dec_int (e_gettid e)) @ '' '')), LStr (bytes_of (LogLevelName (macro_level m)))] @
     errno_items e (if m \<in> {LOG_SYSERR, LOG_SYSFATAL} then e_errno e else 0) @
     (if m \<in> {LOG_TRACE, LOG_DEBUG} then [LCStr (Some (bytes_of (e_func e))), LChar 32] else [])"
  show "new_logger m e tz t =
      bindR (log_puts ?prefix (new_fixed_buffer (e_mem e)))
        (\<lambda>b. Inr (logged_thread e tm t,
          \<lparr>l_stream = b, l_level = macro_level m, l_line = e_line e, l_basename = source_file (e_file e)\<rparr>))"
    by (cases m) (simp_all add: new_impl_eq [OF assms] log_puts_append bindR_assoc errno_items_def)
  show "record_items m e tz tm items = ?prefix @ items @
      [LCStr (Some (bytes_of '' - '')), LStr (bytes_of (source_file (e_file e))), LChar 58, LInt (e_line e), LChar 10]" for items
    by (simp add: record_items_def)
qed

lemma record_items_ok:
  "log_place_ok e \<Longrightarrow> list_all item_ok items \<Longrightarrow> list_all item_ok (record_items m e tz tm items)"
  by (auto simp: record_items_def errno_items_def log_place_ok_def)

lemma kept_fits: "length (concat (map item_text vs)) + kMaxNumericSize \<le> room \<Longrightarrow> kept room vs = concat (map item_text vs)"
proof (induction vs arbitrary: room)
  case (Cons v vs)
  have "item_room v \<le> room"
    using Cons.prems by (cases v) (simp_all add: kMaxNumericSize_def)
  with Cons show ?case
    by simp
qed simp

text \<open>C37: A log statement that its level lets through hands exactly one line to the output function: the time, the thread, the level
  and the error or function, then its own items, then the place in the source, each item that still fits into the 4000 bytes of
  the buffer and all of them when there are 32 bytes to spare; the cached text of the second and thread id stay right; a fatal statement
  flushes and aborts, and no other ends the process.  A statement that its level does not let through does nothing.\<close>

theorem log_record:
  assumes "log_thread_ok (g_logTimeZone g) (e_gettid e) t" and "log_place_ok e" and "list_all item_ok items"
    and "log_clock (g_logTimeZone g) (e_now e div 1000000) = Inr tm" and "length (time_text tm) = 17"
  shows "\<exists>t' line. log_statement m e items t g =
      (if log_enabled m g
       then ((t', g\<lparr>g_written := g_written g @ Output (g_output g) line #
               (if macro_level m = FATAL then [Flush (g_flush g)] else [])\<rparr>),
             if macro_level m = FATAL then Inl Fatal else Inr ())
       else ((t, g), Inr ())) \<and>
    line = kept kSmallBuffer (record_items m e (g_logTimeZone g) tm items) \<and>
    (length (concat (map item_text (record_items m e (g_logTimeZone g) tm items))) + kMaxNumericSize \<le> kSmallBuffer \<longrightarrow>
      line = concat (map item_text (record_items m e (g_logTimeZone g) tm items))) \<and>
    log_thread_ok (g_logTimeZone g) (e_gettid e) t'"
proof -
  let ?tz = "g_logTimeZone g" and ?b = "new_fixed_buffer (e_mem e)"
  obtain prefix where new: "new_logger m e ?tz t =
      bindR (log_puts prefix ?b) (\<lambda>b. Inr (logged_thread e tm t,
        \<lparr>l_stream = b, l_level = macro_level m, l_line = e_line e, l_basename = source_file (e_file e)\<rparr>))"
    and rec: "record_items m e ?tz tm items = prefix @ items @
      [LCStr (Some (bytes_of '' - '')), LStr (bytes_of (source_file (e_file e))), LChar 58, LInt (e_line e), LChar 10]"
    using new_logger_eq [OF assms(1,2,4,5)] by blast
  have "fb_ok ?b" "fb_avail ?b = kSmallBuffer" "fb_toString ?b = []"
    using assms(2) by (simp_all add: fb_ok_def new_fixed_buffer_def fb_avail_def fb_toString_def log_place_ok_def)
  then obtain b where b: "log_puts (record_items m e ?tz tm items) ?b = Inr b"
      "fb_toString b = kept kSmallBuffer (record_items m e ?tz tm items)"
    using log_puts_kept [OF _ record_items_ok [OF assms(2,3)], of ?b m ?tz tm] by (auto simp: fb_grown_def)
  then have "log_enabled m g \<Longrightarrow> log_statement m e items t g =
      ((logged_thread e tm t, g\<lparr>g_written := g_written g @ Output (g_output g) (fb_toString b) #
          (if macro_level m = FATAL then [Flush (g_flush g)] else [])\<rparr>),
       if macro_level m = FATAL then Inl Fatal else Inr ())"
    unfolding rec
    by (auto simp: log_statement_def new destroy_logger_def impl_finish_def finish_items_def log_puts_append res_simps)
  moreover have "log_thread_ok ?tz (e_gettid e) (logged_thread e tm t)"
    using assms(1,2,4) tid_text(3) [of "e_gettid e" "t_current t"]
    by (simp add: log_thread_ok_def logged_thread_def log_place_ok_def)
  ultimately show ?thesis
    using b(2) kept_fits by (intro exI [of _ "logged_thread e tm t"] exI [of _ "fb_toString b"])
      (auto simp: log_statement_def)
qed

definition sample_env :: log_place where
  "sample_env = \<lparr>e_file = ''net/Acceptor.cc'', e_line = 77, e_func = ''handleRead'', e_errno = 24,
     e_strerror = (\<lambda>_. bytes_of ''Too many open files''), e_now = 86401000042, e_gettid = 4711, e_mem = replicate 4000 0\<rparr>"

definition sample_globals :: "nat log_globals" where
  "sample_globals = \<lparr>g_logLevel = INFO, g_output = 1, g_flush = 2, g_logTimeZone = None, g_written = []\<rparr>"

definition sample_line :: "byte list" where
  "sample_line = bytes_of ''19700102 00:00:01.000042Z  4711 ERROR Too many open files (errno=24) accept - Acceptor.cc:77'' @ [10]"

lemma log_sample_facts:
  "log_thread_ok (g_logTimeZone sample_globals) (e_gettid sample_env) new_log_thread"
  "log_place_ok sample_env"
  "log_clock (g_logTimeZone sample_globals) (e_now sample_env div 1000000) = Inr (gmtime 86401)"
  "log_enabled LOG_SYSERR sample_globals"
  by (simp_all add: log_thread_ok_def log_place_ok_def sample_env_def sample_globals_def new_log_thread_def log_enabled_def
      new_current_thread_def current_ok_def kSmallBuffer_def log_clock_def zone_valid_def)

lemma digit_chars [simp]:
  "digit_char 0 = CHR ''0''" "digit_char (Suc 0) = CHR ''1''" "digit_char 1 = CHR ''1''" "digit_char 2 = CHR ''2''"
  "digit_char 3 = CHR ''3''" "digit_char 4 = CHR ''4''" "digit_char 5 = CHR ''5''" "digit_char 6 = CHR ''6''"
  "digit_char 7 = CHR ''7''" "digit_char 8 = CHR ''8''" "digit_char 9 = CHR ''9''"
  by code_simp+

lemma log_sample_numerals:
  "dec_nat 0 = ''0''" "dec_nat (Suc 0) = ''1''" "dec_nat 1 = ''1''" "dec_nat 2 = ''2''" "dec_nat 24 = ''24''"
  "dec_nat 42 = ''42''" "dec_nat 77 = ''77''" "dec_nat 1970 = ''1970''" "dec_nat 4711 = ''4711''"
  by (simp_all add: dec_nat.simps)

lemma log_sample_time: "time_text (gmtime 86401) = ''19700102 00:00:01''"
proof -
  have "civil 1 = (1970, 1, 2)"
    by (simp add: civil_def days_in_month_def)
  then show ?thesis
    by (simp add: time_text_def gmtime_def zero_tm_def fmt_d_def fmt_0d_def dec_int_def log_sample_numerals)
qed

lemma log_sample_texts:
  "micros_text None 42 = ''.000042Z ''" "pad5 (dec_int 4711) = '' 4711''" "dec_int 24 = ''24''" "dec_int 77 = ''77''"
  "source_file ''net/Acceptor.cc'' = ''Acceptor.cc''"
proof -
  have "replicate 4 c = [c, c, c, c]" for c :: char
    by (simp add: numeral_eq_Suc)
  then show "micros_text None 42 = ''.000042Z ''"
    by (simp add: micros_text_def zone_valid_def fmt_0d_def log_sample_numerals)
qed (simp_all add: pad5_def dec_int_def source_file_def strrchr_def log_sample_numerals)

lemma log_sample_record:
  "concat (map item_text (record_items LOG_SYSERR sample_env (g_logTimeZone sample_globals) (gmtime 86401)
     [LCStr (Some (bytes_of ''accept''))])) = sample_line"
proof -
  have "record_items LOG_SYSERR sample_env (g_logTimeZone sample_globals) (gmtime 86401) [LCStr (Some (bytes_of ''accept''))] =
    [LStr (bytes_of (time_text (gmtime 86401))), LStr (bytes_of (micros_text None 42)), LStr (bytes_of (pad5 (dec_int 4711) @ '' '')),
     LStr (bytes_of ''ERROR ''), LCStr (Some (bytes_of ''Too many open files'')), LCStr (Some (bytes_of '' (errno='')), LInt 24,
     LCStr (Some (bytes_of '') '')), LCStr (Some (bytes_of ''accept'')), LCStr (Some (bytes_of '' - '')),
     LStr (bytes_of (source_file ''net/Acceptor.cc'')), LChar 58, LInt 77, LChar 10]"
    by (simp add: record_items_def errno_items_def sample_env_def sample_globals_def)
  then show ?thesis
    by (simp add: log_sample_texts log_sample_time sample_line_def bytes_of_def)
qed

theorem log_record_witness:
  "\<exists>t'. log_statement LOG_SYSERR sample_env [LCStr (Some (bytes_of ''accept''))] new_log_thread sample_globals =
     ((t', sample_globals\<lparr>g_written := [Output 1 sample_line]\<rparr>), Inr ())"
proof -
  have "length (time_text (gmtime 86401)) = 17" "list_all item_ok [LCStr (Some (bytes_of ''accept''))]"
    by (simp_all add: log_sample_time)
  from log_record [OF log_sample_facts(1,2) this(2) log_sample_facts(3) this(1), of LOG_SYSERR]
  obtain t' line where "log_statement LOG_SYSERR sample_env [LCStr (Some (bytes_of ''accept''))] new_log_thread sample_globals =
      ((t', sample_globals\<lparr>g_written := g_written sample_globals @ [Output (g_output sample_globals) line]\<rparr>), Inr ())"
    "length sample_line + kMaxNumericSize \<le> kSmallBuffer \<longrightarrow> line = sample_line"
    using log_sample_facts(4) unfolding log_sample_record by auto
  moreover have "length sample_line + kMaxNumericSize \<le> kSmallBuffer"
    by (simp add: sample_line_def kMaxNumericSize_def kSmallBuffer_def)
  ultimately show ?thesis
    by (auto simp: sample_globals_def)
qed

subsection \<open>Limits\<close>

lemma kept_append: "kept room (xs @ ys) = kept room xs @ kept (room - length (kept room xs)) ys"
  by (induction xs arbitrary: room) auto

text \<open>A message that fills the buffer leaves no room for the place in the source and for the end of the line: the record that
  is written does not end in a newline, and runs into the next one.\<close>

lemma no_room_left: "kept 1 (finish_items l) = []"
  by (simp add: finish_items_def kMaxNumericSize_def bytes_of_def)

lemma full_line_unterminated:
  assumes "length (concat (map item_text prefix)) + kMaxNumericSize \<le> kSmallBuffer"
    and "length (concat (map item_text prefix)) + length message + 1 = kSmallBuffer"
  shows "kept kSmallBuffer (prefix @ [LStr message] @ finish_items l) = concat (map item_text prefix) @ message"
proof -
  define room where "room = kSmallBuffer - length (concat (map item_text prefix))"
  have room: "Suc (length message) \<le> room" "room - length message = 1"
    using assms(2) by (auto simp: room_def)
  have "kept room ([LStr message] @ finish_items l) = message"
    using room no_room_left [of l] by simp
  then show ?thesis
    unfolding kept_append [of _ prefix] kept_fits [OF assms(1)] room_def by simp
qed

text \<open>\<open>setTimeZone\<close> does not invalidate what the threads keep: within the second of its last record a thread prints the time of
  the old zone.\<close>

lemma stale_zone:
  assumes "us div 1000000 = t_lastSecond t" and "0 \<le> us" and "length (t_time t) = 17"
  shows "formatTime (g_logTimeZone (setTimeZone tz g)) us t b =
    bindR (log_puts [LStr (bytes_of (t_time t)), LStr (bytes_of (micros_text tz (us mod 1000000)))] b) (\<lambda>b'. Inr (t, b'))"
proof -
  have "us sdiv kMicroSecondsPerSecond = us div 1000000" "int_cast (us smod kMicroSecondsPerSecond) = us mod 1000000"
    using assms(2) int_cast_small [OF in_int32_small, of "us mod 1000000"] pos_mod_bound [of 1000000 us] pos_mod_sign [of 1000000 us]
    by (simp_all add: kMicroSecondsPerSecond_def)
  moreover have "length (micros_text tz (us mod 1000000)) = (if zone_valid tz then 8 else 9)"
    by (simp add: micros_text_length)
  ultimately show ?thesis
    using assms(1,3) by (auto simp: formatTime_def setTimeZone_def Let_def new_fmt_def put_T_def asserting_def)
qed

text \<open>\<open>t_lastSecond\<close> starts as 0 with no text: a first record in the second of the epoch fails the assertion of \<open>T\<close>.\<close>

lemma epoch_second_fails: "formatTime None 0 new_log_thread b = Inl Assertion"
  by (simp add: formatTime_def new_log_thread_def Let_def new_fmt_def put_T_def zone_valid_def micros_text_length
      int_cast_small in_int32_def)

end
