(* ===== verification/Buffer_Operations.thy ===== *)
theory Buffer_Operations
  imports Net_Buffer
begin

section \<open>All operations of \<open>Buffer\<close> together\<close>







definition safe_result :: "net_buffer res \<Rightarrow> bool" where
  "safe_result r \<longleftrightarrow> (case r of Inl f \<Rightarrow> f = Assertion \<or> f = LengthError | Inr b \<Rightarrow> buf_ok b)"

subsection \<open>Each operation\<close>


lemma safe_result_simps [simp]:
  "safe_result (Inr b) \<longleftrightarrow> buf_ok b" "safe_result (Inl Assertion)"
  "safe_result (asserting P r) \<longleftrightarrow> (P \<longrightarrow> safe_result r)"
  by (simp_all add: safe_result_def asserting_def)


















subsection \<open>Properties\<close>



end
