(* ===== verification/Inet_Address.thy ===== *)
theory Inet_Address
  imports Endian Decimal
begin

section \<open>Addresses and sockets: \<open>InetAddress\<close>, \<open>SocketsOps\<close> and \<open>Socket\<close>\<close>

text \<open>
  An \<open>InetAddress\<close> is the union of \<open>sockaddr_in\<close> and \<open>sockaddr_in6\<close>; the code reads the family and the port through either member,
  which works because they lie at the same offsets.  The model keeps the 28 bytes of the union, so that this is a
  fact about the layout.  The C library's conversions between addresses and text, the resolver and the system calls are
  arguments; an error is logged and leaves its trace in the result only where the code says so.
\<close>

subsection \<open>The layout\<close>

type_synonym inet_address = "byte list"

definition AF_INET :: "16 word" where
  "AF_INET = 2"

definition AF_INET6 :: "16 word" where
  "AF_INET6 = 10"

definition sin_family :: "inet_address \<Rightarrow> 16 word" where
  "sin_family a = of_mem_bytes (slice_of 0 2 a)"

definition sin_port :: "inet_address \<Rightarrow> 16 word" where
  "sin_port a = of_mem_bytes (slice_of 2 4 a)"

definition sin_addr :: "inet_address \<Rightarrow> byte list" where
  "sin_addr a = slice_of 4 8 a"

definition sin6_flowinfo :: "inet_address \<Rightarrow> byte list" where
  "sin6_flowinfo a = slice_of 4 8 a"

definition sin6_addr :: "inet_address \<Rightarrow> byte list" where
  "sin6_addr a = slice_of 8 24 a"

definition sin6_scope_id :: "inet_address \<Rightarrow> byte list" where
  "sin6_scope_id a = slice_of 24 28 a"

definition set_family :: "16 word \<Rightarrow> inet_address \<Rightarrow> inet_address" where
  "set_family f a = write_at 0 (mem_bytes f) a"

definition set_port :: "16 word \<Rightarrow> inet_address \<Rightarrow> inet_address" where
  "set_port p a = write_at 2 (mem_bytes p) a"

text \<open>\<open>memZero\<close> of \<open>addr_\<close> clears 16 bytes of the union, of \<open>addr6_\<close> all.\<close>

definition zero_addr :: "inet_address \<Rightarrow> inet_address" where
  "zero_addr a = write_at 0 (replicate 16 0) a"

definition zero_addr6 :: "inet_address \<Rightarrow> inet_address" where
  "zero_addr6 a = write_at 0 (replicate 28 0) a"

subsection \<open>\<open>InetAddress\<close>\<close>

definition kInaddrAny :: "32 word" where
  "kInaddrAny = 0"

definition kInaddrLoopback :: "32 word" where
  "kInaddrLoopback = 0x7F000001"

definition in6addr_any :: "byte list" where
  "in6addr_any = replicate 16 0"

definition in6addr_loopback :: "byte list" where
  "in6addr_loopback = replicate 15 0 @ [1]"

text \<open>\<open>mem\<close> is what the memory of the object held before.\<close>

definition inet_any :: "16 word \<Rightarrow> bool \<Rightarrow> bool \<Rightarrow> byte list \<Rightarrow> inet_address" where
  "inet_any port loopbackOnly ipv6 mem =
     (if ipv6 then
        let a = set_family AF_INET6 (zero_addr6 mem);
            ip = (if loopbackOnly then in6addr_loopback else in6addr_any)
        in set_port (hostToNetwork16 port) (write_at 8 ip a)
      else
        let a = set_family AF_INET (zero_addr mem);
            ip = (if loopbackOnly then kInaddrLoopback else kInaddrAny)
        in set_port (hostToNetwork16 port) (write_at 4 (mem_bytes (hostToNetwork32 ip)) a))"












definition portNetEndian :: "inet_address \<Rightarrow> 16 word" where
  "portNetEndian a = sin_port a"

definition toPort :: "inet_address \<Rightarrow> 16 word" where
  "toPort a = networkToHost16 (portNetEndian a)"

text \<open>\<open>resolve\<close>: \<open>host\<close> is the entry \<open>gethostbyname_r\<close> found, its address type and its first address, if any.\<close>

definition resolve :: "(16 word \<times> byte list) option \<Rightarrow> inet_address \<Rightarrow> (bool \<times> inet_address) res" where
  "resolve host a =
     (case host of
        Some (addrtype, bs) \<Rightarrow> asserting (addrtype = AF_INET \<and> length bs = 4) (Inr (True, write_at 4 bs a))
      | None \<Rightarrow> Inr (False, a))"

definition setScopeId :: "32 word \<Rightarrow> inet_address \<Rightarrow> inet_address" where
  "setScopeId scope_id a = (if sin_family a = AF_INET6 then write_at 24 (mem_bytes scope_id) a else a)"

definition setSockAddrInet6 :: "inet_address \<Rightarrow> inet_address \<Rightarrow> inet_address" where
  "setSockAddrInet6 addr6 a = addr6"

subsection \<open>\<open>SocketsOps\<close>\<close>

text \<open>The errors of \<open>accept\<close> the code expects; all others end the process.\<close>

definition expected_accept_errors :: "int set" where
  "expected_accept_errors = {11, 103, 4, 71, 1, 24}"

definition sockets_accept :: "int + int \<times> byte list \<Rightarrow> inet_address \<Rightarrow> (int \<times> int option \<times> inet_address) res" where
  "sockets_accept result addr =
     (case result of
        Inr (connfd, bs) \<Rightarrow> Inr (connfd, None, write_at 0 bs addr)
      | Inl err \<Rightarrow> if err \<in> expected_accept_errors then Inr (-1, Some err, addr) else Inl Fatal)"

definition createNonblockingOrDie :: "int \<Rightarrow> int res" where
  "createNonblockingOrDie sockfd = (if sockfd < 0 then Inl Fatal else Inr sockfd)"

definition bindOrDie :: "int \<Rightarrow> unit res" where
  "bindOrDie ret = (if ret < 0 then Inl Fatal else Inr ())"

definition listenOrDie :: "int \<Rightarrow> unit res" where
  "listenOrDie ret = (if ret < 0 then Inl Fatal else Inr ())"

text \<open>\<open>getsockopt\<close> fails with an error number or gives the pending error of the socket.\<close>

definition getSocketError :: "int + int \<Rightarrow> int" where
  "getSocketError result = (case result of Inl err \<Rightarrow> err | Inr optval \<Rightarrow> optval)"

text \<open>\<open>getsockname\<close> and \<open>getpeername\<close> write the bytes of an address, or fail.\<close>

definition getLocalAddr :: "byte list option \<Rightarrow> inet_address" where
  "getLocalAddr name = (case name of None \<Rightarrow> replicate 28 0 | Some bs \<Rightarrow> write_at 0 bs (replicate 28 0))"

definition getPeerAddr :: "byte list option \<Rightarrow> inet_address" where
  "getPeerAddr name = (case name of None \<Rightarrow> replicate 28 0 | Some bs \<Rightarrow> write_at 0 bs (replicate 28 0))"

definition isSelfConnect :: "byte list option \<Rightarrow> byte list option \<Rightarrow> bool" where
  "isSelfConnect sockname peername =
     (let localaddr = getLocalAddr sockname; peeraddr = getPeerAddr peername in
      if sin_family localaddr = AF_INET
      then sin_port localaddr = sin_port peeraddr \<and> sin_addr localaddr = sin_addr peeraddr
      else if sin_family localaddr = AF_INET6
      then sin_port localaddr = sin_port peeraddr \<and> sin6_addr localaddr = sin6_addr peeraddr
      else False)"

subsection \<open>\<open>Socket\<close>\<close>

text \<open>A socket is its descriptor; what is asked of the kernel for it is recorded.\<close>

datatype socket_call =
    SetSockOpt string int     \<comment> \<open>the option and its value\<close>
  | BindTo inet_address
  | ListenOn
  | ShutdownWrite
  | CloseFd

record socket =
  sk_fd :: int
  sk_calls :: "socket_call list"

definition new_socket :: "int \<Rightarrow> socket" where
  "new_socket sockfd = \<lparr>sk_fd = sockfd, sk_calls = []\<rparr>"

definition sock_call :: "socket_call \<Rightarrow> socket \<Rightarrow> socket" where
  "sock_call c s = s\<lparr>sk_calls := sk_calls s @ [c]\<rparr>"

definition destroy_socket :: "socket \<Rightarrow> socket" where
  "destroy_socket s = sock_call CloseFd s"

definition bindAddress :: "int \<Rightarrow> inet_address \<Rightarrow> socket \<Rightarrow> socket res" where
  "bindAddress ret a s = bindR (bindOrDie ret) (\<lambda>_. Inr (sock_call (BindTo a) s))"

definition socket_listen :: "int \<Rightarrow> socket \<Rightarrow> socket res" where
  "socket_listen ret s = bindR (listenOrDie ret) (\<lambda>_. Inr (sock_call ListenOn s))"

definition socket_accept :: "int + int \<times> byte list \<Rightarrow> inet_address \<Rightarrow> (int \<times> int option \<times> inet_address) res" where
  "socket_accept result peeraddr =
     bindR (sockets_accept result (replicate 28 0)) (\<lambda>(connfd, err, addr).
       Inr (connfd, err, if 0 \<le> connfd then setSockAddrInet6 addr peeraddr else peeraddr))"

definition socket_shutdownWrite :: "socket \<Rightarrow> socket" where
  "socket_shutdownWrite s = sock_call ShutdownWrite s"

definition setTcpNoDelay :: "bool \<Rightarrow> socket \<Rightarrow> socket" where
  "setTcpNoDelay on s = sock_call (SetSockOpt ''TCP_NODELAY'' (if on then 1 else 0)) s"

definition setReuseAddr :: "bool \<Rightarrow> socket \<Rightarrow> socket" where
  "setReuseAddr on s = sock_call (SetSockOpt ''SO_REUSEADDR'' (if on then 1 else 0)) s"

text \<open>\<open>setReusePort\<close> logs when it was asked to turn the option on and the kernel refuses.\<close>

definition setReusePort :: "bool \<Rightarrow> int \<Rightarrow> socket \<Rightarrow> bool \<times> socket" where
  "setReusePort on ret s = (ret < 0 \<and> on, sock_call (SetSockOpt ''SO_REUSEPORT'' (if on then 1 else 0)) s)"

definition setKeepAlive :: "bool \<Rightarrow> socket \<Rightarrow> socket" where
  "setKeepAlive on s = sock_call (SetSockOpt ''SO_KEEPALIVE'' (if on then 1 else 0)) s"

record tcp_info =
  tcpi_retransmits :: "8 word"
  tcpi_rto :: "32 word"
  tcpi_ato :: "32 word"
  tcpi_snd_mss :: "32 word"
  tcpi_rcv_mss :: "32 word"
  tcpi_lost :: "32 word"
  tcpi_retrans :: "32 word"
  tcpi_rtt :: "32 word"
  tcpi_rttvar :: "32 word"
  tcpi_snd_ssthresh :: "32 word"
  tcpi_snd_cwnd :: "32 word"
  tcpi_total_retrans :: "32 word"

text \<open>\<open>tcpi\<close> is what \<open>getsockopt\<close> gives, if it succeeds; \<open>len\<close> is the size of the buffer.\<close>

definition getTcpInfoString :: "nat \<Rightarrow> tcp_info option \<Rightarrow> string option" where
  "getTcpInfoString len tcpi =
     map_option (\<lambda>t. take (len - 1) (''unrecovered='' @ dec_nat (unat (tcpi_retransmits t)) @
       '' rto='' @ dec_nat (unat (tcpi_rto t)) @ '' ato='' @ dec_nat (unat (tcpi_ato t)) @
       '' snd_mss='' @ dec_nat (unat (tcpi_snd_mss t)) @ '' rcv_mss='' @ dec_nat (unat (tcpi_rcv_mss t)) @
       '' lost='' @ dec_nat (unat (tcpi_lost t)) @ '' retrans='' @ dec_nat (unat (tcpi_retrans t)) @
       '' rtt='' @ dec_nat (unat (tcpi_rtt t)) @ '' rttvar='' @ dec_nat (unat (tcpi_rttvar t)) @
       '' sshthresh='' @ dec_nat (unat (tcpi_snd_ssthresh t)) @ '' cwnd='' @ dec_nat (unat (tcpi_snd_cwnd t)) @
       '' total_retrans='' @ dec_nat (unat (tcpi_total_retrans t)))) tcpi"

text \<open>\<open>TcpConnection::getTcpInfoString\<close>.\<close>

definition conn_getTcpInfoString :: "tcp_info option \<Rightarrow> string" where
  "conn_getTcpInfoString tcpi = (case getTcpInfoString 1024 tcpi of None \<Rightarrow> '''' | Some buf \<Rightarrow> buf)"

subsection \<open>Reading what was written\<close>

lemma slice_of_write_at_same:
  "i + length xs \<le> length mem \<Longrightarrow> j = i + length xs \<Longrightarrow> slice_of i j (write_at i xs mem) = xs"
  by (simp add: slice_of_def write_at_def)

lemma slice_of_write_at_before:
  "i + length xs \<le> k \<Longrightarrow> i + length xs \<le> length mem \<Longrightarrow> slice_of k j (write_at i xs mem) = slice_of k j mem"
  by (simp add: slice_of_def write_at_def)

lemmas inet_fields = sin_family_def sin_port_def sin_addr_def sin6_addr_def sin6_flowinfo_def sin6_scope_id_def
  set_family_def set_port_def zero_addr_def zero_addr6_def


lemma length_zero_addr [simp]: "length mem = 28 \<Longrightarrow> length (zero_addr mem) = 28"
  by (simp add: zero_addr_def)
















text \<open>A connection to itself is one whose two ends are the same address and port.\<close>

lemma isSelfConnect_same:
  assumes "length a = 28" and "sin_family a \<in> {AF_INET, AF_INET6}"
  shows "isSelfConnect (Some a) (Some a)"
  using assms by (auto simp: isSelfConnect_def getLocalAddr_def getPeerAddr_def Let_def write_at_def)

lemma isSelfConnect_end:
  assumes "length a = 28" and "length b = 28" and "isSelfConnect (Some a) (Some b)"
  shows "toPort a = toPort b \<and> (sin_family a = AF_INET \<and> sin_addr a = sin_addr b \<or> sin_family a = AF_INET6 \<and> sin6_addr a = sin6_addr b)"
  using assms
  by (auto simp: isSelfConnect_def getLocalAddr_def getPeerAddr_def Let_def write_at_def toPort_def portNetEndian_def split: if_splits)

text \<open>\<open>resolve\<close> writes through \<open>addr_\<close>: on an address of IPv6 it reports success and leaves the address as it was, but changes the
  flow information.\<close>

lemma resolve_inet6:
  assumes "length a = 28" and "length bs = 4"
  shows "\<exists>a'. resolve (Some (AF_INET, bs)) a = Inr (True, a') \<and> sin6_addr a' = sin6_addr a \<and> sin6_flowinfo a' = bs"
  using assms by (simp add: resolve_def inet_fields slice_of_write_at_before slice_of_write_at_same)

text \<open>\<open>accept\<close> leaves the address of the caller alone when it fails, and the process survives exactly the expected errors.\<close>

lemma socket_accept_cases:
  "socket_accept (Inl err) peeraddr = (if err \<in> expected_accept_errors then Inr (-1, Some err, peeraddr) else Inl Fatal)"
  "0 \<le> connfd \<Longrightarrow> length bs \<le> 28 \<Longrightarrow>
     \<exists>a. socket_accept (Inr (connfd, bs)) peeraddr = Inr (connfd, None, a) \<and> take (length bs) a = bs \<and> length a = 28"
  by (simp_all add: socket_accept_def sockets_accept_def setSockAddrInet6_def write_at_def)

end
