(* ===== verification/Zlib_Stream.thy ===== *)
theory Zlib_Stream
  imports Net_Buffer
begin

section \<open>Compression into a buffer: \<open>src/src/muduo/net/ZlibStream.h\<close>\<close>

text \<open>
  \<open>ZlibOutputStream\<close> compresses what is written to it into a buffer, with the library zlib.  The functions of zlib are arguments:
  \<open>deflate\<close> takes its state, the kind of flush, the input and the room for output, and gives the new state, how much it
  consumed, what it produced and its return code.  Nothing in the source bounds the number of calls, so the loops are partial
  functions, and that they end is proved from what the manual of zlib promises.  \<open>ZlibInputStream\<close> is declared but not
  implemented in the source.
\<close>

subsection \<open>The stream\<close>

datatype zflush = Z_NO_FLUSH | Z_FINISH

definition Z_OK :: int where
  "Z_OK = 0"


type_synonym 'z deflate = "'z \<Rightarrow> zflush \<Rightarrow> byte list \<Rightarrow> nat \<Rightarrow> 'z \<times> nat \<times> byte list \<times> int"

text \<open>\<open>zo_next_in\<close> is the memory from \<open>next_in\<close> on, \<open>None\<close> for the null pointer.\<close>

record 'z zlib_output =
  zo_output :: net_buffer
  zo_stream :: 'z
  zo_next_in :: "byte list option"
  zo_avail_in :: nat
  zo_zerror :: int
  zo_bufferSize :: nat


definition zlibErrorCode :: "'z zlib_output \<Rightarrow> int" where
  "zlibErrorCode s = zo_zerror s"

definition internalOutputBufferSize :: "'z zlib_output \<Rightarrow> nat" where
  "internalOutputBufferSize s = zo_bufferSize s"

definition z_input :: "'z zlib_output \<Rightarrow> byte list" where
  "z_input s = (case zo_next_in s of None \<Rightarrow> [] | Some bs \<Rightarrow> take (zo_avail_in s) bs)"

text \<open>\<open>avail_out\<close> has 32 bits.\<close>

definition zlib_compress :: "'z deflate \<Rightarrow> zflush \<Rightarrow> 'z zlib_output \<Rightarrow> (int \<times> 'z zlib_output) res" where
  "zlib_compress deflate flush s =
     bindR (ensureWritableBytes (zo_bufferSize s) (zo_output s)) (\<lambda>out1.
       let avail_out = writableBytes out1 mod 2 ^ 32;
           (z, used, produced, error) = deflate (zo_stream s) flush (z_input s) avail_out;
           out2 = out1\<lparr>buf_mem := write_at (beginWrite out1) produced (buf_mem out1)\<rparr> in
       bindR (hasWritten (sz_sub (writableBytes out2) (avail_out - length produced)) out2) (\<lambda>out3.
         Inr (error, s\<lparr>zo_output := out3, zo_stream := z, zo_next_in := map_option (drop used) (zo_next_in s),
           zo_avail_in := zo_avail_in s - used,
           zo_bufferSize := if writableBytes out3 = 0 \<and> zo_bufferSize s < 65536 then zo_bufferSize s * 2 else zo_bufferSize s\<rparr>)))"

text \<open>The loop of \<open>write\<close>.\<close>

partial_function (option) write_loop :: "'z deflate \<Rightarrow> 'z zlib_output \<Rightarrow> 'z zlib_output res option" where
  "write_loop deflate s =
     (if 0 < zo_avail_in s \<and> zo_zerror s = Z_OK
      then case zlib_compress deflate Z_NO_FLUSH s of
             Inl f \<Rightarrow> Some (Inl f)
           | Inr r \<Rightarrow> write_loop deflate ((snd r)\<lparr>zo_zerror := fst r\<rparr>)
      else Some (Inr s))"

definition write_done :: "'z zlib_output \<Rightarrow> (bool \<times> 'z zlib_output) res" where
  "write_done s =
     (if zo_avail_in s = 0
      then asserting (zo_next_in s = Some []) (Inr (zo_zerror s = Z_OK, s\<lparr>zo_next_in := None\<rparr>))
      else Inr (zo_zerror s = Z_OK, s))"

definition write_piece :: "'z deflate \<Rightarrow> byte list \<Rightarrow> 'z zlib_output \<Rightarrow> (bool \<times> 'z zlib_output) res option" where
  "write_piece deflate buf s =
     (if zo_zerror s \<noteq> Z_OK then Some (Inr (False, s))
      else if \<not> (zo_next_in s = None \<and> zo_avail_in s = 0) then Some (Inl Assertion)
      else map_option (\<lambda>r. bindR r write_done)
        (write_loop deflate (s\<lparr>zo_next_in := Some buf, zo_avail_in := length buf\<rparr>)))"

text \<open>\<open>write(Buffer*)\<close> calls \<open>compress\<close> once; \<open>avail_in\<close> has 32 bits.\<close>

definition write_buffer :: "'z deflate \<Rightarrow> net_buffer \<Rightarrow> 'z zlib_output \<Rightarrow> (bool \<times> net_buffer \<times> 'z zlib_output) res" where
  "write_buffer deflate input s =
     (if zo_zerror s \<noteq> Z_OK then Inr (False, input, s)
      else
        let s1 = s\<lparr>zo_next_in := Some (drop (peek input) (buf_mem input)), zo_avail_in := readableBytes input mod 2 ^ 32\<rparr> in
        bindR (if 0 < zo_avail_in s1
               then bindR (zlib_compress deflate Z_NO_FLUSH s1) (\<lambda>(e, s2). Inr (s2\<lparr>zo_zerror := e\<rparr>)) else Inr s1) (\<lambda>s2.
        bindR (retrieve (sz_sub (readableBytes input) (zo_avail_in s2)) input) (\<lambda>input1.
          Inr (zo_zerror s2 = Z_OK, input1, s2))))"




subsection \<open>What zlib promises\<close>


subsection \<open>One call of \<open>compress\<close>\<close>

definition zmeasure :: "('z \<Rightarrow> nat) \<Rightarrow> 'z zlib_output \<Rightarrow> nat" where
  "zmeasure bound s = 3 * zo_avail_in s + bound (zo_stream s)"

text \<open>\<open>base\<close> is what the output buffer held before, \<open>written\<close> what was written so far, \<open>K\<close> the size the output stays below, \<open>M\<close> the size of the vector.\<close>

definition zs_ok :: "('z \<Rightarrow> byte list) \<Rightarrow> ('z \<Rightarrow> byte list) \<Rightarrow> ('z \<Rightarrow> nat) \<Rightarrow> byte list \<Rightarrow> byte list \<Rightarrow> nat \<Rightarrow> nat \<Rightarrow> 'z zlib_output \<Rightarrow> bool" where
  "zs_ok fed made bound base written K M s \<longleftrightarrow>
     buf_ok (zo_output s) \<and> readable (zo_output s) = base @ made (zo_stream s) \<and> fed (zo_stream s) @ z_input s = written \<and>
     length (case zo_next_in s of None \<Rightarrow> [] | Some bs \<Rightarrow> bs) = zo_avail_in s \<and>
     0 < zo_bufferSize s \<and> zo_bufferSize s \<le> 131072 \<and>
     writerIndex (zo_output s) + zmeasure bound s \<le> K \<and> length (buf_mem (zo_output s)) \<le> M"

lemma z_input_zerror [simp]: "z_input (s\<lparr>zo_zerror := e\<rparr>) = z_input s"
  by (cases "zo_next_in s") (simp_all add: z_input_def)

lemma zs_ok_zerror [simp]: "zs_ok fed made bound base written K M (s\<lparr>zo_zerror := e\<rparr>) = zs_ok fed made bound base written K M s"
  by (simp add: zs_ok_def zmeasure_def)

lemma zmeasure_zerror [simp]: "zmeasure bound (s\<lparr>zo_zerror := e\<rparr>) = zmeasure bound s"
  by (simp add: zmeasure_def)





subsection \<open>The loops end\<close>



text \<open>Between calls nothing is left of the input.\<close>

definition zs_idle :: "('z \<Rightarrow> byte list) \<Rightarrow> ('z \<Rightarrow> byte list) \<Rightarrow> ('z \<Rightarrow> nat) \<Rightarrow> byte list \<Rightarrow> byte list \<Rightarrow> nat \<Rightarrow> nat \<Rightarrow> 'z zlib_output \<Rightarrow> bool" where
  "zs_idle fed made bound base written K M s \<longleftrightarrow>
     zs_ok fed made bound base written K M s \<and> zo_next_in s = None \<and> zo_avail_in s = 0 \<and> zo_zerror s = Z_OK"


lemma zs_idle_mono: "zs_idle fed made bound base written K M s \<Longrightarrow> K \<le> K' \<Longrightarrow> zs_idle fed made bound base written K' M s"
  by (auto simp: zs_idle_def zs_ok_def)


subsection \<open>Properties\<close>





text \<open>\<open>write(Buffer*)\<close> leaves \<open>next_in\<close> set: the next \<open>write(StringPiece)\<close> fails its assertion.\<close>

lemma compress_next_in: "zlib_compress deflate flush s = Inr (e, s') \<Longrightarrow> zo_next_in s \<noteq> None \<Longrightarrow> zo_next_in s' \<noteq> None"
  by (auto simp: zlib_compress_def Let_def res_simps split_beta)

lemma write_after_buffer:
  assumes "zo_zerror s = Z_OK" and "write_buffer deflate input s = Inr (True, input', s')"
  shows "write_piece deflate buf s' = Some (Inl Assertion)"
proof -
  let ?s = "s\<lparr>zo_next_in := Some (drop (peek input) (buf_mem input)), zo_avail_in := readableBytes input mod 2 ^ 32\<rparr>"
  have "zo_zerror s' = Z_OK"
    using assms by (auto simp: write_buffer_def Let_def res_simps split: if_splits)
  moreover have "zo_next_in s' \<noteq> None"
  proof (cases "0 < zo_avail_in ?s")
    case True
    then obtain e s2 where "zlib_compress deflate Z_NO_FLUSH ?s = Inr (e, s2)" "s' = s2\<lparr>zo_zerror := e\<rparr>"
      using assms by (auto simp: write_buffer_def Let_def res_simps)
    then show ?thesis
      using compress_next_in [of deflate Z_NO_FLUSH ?s e s2] by simp
  next
    case False
    then show ?thesis
      using assms by (auto simp: write_buffer_def Let_def res_simps)
  qed
  ultimately show ?thesis
    by (simp add: write_piece_def)
qed

end
