(* ===== verification/Buffer_Stream.thy ===== *)
theory Buffer_Stream
  imports Net_Buffer
begin

section \<open>Writing into a buffer in place: \<open>src/src/muduo/net/protobuf/BufferStream.h\<close>\<close>

text \<open>
  \<open>BufferOutputStream\<close> lends the free space of a buffer to a writer, which stores what it has and gives the rest back.
  \<open>Next\<close> returns where the space starts and how large it is.
\<close>

record buffer_stream =
  bs_buffer :: net_buffer
  bs_originalSize :: nat

definition new_buffer_stream :: "net_buffer \<Rightarrow> buffer_stream" where
  "new_buffer_stream buf = \<lparr>bs_buffer = buf, bs_originalSize = readableBytes buf\<rparr>"

definition stream_Next :: "buffer_stream \<Rightarrow> (nat \<times> int \<times> buffer_stream) res" where
  "stream_Next s =
     bindR (ensureWritableBytes 4096 (bs_buffer s)) (\<lambda>b.
       let data = beginWrite b; n = to_int32 (writableBytes b) in
       bindR (hasWritten (int_to_size n) b) (\<lambda>b'. Inr (data, n, s\<lparr>bs_buffer := b'\<rparr>)))"

definition stream_BackUp :: "int \<Rightarrow> buffer_stream \<Rightarrow> buffer_stream res" where
  "stream_BackUp count s = bindR (unwrite (int_to_size count) (bs_buffer s)) (\<lambda>b. Inr (s\<lparr>bs_buffer := b\<rparr>))"

definition stream_ByteCount :: "buffer_stream \<Rightarrow> nat" where
  "stream_ByteCount s = sz_sub (readableBytes (bs_buffer s)) (bs_originalSize s)"

text \<open>The writer stores its bytes in the space it was lent and gives back what it did not use.\<close>

definition stream_put :: "byte list \<Rightarrow> buffer_stream \<Rightarrow> buffer_stream res" where
  "stream_put xs s =
     bindR (stream_Next s) (\<lambda>(data, n, s1).
       let b = bs_buffer s1; s2 = s1\<lparr>bs_buffer := b\<lparr>buf_mem := write_at data xs (buf_mem b)\<rparr>\<rparr> in
       stream_BackUp (n - int (length xs)) s2)"

text \<open>Up to 4096 bytes at a time are appended to the buffer, and counted, as long as the buffer stays below 2 GiB.\<close>

lemma stream_put_appends:
  assumes "buf_ok (bs_buffer s)" and "length xs \<le> 4096" and "length (buf_mem (bs_buffer s)) + 4096 < 2 ^ 31"
  shows "\<exists>s'. stream_put xs s = Inr s' \<and> buf_ok (bs_buffer s') \<and> readable (bs_buffer s') = readable (bs_buffer s) @ xs \<and>
    bs_originalSize s' = bs_originalSize s"
proof -
  let ?b = "bs_buffer s"
  have room: "writerIndex ?b + 4096 \<le> max_size"
    using assms(1,3) by (auto simp: buf_ok_def max_size_def)
  obtain b where b: "ensureWritableBytes 4096 ?b = Inr b" "buf_ok b" "readable b = readable ?b" "4096 \<le> writableBytes b"
    using ensureWritableBytes_cases [OF assms(1), of 4096] room by auto
  have size: "length (buf_mem b) < 2 ^ 31" "writerIndex b \<le> length (buf_mem b)" "readerIndex b \<le> writerIndex b"
    using ensureWritableBytes_size(2) [OF assms(1) b(1) room] assms(1,3) b(2) by (auto simp: buf_ok_def)
  define w where "w = writableBytes b"
  have w: "w = length (buf_mem b) - writerIndex b" "w < 2 ^ 31" "length xs \<le> w" "writerIndex b + w = length (buf_mem b)"
    using buf_ok_sizes(3) [OF b(2)] b(4) assms(2) size by (simp_all add: w_def)
  define b1 where "b1 = b\<lparr>writerIndex := length (buf_mem b)\<rparr>"
  have "hasWritten w b = Inr b1"
    using w size by (simp add: hasWritten_def sz_add_exact b1_def flip: w_def)
  then have "stream_Next s = Inr (writerIndex b, int w, s\<lparr>bs_buffer := b1\<rparr>)"
    using b(1) w(2) by (simp add: stream_Next_def Let_def beginWrite_def flip: w_def)
  moreover define b2 where "b2 = b1\<lparr>buf_mem := write_at (writerIndex b) xs (buf_mem b)\<rparr>"
  moreover have "unwrite (w - length xs) b2 = Inr (b2\<lparr>writerIndex := writerIndex b + length xs\<rparr>)"
  proof -
    have "readableBytes b2 = length (buf_mem b) - readerIndex b"
      using size by (simp add: readableBytes_def b2_def b1_def sz_sub_exact)
    moreover have "sz_sub (length (buf_mem b)) (w - length xs) = writerIndex b + length xs"
      using size w by (simp add: sz_sub_exact)
    moreover have "w - length xs \<le> length (buf_mem b) - readerIndex b"
      using size w by linarith
    ultimately show ?thesis
      by (simp add: unwrite_def b2_def b1_def)
  qed
  moreover have "int_to_size (int w - int (length xs)) = w - length xs"
    using w by (simp add: nat_diff_distrib)
  ultimately have "stream_put xs s = Inr (s\<lparr>bs_buffer := b\<lparr>buf_mem := write_at (writerIndex b) xs (buf_mem b),
      writerIndex := writerIndex b + length xs\<rparr>\<rparr>)"
    by (simp add: stream_put_def stream_BackUp_def b1_def Let_def)
  moreover have "hasWritten (length xs) (b\<lparr>buf_mem := write_at (writerIndex b) xs (buf_mem b)\<rparr>) =
      Inr (b\<lparr>buf_mem := write_at (writerIndex b) xs (buf_mem b), writerIndex := writerIndex b + length xs\<rparr>)"
    using w size by (simp add: hasWritten_def writableBytes_def sz_add_exact sz_sub_exact)
  ultimately show ?thesis
    using hasWritten_readable [OF b(2), of xs] w(3) b(3) by (auto simp: w_def)
qed

text \<open>\<open>ByteCount\<close> is the number of bytes written since the stream was made.\<close>

lemma stream_ByteCount_new:
  assumes "buf_ok b" and "buf_ok (bs_buffer s)" and "readable (bs_buffer s) = readable b @ xs"
    and "bs_originalSize s = bs_originalSize (new_buffer_stream b)"
  shows "stream_ByteCount s = length xs"
proof -
  have "readableBytes (bs_buffer s) = readableBytes b + length xs"
    using assms by (simp add: buf_ok_sizes(1))
  moreover have "readableBytes (bs_buffer s) < 2 ^ 64"
    using assms(2) by (auto simp: buf_ok_sizes(2) buf_ok_def max_size_def)
  ultimately show ?thesis
    using assms(4) by (simp add: stream_ByteCount_def new_buffer_stream_def sz_sub_exact)
qed

end
