(* ===== verification/Process_Info.thy ===== *)
theory Process_Info
  imports Decimal
begin

section \<open>What the process knows of itself: \<open>src/src/muduo/base/ProcessInfo.cc\<close>\<close>

text \<open>
  The functions that read text the kernel gives: \<open>/proc/self/stat\<close>, \<open>/proc/self/status\<close> and the directories of threads and open files.
  What the files and the system calls deliver are arguments; \<open>FileUtil::readFile\<close>, which reads the files, is in \<open>Log_File\<close>.
  \<open>scandir\<close> calls its filter for every entry.
\<close>

subsection \<open>Strings\<close>

text \<open>\<open>std::string::find\<close> of a string, and \<open>rfind\<close> of a character; \<open>npos\<close> is \<open>None\<close>.\<close>

fun str_find :: "'a list \<Rightarrow> 'a list \<Rightarrow> nat option" where
  "str_find pat [] = (if pat = [] then Some 0 else None)"
| "str_find pat (c # cs) = (if take (length pat) (c # cs) = pat then Some 0 else map_option Suc (str_find pat cs))"

fun char_rfind :: "'a \<Rightarrow> 'a list \<Rightarrow> nat option" where
  "char_rfind c [] = None"
| "char_rfind c (x # xs) = (case char_rfind c xs of Some i \<Rightarrow> Some (Suc i) | None \<Rightarrow> if x = c then Some 0 else None)"

text \<open>\<open>atoi\<close>: blanks, a sign and digits; the value has to fit into an \<open>int\<close>.\<close>

definition is_space :: "char \<Rightarrow> bool" where
  "is_space c \<longleftrightarrow> c = CHR '' '' \<or> 9 \<le> (of_char c :: nat) \<and> (of_char c :: nat) \<le> 13"

definition atoi :: "string \<Rightarrow> int res" where
  "atoi s =
     (let t = dropWhile is_space s;
          neg = (t \<noteq> [] \<and> hd t = CHR ''-'');
          u = (if t \<noteq> [] \<and> hd t \<in> {CHR ''-'', CHR ''+''} then tl t else t);
          v = int (dec_val (takeWhile is_digit u));
          i = (if neg then - v else v)
      in if - (2 ^ 31) \<le> i \<and> i < 2 ^ 31 then Inr i else Inl Undefined)"

subsection \<open>Directories\<close>

definition fdDirFilter :: "string \<Rightarrow> nat \<Rightarrow> nat" where
  "fdDirFilter d_name numOpenedFiles =
     (if d_name \<noteq> [] \<and> is_digit (hd d_name) then numOpenedFiles + 1 else numOpenedFiles)"

definition taskDirFilter :: "string \<Rightarrow> int list \<Rightarrow> int list res" where
  "taskDirFilter d_name pids =
     (if d_name \<noteq> [] \<and> is_digit (hd d_name) then bindR (atoi d_name) (\<lambda>pid. Inr (pids @ [pid])) else Inr pids)"

fun scan_tasks :: "string list \<Rightarrow> int list \<Rightarrow> int list res" where
  "scan_tasks [] pids = Inr pids"
| "scan_tasks (d # ds) pids = bindR (taskDirFilter d pids) (scan_tasks ds)"

definition openedFiles :: "string list \<Rightarrow> nat" where
  "openedFiles entries = fold fdDirFilter entries 0"

definition maxOpenFiles :: "int option \<Rightarrow> string list \<Rightarrow> int" where
  "maxOpenFiles rlim_cur entries = (case rlim_cur of None \<Rightarrow> int (openedFiles entries) | Some cur \<Rightarrow> signed_take_bit 31 cur)"

definition threads :: "string list \<Rightarrow> int list res" where
  "threads entries = bindR (scan_tasks entries []) (\<lambda>pids. Inr (sort pids))"

subsection \<open>The process\<close>

definition pidString :: "int \<Rightarrow> string" where
  "pidString pid = take 31 (dec_int pid)"

definition username :: "string option \<Rightarrow> string" where
  "username pw_name = (case pw_name of Some name \<Rightarrow> name | None \<Rightarrow> ''unknownuser'')"

text \<open>\<open>gethostname\<close> fills at most 256 bytes, of which the last is overwritten.\<close>

definition hostname :: "string option \<Rightarrow> string" where
  "hostname name = (case name of Some n \<Rightarrow> take 255 n | None \<Rightarrow> ''unknownhost'')"

definition procname :: "string \<Rightarrow> string" where
  "procname stat =
     (case (str_find ''('' stat, char_rfind CHR '')'' stat) of
        (Some lp, Some rp) \<Rightarrow> if lp < rp then take (rp - lp - 1) (drop (lp + 1) stat) else []
      | _ \<Rightarrow> [])"

definition threadStat_path :: "int \<Rightarrow> string" where
  "threadStat_path tid = take 63 (''/proc/self/task/'' @ dec_int tid @ ''/stat'')"

definition exePath :: "string option \<Rightarrow> string" where
  "exePath link = (case link of Some path \<Rightarrow> take 1024 path | None \<Rightarrow> [])"

definition numThreads :: "string \<Rightarrow> int res" where
  "numThreads status =
     (case str_find ''Threads:'' status of None \<Rightarrow> Inr 0 | Some pos \<Rightarrow> atoi (drop (pos + 8) status))"

subsection \<open>What they find\<close>

lemma str_find_first:
  assumes "str_find pat s = Some i"
  shows "take (length pat) (drop i s) = pat" "\<forall>j < i. take (length pat) (drop j s) \<noteq> pat"
proof -
  have "take (length pat) (drop i s) = pat \<and> (\<forall>j < i. take (length pat) (drop j s) \<noteq> pat)"
    using assms
  proof (induction s arbitrary: i)
    case (Cons c cs)
    show ?case
    proof (cases "take (length pat) (c # cs) = pat")
      case False
      with Cons.prems obtain k where "i = Suc k" "str_find pat cs = Some k"
        by auto
      with Cons.IH [of k] False show ?thesis
        by (auto simp: less_Suc_eq_0_disj)
    qed (use Cons.prems in simp)
  qed (auto split: if_splits)
  then show "take (length pat) (drop i s) = pat" "\<forall>j < i. take (length pat) (drop j s) \<noteq> pat"
    by blast+
qed

lemma str_find_char: "c \<notin> set xs \<Longrightarrow> str_find [c] (xs @ c # ys) = Some (length xs)"
  by (induction xs) auto

lemma char_rfind_None: "c \<notin> set xs \<Longrightarrow> char_rfind c xs = None"
  by (induction xs) auto

lemma char_rfind_last: "c \<notin> set ys \<Longrightarrow> char_rfind c (xs @ c # ys) = Some (length xs)"
  by (induction xs) (simp_all add: char_rfind_None)

text \<open>The name of the process is found in \<open>/proc/self/stat\<close> whatever characters it has, also parentheses and blanks.\<close>

lemma procname_found:
  assumes "CHR ''('' \<notin> set pid" and "CHR '')'' \<notin> set fields"
  shows "procname (pid @ ''('' @ name @ '')'' @ fields) = name"
proof -
  have "str_find ''('' (pid @ ''('' @ name @ '')'' @ fields) = Some (length pid)"
    using str_find_char [OF assms(1)] by simp
  moreover have "char_rfind CHR '')'' (pid @ ''('' @ name @ '')'' @ fields) = Some (length pid + Suc (length name))"
    using char_rfind_last [OF assms(2), of "pid @ ''('' @ name"] by simp
  ultimately show ?thesis
    by (simp add: procname_def)
qed

text \<open>\<open>atoi\<close> reads back what is printed in decimal, up to the first character that is no digit.\<close>

lemma atoi_dec:
  assumes "0 \<le> i" and "i < 2 ^ 31" and "list_all is_space blanks" and "rest \<noteq> [] \<longrightarrow> \<not> is_digit (hd rest)"
  shows "atoi (blanks @ dec_int i @ rest) = Inr i"
proof -
  define ds where "ds = dec_nat (nat i)"
  have ds: "dec_int i = ds" "ds \<noteq> []" "list_all is_digit ds" "int (dec_val ds) = i"
    using assms(1) dec_nat_digits [of _ "nat i"] by (simp_all add: dec_int_def ds_def list_all_iff)
  have first: "is_digit (hd ds)"
    using ds(2,3) by (cases ds) simp_all
  then have plain: "\<not> is_space (hd ds)" "hd ds \<notin> {CHR ''-'', CHR ''+''}"
    by (auto simp: is_digit_def is_space_def)
  have "dropWhile is_space (blanks @ ds @ rest) = ds @ rest"
    using assms(3) plain(1) ds(2) by (cases ds) (auto simp: dropWhile_append2 list_all_iff)
  moreover have "takeWhile is_digit (ds @ rest) = ds"
    using ds(3) assms(4) by (cases rest) (auto simp: takeWhile_append2 list_all_iff)
  ultimately show ?thesis
    using ds plain(2) assms(1,2) by (cases ds) (simp_all add: atoi_def Let_def)
qed

lemma numThreads_found:
  assumes "0 \<le> n" and "n < 2 ^ 31" and "list_all is_space blanks" and "rest \<noteq> [] \<longrightarrow> \<not> is_digit (hd rest)"
    and "str_find ''Threads:'' (before @ ''Threads:'' @ blanks @ dec_int n @ rest) = Some (length before)"
  shows "numThreads (before @ ''Threads:'' @ blanks @ dec_int n @ rest) = Inr n"
  using atoi_dec [OF assms(1-4)] assms(5) by (simp add: numThreads_def)

lemma openedFiles_count: "openedFiles entries = length (filter (\<lambda>d. d \<noteq> [] \<and> is_digit (hd d)) entries)"
proof -
  have "fold fdDirFilter entries n = n + length (filter (\<lambda>d. d \<noteq> [] \<and> is_digit (hd d)) entries)" for n
    by (induction entries arbitrary: n) (auto simp: fdDirFilter_def)
  then show ?thesis
    by (simp add: openedFiles_def)
qed

lemma scan_tasks_pids:
  assumes "list_all (\<lambda>i. 0 \<le> i \<and> i < 2 ^ 31) tids"
  shows "scan_tasks (map dec_int tids) pids = Inr (pids @ tids)"
  using assms
proof (induction tids arbitrary: pids)
  case (Cons i tids)
  have "dec_int i \<noteq> []" "is_digit (hd (dec_int i))"
    using Cons.prems dec_nat_digits [of "hd (dec_nat (nat i))" "nat i"] by (auto simp: dec_int_def)
  moreover have "atoi (dec_int i) = Inr i"
    using atoi_dec [of i "[]" "[]"] Cons.prems by simp
  ultimately show ?case
    using Cons by (simp add: taskDirFilter_def)
qed simp

text \<open>The threads of the process, in order, whatever order the directory has them in and without its other entries.\<close>

lemma threads_sorted:
  assumes "list_all (\<lambda>i. 0 \<le> i \<and> i < 2 ^ 31) tids"
  shows "threads ([''.'', ''..''] @ map dec_int tids) = Inr (sort tids)"
proof -
  have "taskDirFilter ''.'' pids = Inr pids" "taskDirFilter ''..'' pids = Inr pids" for pids
    by (simp_all add: taskDirFilter_def is_digit_def)
  then show ?thesis
    using scan_tasks_pids [OF assms] by (simp add: threads_def)
qed

end
