(* ===== verification/Thread_Storage.thy ===== *)
theory Thread_Storage
  imports Muduo_Prelude
begin

section \<open>Objects made once: \<open>Singleton\<close>, \<open>ThreadLocal\<close>, \<open>ThreadLocalSingleton\<close> and \<open>WeakCallback\<close>\<close>

text \<open>
  Objects are numbers, taken in order from a counter, so that a new one differs from all before.  \<open>pthread_once\<close> runs its
  function in the first thread that calls it and makes the others wait until it has returned; the values of a thread key are
  a map from threads, and the destructor of the key runs at the end of a thread that has a value.
\<close>

subsection \<open>\<open>Singleton\<close>\<close>

datatype once = OnceNew | OnceRunning nat | OnceDone

datatype singleton_pc = Outside | InOnce | Got nat

record singleton =
  sg_once :: once
  sg_value :: "nat option"
  sg_made :: nat                    \<comment> \<open>objects made so far\<close>
  sg_atexit :: bool
  sg_pc :: "nat \<Rightarrow> singleton_pc"    \<comment> \<open>where the threads are in \<open>instance\<close>\<close>

definition new_singleton :: singleton where
  "new_singleton = \<lparr>sg_once = OnceNew, sg_value = None, sg_made = 0, sg_atexit = False, sg_pc = (\<lambda>_. Outside)\<rparr>"

definition singleton_init :: "bool \<Rightarrow> singleton \<Rightarrow> singleton" where
  "singleton_init no_destroy s =
     s\<lparr>sg_value := Some (sg_made s), sg_made := sg_made s + 1, sg_atexit := \<not> no_destroy\<rparr>"

definition singleton_destroy :: "singleton \<Rightarrow> singleton" where
  "singleton_destroy s = s\<lparr>sg_value := None\<rparr>"

definition instance_result :: "singleton \<Rightarrow> nat res" where
  "instance_result s = (case sg_value s of None \<Rightarrow> Inl Assertion | Some v \<Rightarrow> Inr v)"

inductive singleton_step :: "bool \<Rightarrow> singleton \<Rightarrow> singleton res \<Rightarrow> bool" for no_destroy where
  enters: "sg_pc s t \<noteq> InOnce \<Longrightarrow> singleton_step no_destroy s (Inr (s\<lparr>sg_pc := (sg_pc s)(t := InOnce)\<rparr>))"
| starts: "sg_pc s t = InOnce \<Longrightarrow> sg_once s = OnceNew \<Longrightarrow> singleton_step no_destroy s (Inr (s\<lparr>sg_once := OnceRunning t\<rparr>))"
| inits: "sg_once s = OnceRunning t \<Longrightarrow> singleton_step no_destroy s (Inr ((singleton_init no_destroy s)\<lparr>sg_once := OnceDone\<rparr>))"
| returns: "sg_pc s t = InOnce \<Longrightarrow> sg_once s = OnceDone \<Longrightarrow>
     singleton_step no_destroy s (bindR (instance_result s) (\<lambda>v. Inr (s\<lparr>sg_pc := (sg_pc s)(t := Got v)\<rparr>)))"

inductive singleton_reach :: "bool \<Rightarrow> singleton res \<Rightarrow> bool" for no_destroy where
  fresh: "singleton_reach no_destroy (Inr new_singleton)"
| continues: "singleton_reach no_destroy (Inr s) \<Longrightarrow> singleton_step no_destroy s r \<Longrightarrow> singleton_reach no_destroy r"

definition singleton_inv :: "bool \<Rightarrow> singleton \<Rightarrow> bool" where
  "singleton_inv no_destroy s \<longleftrightarrow>
     (if sg_once s = OnceDone then sg_value s = Some 0 \<and> sg_made s = 1 \<and> sg_atexit s = (\<not> no_destroy)
      else sg_value s = None \<and> sg_made s = 0) \<and>
     (\<forall>t v. sg_pc s t = Got v \<longrightarrow> sg_once s = OnceDone \<and> v = 0)"

lemma singleton_step_inv:
  "singleton_step no_destroy s r \<Longrightarrow> singleton_inv no_destroy s \<Longrightarrow> \<exists>s'. r = Inr s' \<and> singleton_inv no_destroy s'"
  by (induction rule: singleton_step.induct)
    (auto simp: singleton_inv_def singleton_init_def instance_result_def)

text \<open>While the process runs, \<open>instance\<close> never fails its assertion, one object is made at most, and all threads get that one.\<close>

lemma singleton_once:
  assumes "singleton_reach no_destroy r"
  shows "\<exists>s. r = Inr s \<and> sg_made s \<le> 1 \<and> (\<forall>t u v w. sg_pc s t = Got v \<and> sg_pc s u = Got w \<longrightarrow> v = w)"
proof -
  have "\<exists>s. r = Inr s \<and> singleton_inv no_destroy s"
    using assms
  proof (induction rule: singleton_reach.induct)
    case fresh
    show ?case
      by (simp add: singleton_inv_def new_singleton_def)
  next
    case (continues s r)
    then show ?case
      using singleton_step_inv by blast
  qed
  then obtain s where s: "r = Inr s" "singleton_inv no_destroy s"
    by blast
  have got: "v = 0" if "sg_pc s t = Got v" for t v
    using s(2) that unfolding singleton_inv_def by simp
  have "sg_made s \<le> 1"
    using s(2) by (simp add: singleton_inv_def split: if_splits)
  with s(1) show ?thesis
    by (intro exI [of _ s] conjI allI impI) (auto dest: got)
qed

text \<open>After the exit handler has run, it does.\<close>

lemma instance_after_exit: "instance_result (singleton_destroy s) = Inl Assertion"
  by (simp add: instance_result_def singleton_destroy_def)

subsection \<open>\<open>ThreadLocal\<close>\<close>

record thread_local =
  tl_key :: "nat \<rightharpoonup> nat"       \<comment> \<open>the value of the key in each thread\<close>
  tl_made :: nat
  tl_deleted :: "nat list"

definition new_thread_local :: thread_local where
  "new_thread_local = \<lparr>tl_key = Map.empty, tl_made = 0, tl_deleted = []\<rparr>"

definition tl_value :: "nat \<Rightarrow> thread_local \<Rightarrow> nat \<times> thread_local" where
  "tl_value t l =
     (case tl_key l t of
        Some obj \<Rightarrow> (obj, l)
      | None \<Rightarrow> (tl_made l, l\<lparr>tl_key := (tl_key l)(t \<mapsto> tl_made l), tl_made := tl_made l + 1\<rparr>))"

text \<open>The end of a thread: its value is reset and the destructor runs.\<close>

definition tl_thread_exit :: "nat \<Rightarrow> thread_local \<Rightarrow> thread_local" where
  "tl_thread_exit t l =
     (case tl_key l t of
        None \<Rightarrow> l
      | Some obj \<Rightarrow> l\<lparr>tl_key := (tl_key l)(t := None), tl_deleted := tl_deleted l @ [obj]\<rparr>)"

datatype tl_event = UseValue nat | ThreadExit nat

fun tl_run :: "tl_event list \<Rightarrow> thread_local \<Rightarrow> thread_local" where
  "tl_run [] l = l"
| "tl_run (UseValue t # es) l = tl_run es (snd (tl_value t l))"
| "tl_run (ThreadExit t # es) l = tl_run es (tl_thread_exit t l)"

definition tl_inv :: "thread_local \<Rightarrow> bool" where
  "tl_inv l \<longleftrightarrow> inj_on (tl_key l) (dom (tl_key l)) \<and> distinct (tl_deleted l) \<and>
     ran (tl_key l) \<union> set (tl_deleted l) = {..<tl_made l} \<and> ran (tl_key l) \<inter> set (tl_deleted l) = {}"

lemma tl_value_inv:
  assumes "tl_inv l"
  shows "tl_inv (snd (tl_value t l))"
proof (cases "tl_key l t")
  case None
  have inj: "inj_on (tl_key l) (dom (tl_key l))" and all: "ran (tl_key l) \<union> set (tl_deleted l) = {..<tl_made l}"
    using assms by (simp_all add: tl_inv_def)
  have "inj_on ((tl_key l)(t \<mapsto> tl_made l)) (dom ((tl_key l)(t \<mapsto> tl_made l)))"
  proof -
    have "tl_key l u \<noteq> Some (tl_made l)" for u
      using all by (metis UnCI lessThan_iff nat_less_le ranI)
    then show ?thesis
      using inj None by (auto simp: inj_on_def dom_def)
  qed
  moreover have "ran ((tl_key l)(t \<mapsto> tl_made l)) = insert (tl_made l) (ran (tl_key l))"
    using None by simp
  moreover have "tl_made l \<notin> set (tl_deleted l)"
    using all by blast
  ultimately show ?thesis
    using assms all None by (auto simp: tl_inv_def tl_value_def lessThan_Suc)
qed (use assms in \<open>simp add: tl_value_def\<close>)

lemma tl_exit_inv:
  assumes "tl_inv l"
  shows "tl_inv (tl_thread_exit t l)"
proof (cases "tl_key l t")
  case (Some obj)
  have inj: "inj_on (tl_key l) (dom (tl_key l))"
    using assms by (simp add: tl_inv_def)
  have unique: "u = t" if "tl_key l u = Some obj" for u
    using inj_onD [OF inj, of u t] Some that by (simp add: domI)
  have member: "x \<in> ran ((tl_key l)(t := None)) \<longleftrightarrow> (\<exists>u. u \<noteq> t \<and> tl_key l u = Some x)" for x
    unfolding ran_def by (auto split: if_splits)
  have ran: "ran ((tl_key l)(t := None)) = ran (tl_key l) - {obj}"
  proof (rule set_eqI)
    fix x
    have "u \<noteq> t \<longleftrightarrow> x \<noteq> obj" if "tl_key l u = Some x" for u
      using Some unique [of u] that by (cases "x = obj") auto
    then show "x \<in> ran ((tl_key l)(t := None)) \<longleftrightarrow> x \<in> ran (tl_key l) - {obj}"
      unfolding member by (auto simp: ran_def)
  qed
  have obj: "obj \<in> ran (tl_key l)"
    using Some by (rule ranI)
  have "inj_on ((tl_key l)(t := None)) (dom ((tl_key l)(t := None)))"
  proof (rule inj_onI)
    fix u v
    assume "u \<in> dom ((tl_key l)(t := None))" "v \<in> dom ((tl_key l)(t := None))" "((tl_key l)(t := None)) u = ((tl_key l)(t := None)) v"
    then have "u \<noteq> t" "v \<noteq> t" "u \<in> dom (tl_key l)" "v \<in> dom (tl_key l)" "tl_key l u = tl_key l v"
      by (simp_all split: if_splits)
    then show "u = v"
      using inj_onD [OF inj] by blast
  qed
  moreover have "obj \<notin> set (tl_deleted l)" "ran (tl_key l) - {obj} \<union> insert obj (set (tl_deleted l)) = {..<tl_made l}"
    "(ran (tl_key l) - {obj}) \<inter> insert obj (set (tl_deleted l)) = {}"
  proof -
    have all: "ran (tl_key l) \<union> set (tl_deleted l) = {..<tl_made l}" and apart: "ran (tl_key l) \<inter> set (tl_deleted l) = {}"
      using assms by (simp_all add: tl_inv_def)
    have "ran (tl_key l) - {obj} \<union> insert obj (set (tl_deleted l)) = ran (tl_key l) \<union> set (tl_deleted l)"
      using obj by blast
    then show "ran (tl_key l) - {obj} \<union> insert obj (set (tl_deleted l)) = {..<tl_made l}"
      unfolding all .
    show "obj \<notin> set (tl_deleted l)"
      using apart obj by blast
    show "(ran (tl_key l) - {obj}) \<inter> insert obj (set (tl_deleted l)) = {}"
      using apart by auto
  qed
  moreover have "distinct (tl_deleted l)"
    using assms by (simp add: tl_inv_def)
  ultimately show ?thesis
    using Some by (simp add: tl_inv_def tl_thread_exit_def ran)
qed (use assms in \<open>simp add: tl_thread_exit_def\<close>)

lemma tl_run_inv: "tl_inv l \<Longrightarrow> tl_inv (tl_run es l)"
  by (induction es l rule: tl_run.induct) (simp_all add: tl_value_inv tl_exit_inv)

text \<open>A thread keeps its object until it ends; no two threads share one; every object is in use by a thread or was deleted, once.\<close>

lemma thread_local_objects:
  assumes "l = tl_run es new_thread_local"
  shows "fst (tl_value t (snd (tl_value t l))) = fst (tl_value t l)" and "distinct (tl_deleted l)"
    and "tl_key l t = Some x \<Longrightarrow> tl_key l u = Some x \<Longrightarrow> t = u"
    and "ran (tl_key l) \<union> set (tl_deleted l) = {..<tl_made l}" and "ran (tl_key l) \<inter> set (tl_deleted l) = {}"
proof -
  have "tl_inv l"
    unfolding assms by (rule tl_run_inv) (simp add: tl_inv_def new_thread_local_def lessThan_def)
  then show "distinct (tl_deleted l)" "ran (tl_key l) \<union> set (tl_deleted l) = {..<tl_made l}" "ran (tl_key l) \<inter> set (tl_deleted l) = {}"
    "tl_key l t = Some x \<Longrightarrow> tl_key l u = Some x \<Longrightarrow> t = u"
    by (auto simp: tl_inv_def inj_on_def dom_def)
  show "fst (tl_value t (snd (tl_value t l))) = fst (tl_value t l)"
    by (simp add: tl_value_def split: option.split)
qed

subsection \<open>\<open>ThreadLocalSingleton\<close>\<close>

text \<open>The pointer of the thread and the value of the key are two places; the assertions say that they agree.\<close>

record thread_singleton =
  ts_value :: "nat \<rightharpoonup> nat"
  ts_key :: "nat \<rightharpoonup> nat"
  ts_made :: nat

definition new_thread_singleton :: thread_singleton where
  "new_thread_singleton = \<lparr>ts_value = Map.empty, ts_key = Map.empty, ts_made = 0\<rparr>"

definition deleter_set :: "nat \<Rightarrow> nat \<Rightarrow> thread_singleton \<Rightarrow> thread_singleton res" where
  "deleter_set t newObj s = asserting (ts_key s t = None) (Inr (s\<lparr>ts_key := (ts_key s)(t \<mapsto> newObj)\<rparr>))"

definition ts_instance :: "nat \<Rightarrow> thread_singleton \<Rightarrow> (nat \<times> thread_singleton) res" where
  "ts_instance t s =
     (case ts_value s t of
        Some v \<Rightarrow> Inr (v, s)
      | None \<Rightarrow>
          let v = ts_made s in
          bindR (deleter_set t v (s\<lparr>ts_value := (ts_value s)(t \<mapsto> v), ts_made := ts_made s + 1\<rparr>)) (\<lambda>s'. Inr (v, s')))"

definition ts_pointer :: "nat \<Rightarrow> thread_singleton \<Rightarrow> nat option" where
  "ts_pointer t s = ts_value s t"

text \<open>The end of a thread: the key is reset and its destructor is called with the old value.\<close>

definition ts_destructor :: "nat \<Rightarrow> thread_singleton \<Rightarrow> thread_singleton res" where
  "ts_destructor t s =
     (case ts_key s t of
        None \<Rightarrow> Inr s
      | Some obj \<Rightarrow>
          asserting (ts_value s t = Some obj) (Inr (s\<lparr>ts_key := (ts_key s)(t := None), ts_value := (ts_value s)(t := None)\<rparr>)))"

text \<open>The two places always agree, so neither assertion fails.\<close>

lemma thread_singleton_agree:
  assumes "ts_key s = ts_value s"
  shows "\<exists>v s'. ts_instance t s = Inr (v, s') \<and> ts_key s' = ts_value s' \<and> ts_pointer t s' = Some v"
    and "\<exists>s'. ts_destructor t s = Inr s' \<and> ts_key s' = ts_value s' \<and> ts_pointer t s' = None"
  using assms by (auto simp: ts_instance_def ts_destructor_def ts_pointer_def deleter_set_def Let_def split: option.split)

subsection \<open>\<open>WeakCallback\<close>\<close>

text \<open>The callback runs on the object while someone owns it, and does nothing afterwards.\<close>

definition weak_callback :: "(nat \<Rightarrow> bool) \<Rightarrow> nat \<Rightarrow> (nat \<Rightarrow> 'arg \<Rightarrow> 's \<Rightarrow> 's) \<Rightarrow> 'arg \<Rightarrow> 's \<Rightarrow> 's" where
  "weak_callback alive object function arg s = (if alive object then function object arg s else s)"

end
