(* ===== verification/Spec2Isabelle.thy ===== *)
theory Spec2Isabelle
  imports Net_Buffer EPoll_Poller Poll_Poller Connection_Properties Event_Loop Timer_Queue
  Mysql_Server Connector Tcp_Server Time_Zone Log_File Async_Logging
  Mutex_Lock Blocking_Queue Count_Down_Latch Thread_Pool Tcp_Client Protobuf_Codec Rpc_Channel Logging
  Buffer_Operations Inet_Address Zlib_Stream Buffer_Stream Process_Info Thread_Storage
  "HOL-Library.Sublist"
begin

text \<open>
  This is a verification library for \<open>TcpMysqlServer\<close>, a TCP server that answers SQL queries from a
  cache or a database, and for the copy of the network library \<open>muduo\<close> it is built on.  Paths below are
  relative to \<open>src/src\<close>.

  \<^bold>\<open>The program and its parts.\<close>  A process has one loop per thread (\<open>EventLoop\<close>).  A loop waits in a poller
  (\<open>EPollPoller\<close> or \<open>PollPoller\<close>) for the descriptors of its channels (\<open>Channel\<close>), runs their callbacks, the
  expired timers (\<open>TimerQueue\<close>) and the functors other threads have queued.  \<open>TcpServer\<close> accepts
  (\<open>Acceptor\<close>) in its own loop, gives each \<open>TcpConnection\<close> to a loop of a pool (\<open>EventLoopThreadPool\<close>) and takes
  it back when it closes; \<open>TcpClient\<close> gets its one connection from a \<open>Connector\<close>.  A connection reads
  into one \<open>Buffer\<close> and writes from another.  \<open>TcpMysqlServer\<close> sits on \<open>TcpServer\<close>; the codec, the RPC channel and
  the compressing stream sit on \<open>Buffer\<close> and \<open>TcpConnection\<close>.  Below lie the threads, mutexes, queues and latches of
  \<open>muduo/base\<close>, the calendar and time zones, and logging, which formats lines, hands them to
  a thread in the background and writes them to files that roll.

  \<^bold>\<open>How code is modelled.\<close>  An object is a record with the members of the class, an enumeration a datatype.  An
  operation is one function from the state before to the result: a value of type \<open>'a res\<close>, which is the new
  state or a fault.  The faults are a failed assertion, an exception and undefined behaviour; no theorem about
  success holds because a fault was left out.  \<open>size_t\<close> is a natural number below \<open>2 ^ 64\<close> with the wrap-around in
  \<open>sz_add\<close> and \<open>sz_sub\<close>; integers on the wire and in
  counters are words of their width; a time is an integer number of microseconds.  What an operation does to the world
  outside is a list of effects in the order of the code.  System calls, the allocator, user callbacks, protobuf, zlib and the
  database are arguments; what is assumed of them is a named predicate over
  their documented behaviour (\<open>readv_ok\<close>, \<open>write_ok\<close>, \<open>epoll_kernel\<close>, \<open>format_ok\<close> and so on), and a witness beside each theorem
  shows an instance.  Concurrency is a step relation whose atomic steps are regions under a mutex, operations on atomics, or
  tasks of one loop; the \<open>reach\<close> predicates are the states of all interleavings.

  \<^bold>\<open>Shared theories.\<close>
  \<^item> \<open>Muduo_Prelude\<close>: machine values, faults, results, \<open>size_t\<close> arithmetic, list lemmas.
  \<^item> \<open>Decimal\<close>: decimal numerals, the reference for every printed number.
  \<^item> \<open>Std_Set\<close>: the ordered sets of the standard library.
  \<^item> \<open>Queue_Contract\<close> (locale \<open>byte_queue\<close>): what users of a buffer rely on; \<open>Net_Buffer\<close> interprets it.
  \<^item> \<open>Poller_Contract\<close> (locale \<open>poller_contract\<close>): what users of a poller rely on; \<open>Poll_Poller\<close> interprets it, and \<open>EPoll_Poller\<close>
    derives it for every kernel that satisfies the locale \<open>epoll_kernel\<close>.
  \<^item> \<open>Monitor\<close> (locale \<open>monitored_queue\<close>): a queue under a mutex with two conditions; interpreted on the two
    blocking queues and on the task queue of the thread pool.
  \<^item> \<open>Connection_Owner\<close>: what the owners of a connection rely on.

  \<^bold>\<open>Network.\<close>
  \<^item> \<open>Endian\<close>, \<open>String_Piece\<close>, \<open>Net_Buffer\<close>, \<open>Buffer_Operations\<close> (\<open>muduo/net/Endian.h\<close>, \<open>muduo/base/StringPiece.h\<close>, \<open>muduo/net/Buffer.h\<close>, \<open>Buffer.cc\<close>).
    The invariant \<open>buf_ok\<close> is kept by every operation; a buffer refines a queue of bytes; \<open>readFd\<close> appends exactly what was
    read, also through the buffer on the stack; integers of all widths come back; no sequence of operations from the
    constructor leaves the type or reads outside the vector.
  \<^item> \<open>Channel\<close>, \<open>EPoll_Poller\<close>, \<open>Poll_Poller\<close> (\<open>muduo/net/Channel.cc\<close>, \<open>Poller.cc\<close>, \<open>poller\<close>): what the kernel
    or the array watches is always the interest set of every channel; what a poll reports is dispatched to the right callbacks.
  \<^item> \<open>Event_Loop\<close>, \<open>Timer_Queue\<close> (\<open>muduo/net/EventLoop.cc\<close>, \<open>TimerQueue.cc\<close>, \<open>Timer.cc\<close>, \<open>TimerId.h\<close>): no wakeup is lost;
    the due timers run, in order, and the others do not; a cancelled timer stays cancelled although addresses are reused.
  \<^item> \<open>Tcp_Connection\<close>, \<open>Connection_Properties\<close> (\<open>muduo/net/TcpConnection.cc\<close>): the outgoing stream is intact, drained by a
    socket that accepts bytes, and shut down only when drained; callbacks come in their order.
  \<^item> \<open>Acceptor\<close>, \<open>Loop_Thread_Pool\<close>, \<open>Tcp_Server\<close>, \<open>Connector\<close>, \<open>Tcp_Client\<close> (the files of these names, \<open>EventLoopThread.cc\<close>,
    \<open>EventLoopThreadPool.cc\<close>): the map of connections is exact, queued functors never fail, sockets do not leak, a client has one
    connection; the races of the destructors are proved to exist.
  \<^item> \<open>Inet_Address\<close> (\<open>muduo/net/InetAddress.cc\<close>, \<open>SocketsOps.cc\<close>, \<open>Socket.cc\<close>): texts and addresses convert back and
    forth within the buffers given.
  \<^item> \<open>Protobuf_Codec\<close>, \<open>Buffer_Stream\<close>, \<open>Rpc_Channel\<close>, \<open>Zlib_Stream\<close> (\<open>muduo/net/protobuf\<close>, \<open>muduo/net/protorpc\<close>,
    \<open>muduo/net/ZlibStream.h\<close>): frames come out of a stream as they went in, every bad frame gets its error code, calls return at most once and to their
    caller, a compressed stream is complete.

  \<^bold>\<open>Base.\<close>
  \<^item> \<open>Mutex_Lock\<close>, \<open>Blocking_Queue\<close>, \<open>Count_Down_Latch\<close>, \<open>Thread_Pool\<close>, \<open>Atomic_Integer\<close>, \<open>Thread_Storage\<close> (\<open>Mutex.h\<close>, \<open>Condition.cc\<close>,
    \<open>BlockingQueue.h\<close>, \<open>BoundedBlockingQueue.h\<close>, \<open>CountDownLatch.cc\<close>, \<open>Thread.cc\<close>, \<open>CurrentThread.cc\<close>, \<open>ThreadPool.cc\<close>, \<open>Atomic.h\<close>, \<open>Singleton.h\<close>,
    \<open>ThreadLocal.h\<close>, \<open>ThreadLocalSingleton.h\<close>, \<open>WeakCallback.h\<close>): exclusion, order, bounds, no lost wakeup, exactly-once
    execution and initialization, workers that return after \<open>stop\<close>.
  \<^item> \<open>Calendar\<close>, \<open>Time_Zone\<close> (\<open>Date.cc\<close>, \<open>Timestamp.cc\<close>, \<open>TimeZone.cc\<close>): day numbers are those of the Gregorian calendar,
    UTC and local times convert back and forth, zone files are read as they were written.
  \<^item> \<open>Log_Stream\<close>, \<open>Logging\<close>, \<open>Async_Logging\<close>, \<open>Log_File\<close>, \<open>Process_Info\<close> (\<open>LogStream.cc\<close>, \<open>Logging.cc\<close>, \<open>AsyncLogging.cc\<close>,
    \<open>LogFile.cc\<close>, \<open>FileUtil.cc\<close>, \<open>ProcessInfo.cc\<close>): the text of a line, the one line per statement, that lines reach their file whole and in order.

  \<^bold>\<open>Application.\<close>  \<open>Mysql_Server\<close> (\<open>tcpmysql/MysqlServer.cc\<close>, \<open>TcpMysqlServer.cc\<close>): the order of use of connections and its bound, the
  cache and its wheel, and that every request ends in an exception of \<open>any_cast\<close>.

  This theory closes with a property across components: what the codec frames and a connection sends is what the codec on the
  other side delivers.

  \<^bold>\<open>Bounds and loops.\<close>  \<open>max_size\<close> is the largest size of a vector of bytes; theorems in which a buffer grows assume room below it.
  Every loop of the code is a total function with a measure (the bytes left to write or to read, the value left to print, the bytes in the
  buffer of the codec), except the two loops around \<open>deflate\<close>, which are partial functions, and
  that they return is part of the theorem about them.  Nothing uses fuel.

  \<^bold>\<open>Not modelled.\<close>
  \<^item> Floating point: intervals of timers are given as microseconds with the sign of the \<open>double\<close>, logging of a \<open>double\<close> takes the text
    \<open>snprintf\<close> gives, \<open>timeDifference\<close> and \<open>cpuTime\<close> are left out.
  \<^item> Functions that only forward to the system, to zlib or to protobuf: \<open>GzipFile.h\<close>, \<open>Exception.cc\<close>, parts of \<open>ProcessInfo.cc\<close>, \<open>CurrentThread.cc\<close>
    and \<open>Timestamp.cc\<close>; \<open>ZlibInputStream\<close>, which is declared and not implemented.
  \<^item> \<open>DefaultPoller.cc\<close>, a choice by an environment variable between two implementations of one contract; \<open>main.cc\<close>,
    which constructs the server and runs its loop.
  \<^item> Files without behaviour (\<open>Types.h\<close>, \<open>Callbacks.h\<close>, \<open>copyable.h\<close>, \<open>noncopyable.h\<close>, \<open>boilerplate.cc\<close>), messages for
    inconsistent protobuf objects (\<open>google-inl.h\<close>), \<open>Lru.h\<close>, which does not compile and is not included, the tests, and the older copies
    of the sources with the suffix \<open>r\<close>.
  \<^item> The memory model below the mutexes: unsynchronized reads of \<open>bool\<close> members are single steps.
\<close>

section \<open>Messages over a connection\<close>

lemma receive_chunks_append:
  "receive_chunks adler par cd (xs @ ys) b =
     bindR (receive_chunks adler par cd xs b) (\<lambda>(es, b1).
     bindR (receive_chunks adler par cd ys b1) (\<lambda>(es', b2). Inr (es @ es', b2)))"
  by (induction xs arbitrary: b) (simp_all add: bindR_assoc split_def)

text \<open>What has arrived of a stream of frames has been delivered as some of its messages, in order.\<close>

lemma receive_prefix:
  assumes "buf_ok b" and "readable b = []" and "buf_load b + length (frames_of adler ser cd ms) \<le> max_size"
    and "format_ok ser par cd ms" and "prefix (concat chunks) (frames_of adler ser cd ms)"
  obtains ms' b' where "receive_chunks adler par cd chunks b = Inr (map GotMessage ms', b')" and "prefix ms' ms"
    and "concat chunks = frames_of adler ser cd ms \<Longrightarrow> ms' = ms"
proof -
  obtain rest where rest: "frames_of adler ser cd ms = concat chunks @ rest"
    using assms(5) by (auto elim: prefixE)
  obtain b2 where b2: "receive_chunks adler par cd (chunks @ [rest]) b = Inr (map GotMessage ms, b2)"
    using receive_chunks_frames [OF assms(1), of "chunks @ [rest]" adler ser cd ms par] assms(2-4) rest by auto
  then obtain es b1 es' where es: "receive_chunks adler par cd chunks b = Inr (es, b1)" "es @ es' = map GotMessage ms"
    unfolding receive_chunks_append by (auto simp: res_simps)
  then obtain ms' ms'' where ms: "ms = ms' @ ms''" "es = map GotMessage ms'"
    by (metis map_eq_append_conv)
  have "ms' = ms" if "concat chunks = frames_of adler ser cd ms"
  proof -
    have "ms = []" if "chunks = []"
      using that \<open>concat chunks = _\<close> by (cases ms) (auto simp: frames_of_def)
    then have "receive_chunks adler par cd chunks b = Inr (map GotMessage ms, b1)"
      using receive_chunks_frames [OF assms(1), of chunks adler ser cd ms par] assms(2-4) that es(1) by auto
    then show ?thesis
      using es(1) ms(2) by (auto simp: inj_map_eq_map inj_def)
  qed
  then show thesis
    using that es(1) ms by auto
qed

text \<open>C5: Messages framed by the codec and sent over a connection arrive.  Whatever part of the bytes the connection
  gave to the kernel has arrived, in whatever chunks, and however sends, partial writes and writability events interleaved, the receiving
  codec delivers a prefix of the messages, in order and without an error; once the connection has nothing buffered and all it wrote has arrived, it
  has delivered all of them.\<close>

theorem messages_over_connection:
  assumes "new_buffer kInitialSize = Inr b0" and "format_ok ser par cd ms"
    and "conn_reach c (concat (map (wire_of adler ser cd b0) ms))"
    and "prefix (concat chunks) (sent_bytes (c_effects c))"
    and "buf_ok b" and "readable b = []"
    and "buf_load b + length (concat (map (wire_of adler ser cd b0) ms)) \<le> max_size"
  shows "\<exists>ms' b'. receive_chunks adler par cd chunks b = Inr (map GotMessage ms', b') \<and> prefix ms' ms \<and>
    (readable (c_outputBuffer c) = [] \<and> concat chunks = sent_bytes (c_effects c) \<longrightarrow> ms' = ms)"
proof -
  have frames: "sent_bytes (c_effects c) @ readable (c_outputBuffer c) = frames_of adler ser cd ms"
    using conn_reach_inv [OF assms(3)] wire_of_frames [OF assms(1,2), of adler] by (simp add: conn_inv_def)
  then have "prefix (concat chunks) (frames_of adler ser cd ms)"
    using assms(4) by (metis prefix_prefix)
  then obtain ms' b' where "receive_chunks adler par cd chunks b = Inr (map GotMessage ms', b')" "prefix ms' ms"
      "concat chunks = frames_of adler ser cd ms \<Longrightarrow> ms' = ms"
    using receive_prefix [OF assms(5,6) _ assms(2), of adler chunks] assms(7) wire_of_frames [OF assms(1,2), of adler] by auto
  then show ?thesis
    using frames by auto
qed

text \<open>A kernel that takes everything at once, and a connection that sends some bytes through it.\<close>

definition write_all :: write_call where
  "write_all bs = Inr (length bs)"

lemma sample_wire_sent:
  assumes "length wire < 100"
  obtains c where "conn_reach c wire" and "sent_bytes (c_effects c) = wire" and "readable (c_outputBuffer c) = []"
proof -
  have fits: "piece_fits (piece_of_string wire)" "piece_bytes (piece_of_string wire) = wire"
    using assms by (simp_all add: piece_fits_def piece_ok_def piece_of_string_def piece_bytes_def)
  obtain c where c: "conn_step (Send True write_all (piece_of_string wire)) sample_up = Inr c"
      "sent_bytes (c_effects c) = wire"
  proof -
    have "write_directly sample_up"
      by (simp add: write_directly_def buf_ok_sizes(1))
    moreover have "sz_sub (length wire) (length wire) = 0"
      using assms by (simp add: sz_sub_def)
    ultimately have "\<exists>c. sendInLoop write_all wire sample_up = Inr c \<and> sent_bytes (c_effects c) = wire"
      by (auto simp: sendInLoop_def after_direct_write_def nwrote_def fault_error_def write_all_def
          conn_parts Let_def)
    then show thesis
      using that assms by (auto simp: send_def piece_of_string_def)
  qed
  have "write_ok write_all"
    by (simp add: write_ok_def write_all_def)
  then have "conn_reach c ([] @ accepted (Send True write_all (piece_of_string wire)) sample_up)"
    using conn_next [OF sample_up_reach _ c(1)] fits by simp
  then have r: "conn_reach c wire"
    using fits by (simp add: taken_def fault_error_def write_all_def)
  then show thesis
    using that c(2) conn_reach_inv [OF r] by (auto simp: conn_inv_def)
qed

theorem messages_over_connection_witness:
  "\<exists>b0 c b' wire. new_buffer kInitialSize = Inr b0 \<and> conn_reach c wire \<and> length wire = 27 \<and>
     receive_chunks byte_sum Some rpc_codec [take 5 wire, drop 5 wire] sample_buffer =
       Inr ([GotMessage [1, 2], GotMessage [3]], b')"
proof -
  have "kCheapPrepend + kInitialSize \<le> max_size"
    by (simp add: kCheapPrepend_def kInitialSize_def max_size_def)
  then obtain b0 where b0: "new_buffer kInitialSize = Inr b0"
    using new_buffer_ok by blast
  let ?ms = "[[1, 2], [3]] :: byte list list"
  let ?wire = "concat (map (wire_of byte_sum id rpc_codec b0) ?ms)"
  have ok: "format_ok id Some rpc_codec ?ms"
    by (simp add: format_ok_def fits_frame_def frame_body_def rpc_codec_def kChecksumLen_def kMaxMessageLen_def)
  have len: "length ?wire = 27"
    unfolding wire_of_frames [OF b0 ok]
    by (simp add: frames_of_def length_frame_of frame_body_def rpc_codec_def kChecksumLen_def kHeaderLen_def)
  obtain c where c: "conn_reach c ?wire" "sent_bytes (c_effects c) = ?wire" "readable (c_outputBuffer c) = []"
    using sample_wire_sent [of ?wire] len by auto
  have chunks: "concat [take 5 ?wire, drop 5 ?wire] = ?wire"
    by (simp only: concat.simps append_Nil2 append_take_drop_id)
  have "\<exists>b'. receive_chunks byte_sum Some rpc_codec [take 5 ?wire, drop 5 ?wire] sample_buffer = Inr (map GotMessage ?ms, b')"
    using messages_over_connection [OF b0 ok c(1), of "[take 5 ?wire, drop 5 ?wire]" sample_buffer]
    unfolding chunks c(2,3) len by (simp add: sample_facts max_size_def del: receive_chunks.simps)
  then show ?thesis
    using b0 c(1) len unfolding list.map(1,2) by blast
qed

end
